(* ===== verification/Cortex_Prelude.thy ===== *)
theory Cortex_Prelude
  imports "HOL-Library.Word"
begin

text \<open>
  The prelude of the development: names for the machine integer types of the kernel, the
  standard-library idioms its sources share (iterating over vectors of optional slots,
  saturating arithmetic, little-endian byte conversion, copying into a caller's buffer), and
  the generic lemmas about them that the component theories use.

  The kernel is built in release mode (\<^verbatim>\<open>tools/xtask/src/main.rs\<close>), so fixed-width arithmetic
  wraps: \<^verbatim>\<open>u32\<close> and \<^verbatim>\<open>u64\<close> values are words.  A \<^verbatim>\<open>usize\<close> that only counts or indexes inside a
  bounded buffer is a natural number, and a signed return code is an \<^typ>\<open>int\<close>.
\<close>

unbundle bit_operations_syntax

section \<open>Machine types and collections of rules\<close>

type_synonym u8 = "8 word"
type_synonym u16 = "16 word"
type_synonym u32 = "32 word"
type_synonym u64 = "64 word"
type_synonym i32 = "32 word"
type_synonym bytes = "8 word list"

named_theorems slot_simps \<open>lookup after an update of a table of slots\<close>
named_theorems kernel_defs \<open>the constants of the sources\<close>

text \<open>The number of process slots, which the process table, the inboxes and the wake bits share.\<close>

definition MAX_PROCS :: nat where [kernel_defs]: "MAX_PROCS = 256"

section \<open>Slots\<close>

text \<open>\<^verbatim>\<open>slots.iter().flatten()\<close>: the occupied slots, in slot order.\<close>

primrec flatten :: "'a option list \<Rightarrow> 'a list" where
  "flatten [] = []"
| "flatten (s # ss) = (case s of None \<Rightarrow> flatten ss | Some a \<Rightarrow> a # flatten ss)"

text \<open>A loop \<^verbatim>\<open>for slot in slots.iter_mut()\<close> that stores into the first empty slot and returns.\<close>

primrec fill_first_none :: "'a \<Rightarrow> 'a option list \<Rightarrow> 'a option list option" where
  "fill_first_none r [] = None"
| "fill_first_none r (s # ss) =
     (if s = None then Some (Some r # ss)
      else map_option (\<lambda>t. s # t) (fill_first_none r ss))"

text \<open>A loop that empties the first occupied slot satisfying a test and returns.\<close>

primrec clear_first :: "('a \<Rightarrow> bool) \<Rightarrow> 'a option list \<Rightarrow> 'a option list option" where
  "clear_first P [] = None"
| "clear_first P (s # ss) =
     (if (case s of None \<Rightarrow> False | Some a \<Rightarrow> P a) then Some (None # ss)
      else map_option (\<lambda>t. s # t) (clear_first P ss))"

text \<open>\<^verbatim>\<open>slots.iter_mut().flatten().find(P)\<close> followed by an update through the reference.\<close>

primrec update_first :: "('a \<Rightarrow> bool) \<Rightarrow> ('a \<Rightarrow> 'a) \<Rightarrow> 'a option list \<Rightarrow> 'a option list" where
  "update_first P f [] = []"
| "update_first P f (s # ss) =
     (case s of None \<Rightarrow> None # update_first P f ss
      | Some a \<Rightarrow> if P a then Some (f a) # ss else Some a # update_first P f ss)"

text \<open>\<^verbatim>\<open>iter().position(P)\<close>.\<close>

primrec position :: "('a \<Rightarrow> bool) \<Rightarrow> 'a list \<Rightarrow> nat option" where
  "position P [] = None"
| "position P (x # xs) = (if P x then Some 0 else map_option Suc (position P xs))"

text \<open>\<^verbatim>\<open>iter_mut().find(P)\<close> on a plain vector, followed by an update through the reference.\<close>

primrec modify_first :: "('a \<Rightarrow> bool) \<Rightarrow> ('a \<Rightarrow> 'a) \<Rightarrow> 'a list \<Rightarrow> 'a list" where
  "modify_first P f [] = []"
| "modify_first P f (x # xs) = (if P x then f x # xs else x # modify_first P f xs)"

text \<open>\<^verbatim>\<open>Vec::remove(i)\<close> for an index in range.\<close>

definition remove_at :: "nat \<Rightarrow> 'a list \<Rightarrow> 'a list" where
  "remove_at i xs = take i xs @ drop (Suc i) xs"

text \<open>\<^verbatim>\<open>buf[off..off + data.len()].copy_from_slice(data)\<close> for a range inside the buffer.\<close>

definition write_at :: "nat \<Rightarrow> 'a list \<Rightarrow> 'a list \<Rightarrow> 'a list" where
  "write_at off d buf = take off buf @ d @ drop (off + length d) buf"

section \<open>Saturating arithmetic and byte order\<close>

definition sat_add :: "'a::len word \<Rightarrow> 'a word \<Rightarrow> 'a word" where
  "sat_add a b = (if unat a + unat b < 2 ^ LENGTH('a) then a + b else - 1)"

definition sat_sub :: "'a::len word \<Rightarrow> 'a word \<Rightarrow> 'a word" where
  "sat_sub a b = (if a < b then 0 else a - b)"

text \<open>\<^verbatim>\<open>trailing_zeros\<close>: the number of low-order zero bits (the width for zero).\<close>

definition trailing_zeros :: "'a::len word \<Rightarrow> nat" where
  "trailing_zeros w = length (takeWhile (\<lambda>i. \<not> bit w i) [0..<LENGTH('a)])"

definition u16_to_le :: "u16 \<Rightarrow> bytes" where
  "u16_to_le w = [ucast w, ucast (drop_bit 8 w)]"

definition u32_to_le :: "u32 \<Rightarrow> bytes" where
  "u32_to_le w = map (\<lambda>i. ucast (drop_bit (8 * i) w)) [0..<4]"

definition u64_to_le :: "u64 \<Rightarrow> bytes" where
  "u64_to_le w = map (\<lambda>i. ucast (drop_bit (8 * i) w)) [0..<8]"

text \<open>Little-endian reading of a byte slice (\<^verbatim>\<open>from_le_bytes\<close> of its first bytes).\<close>

primrec from_le :: "bytes \<Rightarrow> 'a::len word" where
  "from_le [] = 0"
| "from_le (b # bs) = ucast b OR push_bit 8 (from_le bs)"

definition slice :: "nat \<Rightarrow> nat \<Rightarrow> 'a list \<Rightarrow> 'a list" where
  "slice i j xs = take (j - i) (drop i xs)"

section \<open>Lemmas on slots\<close>

lemma flatten_append [simp]: "flatten (xs @ ys) = flatten xs @ flatten ys"
  by (induction xs) (auto split: option.splits)

lemma set_flatten: "a \<in> set (flatten ss) \<longleftrightarrow> Some a \<in> set ss"
  by (induction ss) (auto split: option.splits)

lemma flatten_replicate_None [simp]: "flatten (replicate n None) = []"
  by (induction n) auto

lemma length_flatten_le: "length (flatten ss) \<le> length ss"
  by (induction ss) (auto split: option.splits)

lemma fill_first_none_None: "fill_first_none r ss = None \<longleftrightarrow> None \<notin> set ss"
  by (induction ss) auto

lemma fill_first_none_len [simp]: "fill_first_none r ss = Some ss' \<Longrightarrow> length ss' = length ss"
  by (induction ss arbitrary: ss') (auto split: if_splits)

lemma fill_first_none_count:
  "fill_first_none r ss = Some ss' \<Longrightarrow> length (flatten ss') = Suc (length (flatten ss))"
  by (induction ss arbitrary: ss') (auto split: if_splits option.splits)

lemma fill_first_none_set:
  "fill_first_none r ss = Some ss' \<Longrightarrow> set (flatten ss') = insert r (set (flatten ss))"
  by (induction ss arbitrary: ss') (auto split: if_splits option.splits)

lemma fill_first_none_map_flatten:
  "fill_first_none r ss = Some ss' \<Longrightarrow>
     distinct (map f (flatten ss')) \<longleftrightarrow> f r \<notin> f ` set (flatten ss) \<and> distinct (map f (flatten ss))"
proof (induction ss arbitrary: ss')
  case (Cons s ss)
  show ?case
  proof (cases s)
    case (Some a)
    with Cons.prems obtain t where t: "fill_first_none r ss = Some t" "ss' = Some a # t"
      by auto
    show ?thesis
      using Cons.IH [OF t(1)] fill_first_none_set [OF t(1)] Some t(2) by auto
  qed (use Cons.prems in auto)
qed simp

lemma find_fill_first_none [slot_simps]:
  "fill_first_none r ss = Some ss' \<Longrightarrow> List.find P (flatten ss) = None \<Longrightarrow>
     List.find P (flatten ss') = (if P r then Some r else None)"
  by (induction ss arbitrary: ss') (auto split: if_splits option.splits)

lemma find_fill_first_none_other [slot_simps]:
  "fill_first_none r ss = Some ss' \<Longrightarrow> \<not> P r \<Longrightarrow>
     List.find P (flatten ss') = List.find P (flatten ss)"
  by (induction ss arbitrary: ss') (auto split: if_splits option.splits)

lemma clear_first_None: "clear_first P ss = None \<longleftrightarrow> List.find P (flatten ss) = None"
  by (induction ss) (auto split: option.splits)

lemma clear_first_len [simp]: "clear_first P ss = Some ss' \<Longrightarrow> length ss' = length ss"
  by (induction ss arbitrary: ss') (auto split: if_splits)

lemma clear_first_set: "clear_first P ss = Some ss' \<Longrightarrow> set (flatten ss') \<subseteq> set (flatten ss)"
  by (induction ss arbitrary: ss') (auto split: if_splits option.splits)

lemma clear_first_count:
  "clear_first P ss = Some ss' \<Longrightarrow> Suc (length (flatten ss')) = length (flatten ss)"
  by (induction ss arbitrary: ss') (auto split: if_splits option.splits)

lemma find_clear_first_other [slot_simps]:
  "clear_first P ss = Some ss' \<Longrightarrow> (\<And>a. P a \<Longrightarrow> \<not> Q a) \<Longrightarrow>
     List.find Q (flatten ss') = List.find Q (flatten ss)"
  by (induction ss arbitrary: ss') (auto split: if_splits option.splits)

lemma clear_first_distinct:
  "clear_first P ss = Some ss' \<Longrightarrow> distinct (map f (flatten ss)) \<Longrightarrow> distinct (map f (flatten ss'))"
proof (induction ss arbitrary: ss')
  case (Cons s ss)
  then show ?case
    using clear_first_set by (cases s) (fastforce split: if_splits)+
qed simp

lemma find_clear_first [slot_simps]:
  "clear_first (\<lambda>a. f a = k) ss = Some ss' \<Longrightarrow> distinct (map f (flatten ss)) \<Longrightarrow>
     List.find (\<lambda>a. f a = k) (flatten ss') = None"
proof (induction ss arbitrary: ss')
  case (Cons s ss)
  then show ?case
    by (cases s) (force simp: find_None_iff image_iff split: if_splits)+
qed simp

lemma update_first_len [simp]: "length (update_first P f ss) = length ss"
  by (induction ss) (auto split: option.splits)

lemma find_update_first [slot_simps]:
  "(\<And>a. P (f a) = P a) \<Longrightarrow>
     List.find P (flatten (update_first P f ss)) = map_option f (List.find P (flatten ss))"
  by (induction ss) (auto split: option.splits)

lemma find_update_first_other [slot_simps]:
  "(\<And>a. P a \<Longrightarrow> \<not> Q a \<and> \<not> Q (f a)) \<Longrightarrow>
     List.find Q (flatten (update_first P f ss)) = List.find Q (flatten ss)"
  by (induction ss) (auto split: option.splits)

lemma map_flatten_update_first:
  "(\<And>a. P a \<Longrightarrow> g (f a) = g a) \<Longrightarrow> map g (flatten (update_first P f ss)) = map g (flatten ss)"
  by (induction ss) (auto split: option.splits)

lemma find_SomeD: "List.find P xs = Some a \<Longrightarrow> P a \<and> a \<in> set xs"
  by (auto simp: find_Some_iff)

lemma find_append: "List.find P (xs @ ys) = (case List.find P xs of None \<Rightarrow> List.find P ys | Some x \<Rightarrow> Some x)"
  by (induction xs) auto

lemma position_Some: "position P xs = Some i \<Longrightarrow> i < length xs \<and> P (xs ! i) \<and> (\<forall>j<i. \<not> P (xs ! j))"
  by (induction xs arbitrary: i) (auto simp: less_Suc_eq_0_disj split: if_splits)

lemma position_None: "position P xs = None \<longleftrightarrow> (\<forall>x \<in> set xs. \<not> P x)"
  by (induction xs) auto

lemma length_write_at [simp]:
  "off + length d \<le> length buf \<Longrightarrow> length (write_at off d buf) = length buf"
  by (simp add: write_at_def)

lemma length_slice [simp]: "j \<le> length xs \<Longrightarrow> length (slice i j xs) = j - i"
  by (simp add: slice_def)

section \<open>Lemmas on words and bytes\<close>

lemma sat_add_unat: "unat (sat_add a (b :: 'a::len word)) = min (unat a + unat b) (2 ^ LENGTH('a) - 1)"
proof (cases "unat a + unat b < 2 ^ LENGTH('a)")
  case True
  then show ?thesis by (simp add: sat_add_def unat_word_ariths)
next
  case False
  moreover have "unat (- 1 :: 'a word) = 2 ^ LENGTH('a) - 1"
    by (simp add: unsigned_minus_1_eq_mask mask_eq_exp_minus_1)
  ultimately show ?thesis by (simp add: sat_add_def)
qed

lemma sat_sub_unat: "unat (sat_sub a b) = unat a - unat b"
  by (auto simp: sat_sub_def word_less_nat_alt unat_sub word_le_nat_alt)

lemma trailing_zeros_bit:
  fixes w :: "'a::len word"
  assumes "w \<noteq> 0"
  shows "bit w (trailing_zeros w)" "trailing_zeros w < LENGTH('a)" "j < trailing_zeros w \<Longrightarrow> \<not> bit w j"
proof -
  let ?P = "\<lambda>i. \<not> bit w i" and ?l = "[0..<LENGTH('a)]"
  obtain i where "bit w i" "i < LENGTH('a)"
    using assms bit_word_eqI [of w 0] by auto
  then have "takeWhile ?P ?l \<noteq> ?l"
    using takeWhile_eq_all_conv [of ?P ?l] by auto
  then have lt: "length (takeWhile ?P ?l) < length ?l"
    by (metis length_takeWhile_le linorder_le_less_linear order_antisym takeWhile_eq_take take_all)
  then show "trailing_zeros w < LENGTH('a)" by (simp add: trailing_zeros_def)
  show "bit w (trailing_zeros w)"
    using nth_length_takeWhile [OF lt] lt by (simp add: trailing_zeros_def)
  show "\<not> bit w j" if "j < trailing_zeros w"
    using that nth_mem [of j "takeWhile ?P ?l"] set_takeWhileD [of _ ?P ?l] takeWhile_nth [of j ?P ?l] lt
    by (fastforce simp: trailing_zeros_def)
qed

lemma length_u32_to_le [simp]: "length (u32_to_le w) = 4"
  by (simp add: u32_to_le_def)

lemma length_u64_to_le [simp]: "length (u64_to_le w) = 8"
  by (simp add: u64_to_le_def)

lemma length_u16_to_le [simp]: "length (u16_to_le w) = 2"
  by (simp add: u16_to_le_def)

lemma from_le_bytes:
  fixes w :: "'a::len word"
  shows "from_le (map (\<lambda>i. ucast (drop_bit (8 * i) w)) [0..<n]) = take_bit (8 * n) w"
proof (induction n arbitrary: w)
  case (Suc n)
  have "map (\<lambda>i. ucast (drop_bit (8 * i) w) :: u8) [0..<Suc n] =
        ucast w # map (\<lambda>i. ucast (drop_bit (8 * i) (drop_bit 8 w))) [0..<n]"
    by (simp add: upt_conv_Cons map_Suc_upt [symmetric] comp_def add.commute del: upt_Suc)
  then have "from_le (map (\<lambda>i. ucast (drop_bit (8 * i) w)) [0..<Suc n]) =
        ucast (ucast w :: u8) OR push_bit 8 (take_bit (8 * n) (drop_bit 8 w))"
    by (simp only: from_le.simps Suc.IH)
  also have "\<dots> = take_bit (8 * Suc n) w"
    by (rule bit_word_eqI) (auto simp: bit_simps)
  finally show ?case .
qed simp

lemma from_le_u16 [simp]: "from_le (u16_to_le w) = w"
  using from_le_bytes [of w 2] by (simp add: u16_to_le_def upt_rec take_bit_word_eq_self)

lemma from_le_u32 [simp]: "from_le (u32_to_le w) = w"
  using from_le_bytes [of w 4] by (simp add: u32_to_le_def take_bit_word_eq_self)

lemma from_le_u64 [simp]: "from_le (u64_to_le w) = w"
  using from_le_bytes [of w 8] by (simp add: u64_to_le_def take_bit_word_eq_self)

end
