(* ===== verification/Keyed_Tables.thy ===== *)
theory Keyed_Tables
  imports Cortex_Prelude
begin

text \<open>
  The interface of the kernel's slot tables.  The port namespace and the application registry
  keep records in a vector of optional slots, find a record by a
  key, store a record in the first free slot and free the slot of a key.  The locale
  \<open>keyed_table\<close> states what the clients of such a table rely on: on tables that satisfy the
  invariant, the lookup function behaves as a finite map.  \<open>slot_lookup\<close>, \<open>slot_store\<close> and
  \<open>slot_remove\<close> are the operations as the sources write them, for an arbitrary key.
\<close>

section \<open>The interface\<close>

locale keyed_table =
  fixes key :: "'r \<Rightarrow> 'k"
    and lookup :: "'t \<Rightarrow> 'k \<Rightarrow> 'r option"
    and store :: "'r \<Rightarrow> 't \<Rightarrow> 't option"
    and remove :: "'k \<Rightarrow> 't \<Rightarrow> 't option"
    and invar :: "'t \<Rightarrow> bool"
  assumes lookup_key: "lookup t k = Some r \<Longrightarrow> key r = k"
    and lookup_store: "invar t \<Longrightarrow> lookup t (key r) = None \<Longrightarrow> store r t = Some t' \<Longrightarrow>
          lookup t' = (lookup t)(key r \<mapsto> r)"
    and invar_store: "invar t \<Longrightarrow> lookup t (key r) = None \<Longrightarrow> store r t = Some t' \<Longrightarrow> invar t'"
    and lookup_remove: "invar t \<Longrightarrow> remove k t = Some t' \<Longrightarrow> lookup t' = (lookup t)(k := None)"
    and invar_remove: "invar t \<Longrightarrow> remove k t = Some t' \<Longrightarrow> invar t'"
    and remove_absent: "remove k t = None \<longleftrightarrow> lookup t k = None"
begin

lemma lookup_store_same:
  "invar t \<Longrightarrow> lookup t (key r) = None \<Longrightarrow> store r t = Some t' \<Longrightarrow> lookup t' (key r) = Some r"
  by (frule (2) lookup_store) simp

lemma store_remove_id:
  assumes "invar t" "lookup t (key r) = None" "store r t = Some t'"
  shows "\<exists>t''. remove (key r) t' = Some t'' \<and> invar t'' \<and> lookup t'' = lookup t"
proof -
  note l = lookup_store [OF assms] and i = invar_store [OF assms]
  then obtain t'' where r: "remove (key r) t' = Some t''"
    using remove_absent [of "key r" t'] by (cases "remove (key r) t'") auto
  show ?thesis
    using lookup_remove [OF i r] invar_remove [OF i r] r l assms(2) by (auto simp: fun_upd_idem)
qed

lemma remove_absent_after:
  assumes "invar t" "remove k t = Some t'"
  shows "remove k t' = None"
  using lookup_remove [OF assms] by (simp add: remove_absent)

end

section \<open>Slot vectors as the sources write them\<close>

definition slot_lookup :: "('r \<Rightarrow> 'k) \<Rightarrow> 'r option list \<Rightarrow> 'k \<Rightarrow> 'r option" where
  "slot_lookup key ss k = List.find (\<lambda>r. key r = k) (flatten ss)"

text \<open>Reuse a free slot, else grow the vector; refuse when \<open>lim\<close> slots are occupied.\<close>

definition slot_store :: "nat \<Rightarrow> 'r \<Rightarrow> 'r option list \<Rightarrow> 'r option list option" where
  "slot_store lim r ss =
     (if length (flatten ss) \<ge> lim then None
      else case fill_first_none r ss of
             Some ss' \<Rightarrow> Some ss'
           | None \<Rightarrow> Some (ss @ [Some r]))"

definition slot_remove :: "('r \<Rightarrow> 'k) \<Rightarrow> 'k \<Rightarrow> 'r option list \<Rightarrow> 'r option list option" where
  "slot_remove key k ss = clear_first (\<lambda>r. key r = k) ss"

definition slot_inv :: "nat \<Rightarrow> ('r \<Rightarrow> 'k) \<Rightarrow> 'r option list \<Rightarrow> bool" where
  "slot_inv lim key ss \<longleftrightarrow> distinct (map key (flatten ss)) \<and> length (flatten ss) \<le> lim"

lemma slot_lookup_None: "slot_lookup key ss k = None \<longleftrightarrow> k \<notin> key ` set (flatten ss)"
  by (auto simp: slot_lookup_def find_None_iff)

lemma slot_lookup_key: "slot_lookup key ss k = Some r \<Longrightarrow> key r = k \<and> r \<in> set (flatten ss)"
  by (auto simp: slot_lookup_def find_Some_iff)

lemma slot_store_full: "slot_store lim r ss = None \<longleftrightarrow> length (flatten ss) \<ge> lim"
  by (simp add: slot_store_def split: option.splits)

lemma slot_store_lookup:
  assumes "slot_lookup key ss (key r) = None" "slot_store lim r ss = Some ss'"
  shows "slot_lookup key ss' = (slot_lookup key ss)(key r \<mapsto> r)"
proof
  fix k
  show "slot_lookup key ss' k = ((slot_lookup key ss)(key r \<mapsto> r)) k"
  proof (cases "fill_first_none r ss")
    case None
    with assms show ?thesis
      by (auto simp: slot_lookup_def slot_store_def find_append split: if_splits option.splits)
  next
    case (Some t)
    with assms have "ss' = t"
      by (simp add: slot_store_def split: if_splits)
    with assms Some show ?thesis
      by (auto simp: slot_lookup_def find_fill_first_none find_fill_first_none_other)
  qed
qed

lemma slot_store_inv:
  assumes "slot_inv lim key ss" "slot_lookup key ss (key r) = None" "slot_store lim r ss = Some ss'"
  shows "slot_inv lim key ss'"
  using assms
  by (auto simp: slot_inv_def slot_store_def slot_lookup_None fill_first_none_map_flatten
        fill_first_none_count split: if_splits option.splits)

lemma slot_remove_lookup:
  assumes "slot_inv lim key ss" "slot_remove key k ss = Some ss'"
  shows "slot_lookup key ss' = (slot_lookup key ss)(k := None)"
proof
  fix k'
  show "slot_lookup key ss' k' = ((slot_lookup key ss)(k := None)) k'"
    using assms find_clear_first [of key k ss ss']
      find_clear_first_other [of "\<lambda>r. key r = k" ss ss' "\<lambda>r. key r = k'"]
    by (cases "k' = k") (auto simp: slot_lookup_def slot_remove_def slot_inv_def)
qed

lemma slot_remove_inv:
  assumes "slot_inv lim key ss" "slot_remove key k ss = Some ss'"
  shows "slot_inv lim key ss'"
  using assms clear_first_distinct [of "\<lambda>r. key r = k" ss ss' key] clear_first_count [of "\<lambda>r. key r = k" ss ss']
  by (auto simp: slot_inv_def slot_remove_def)

lemma slot_remove_None: "slot_remove key k ss = None \<longleftrightarrow> slot_lookup key ss k = None"
  by (simp add: slot_remove_def slot_lookup_def clear_first_None)

text \<open>The occupied slots are exactly the bindings of the lookup map.\<close>

lemma slot_count_dom:
  assumes "slot_inv lim key ss"
  shows "length (flatten ss) = card (dom (slot_lookup key ss))" "finite (dom (slot_lookup key ss))"
proof -
  have d: "dom (slot_lookup key ss) = key ` set (flatten ss)"
    using slot_lookup_None [of key ss] by (auto simp: dom_def)
  have "card (key ` set (flatten ss)) = length (flatten ss)"
    using assms distinct_card [of "map key (flatten ss)"] by (simp add: slot_inv_def)
  with d show "length (flatten ss) = card (dom (slot_lookup key ss))" by simp
  show "finite (dom (slot_lookup key ss))" using d by simp
qed

interpretation slots: keyed_table key "slot_lookup key" "slot_store lim" "slot_remove key"
    "slot_inv lim key" for key lim
proof unfold_locales
  show "slot_lookup key t k = Some r \<Longrightarrow> key r = k" for t k r
    using slot_lookup_key by metis
qed (rule slot_store_lookup slot_store_inv slot_remove_lookup slot_remove_inv slot_remove_None; assumption)+

end
