(* ===== verification/Port_Names.thy ===== *)
theory Port_Names
  imports Keyed_Tables
begin

text \<open>
  The named-port namespace of the kernel (\<^verbatim>\<open>kernel/src/port_ns/mod.rs\<close>): a global table that maps
  a byte-string name to an isolate and the process that bound it.  The operations return the
  negative error numbers of the system-call interface; the table is threaded explicitly.  The
  property below is that the table refines a finite map from names to \<open>(isolate, pid)\<close> pairs,
  with every error code of the interface determined by that map.
\<close>

section \<open>Records and table\<close>

definition MAX_PORT_NAME :: nat where [kernel_defs]: "MAX_PORT_NAME = 128"
definition MAX_PORTS :: nat where [kernel_defs]: "MAX_PORTS = 256"

record port_record =
  pr_name :: bytes
  pr_name_len :: u8
  pr_isolate_id :: u32
  pr_pid :: u32

definition name_bytes :: "port_record \<Rightarrow> bytes" where
  "name_bytes r = take (unat (pr_name_len r)) (pr_name r)"

record port_table =
  pt_slots :: "port_record option list"

definition port_table_empty :: port_table where
  "port_table_empty = \<lparr> pt_slots = [] \<rparr>"

definition port_find :: "port_table \<Rightarrow> bytes \<Rightarrow> port_record option" where
  "port_find t nm = List.find (\<lambda>r. name_bytes r = nm) (flatten (pt_slots t))"

definition port_insert :: "port_record \<Rightarrow> port_table \<Rightarrow> bool \<times> port_table" where
  "port_insert r t =
     (if length (flatten (pt_slots t)) \<ge> MAX_PORTS then (False, t)
      else case fill_first_none r (pt_slots t) of
             Some ss \<Rightarrow> (True, t\<lparr>pt_slots := ss\<rparr>)
           | None \<Rightarrow> (True, t\<lparr>pt_slots := pt_slots t @ [Some r]\<rparr>))"

definition port_remove :: "bytes \<Rightarrow> port_table \<Rightarrow> bool \<times> port_table" where
  "port_remove nm t =
     (case clear_first (\<lambda>r. name_bytes r = nm) (pt_slots t) of
        Some ss \<Rightarrow> (True, t\<lparr>pt_slots := ss\<rparr>)
      | None \<Rightarrow> (False, t))"

section \<open>The public operations\<close>

definition port_bind :: "bytes \<Rightarrow> u32 \<Rightarrow> u32 \<Rightarrow> port_table \<Rightarrow> int \<times> port_table" where
  "port_bind nm isolate pid t =
     (if length nm > MAX_PORT_NAME then (- 22, t)
      else if port_find t nm \<noteq> None then (- 17, t)
      else let rec = \<lparr> pr_name = write_at 0 nm (replicate MAX_PORT_NAME 0),
                       pr_name_len = of_nat (length nm),
                       pr_isolate_id = isolate, pr_pid = pid \<rparr>;
               (ok, t') = port_insert rec t
           in if \<not> ok then (- 12, t') else (0, t'))"

definition port_lookup :: "bytes \<Rightarrow> port_table \<Rightarrow> int \<times> (u32 \<times> u32) option" where
  "port_lookup nm t =
     (if length nm > MAX_PORT_NAME then (- 22, None)
      else case port_find t nm of
             Some r \<Rightarrow> (0, Some (pr_isolate_id r, pr_pid r))
           | None \<Rightarrow> (- 2, None))"

definition port_unbind :: "bytes \<Rightarrow> port_table \<Rightarrow> int \<times> port_table" where
  "port_unbind nm t =
     (if length nm > MAX_PORT_NAME then (- 22, t)
      else let (found, t') = port_remove nm t in if found then (0, t') else (- 2, t'))"

definition port_count :: "port_table \<Rightarrow> u32" where
  "port_count t = of_nat (length (flatten (pt_slots t)))"

section \<open>The table as a finite map\<close>

definition port_inv :: "port_table \<Rightarrow> bool" where
  "port_inv t \<longleftrightarrow> slot_inv MAX_PORTS name_bytes (pt_slots t)"

definition port_abs :: "port_table \<Rightarrow> bytes \<Rightarrow> (u32 \<times> u32) option" where
  "port_abs t nm = map_option (\<lambda>r. (pr_isolate_id r, pr_pid r)) (port_find t nm)"

text \<open>One system call of the namespace, and the tables that sequences of calls reach.\<close>

inductive port_step :: "port_table \<Rightarrow> port_table \<Rightarrow> bool" where
  bind: "port_bind nm isolate pid t = (rc, t') \<Longrightarrow> port_step t t'"
| unbind: "port_unbind nm t = (rc, t') \<Longrightarrow> port_step t t'"

inductive port_reachable :: "port_table \<Rightarrow> bool" where
  boot: "port_reachable port_table_empty"
| step: "port_reachable t \<Longrightarrow> port_step t t' \<Longrightarrow> port_reachable t'"

definition port_store :: "port_record \<Rightarrow> port_table \<Rightarrow> port_table option" where
  "port_store r t = (let (ok, t') = port_insert r t in if ok then Some t' else None)"

definition port_drop :: "bytes \<Rightarrow> port_table \<Rightarrow> port_table option" where
  "port_drop nm t = (let (ok, t') = port_remove nm t in if ok then Some t' else None)"

lemma port_find_slots: "port_find t = slot_lookup name_bytes (pt_slots t)"
  by (simp add: port_find_def slot_lookup_def fun_eq_iff)

lemma port_store_slots:
  "port_store r t = map_option (\<lambda>ss. t\<lparr>pt_slots := ss\<rparr>) (slot_store MAX_PORTS r (pt_slots t))"
  by (auto simp: port_store_def port_insert_def slot_store_def split: option.splits)

lemma port_drop_slots:
  "port_drop nm t = map_option (\<lambda>ss. t\<lparr>pt_slots := ss\<rparr>) (slot_remove name_bytes nm (pt_slots t))"
  by (auto simp: port_drop_def port_remove_def slot_remove_def split: option.splits)

lemma port_insert_fail: "port_insert r t = (ok, t') \<Longrightarrow> \<not> ok \<Longrightarrow> t' = t"
  by (auto simp: port_insert_def split: if_splits option.splits)

lemma port_remove_fail: "port_remove nm t = (ok, t') \<Longrightarrow> \<not> ok \<Longrightarrow> t' = t"
  by (auto simp: port_remove_def split: option.splits)

interpretation ports: keyed_table name_bytes port_find port_store port_drop port_inv
proof unfold_locales
  show "port_find t k = Some r \<Longrightarrow> name_bytes r = k" for t k r
    by (auto simp: port_find_slots dest: slot_lookup_key)
  show "port_find t' = (port_find t)(name_bytes r \<mapsto> r)"
    if "port_inv t" "port_find t (name_bytes r) = None" "port_store r t = Some t'" for t t' r
    using that slots.lookup_store [of MAX_PORTS name_bytes "pt_slots t" r]
    by (auto simp: port_find_slots port_store_slots port_inv_def)
  show "port_inv t'"
    if "port_inv t" "port_find t (name_bytes r) = None" "port_store r t = Some t'" for t t' r
    using that by (auto simp: port_find_slots port_store_slots port_inv_def intro: slots.invar_store)
  show "port_find t' = (port_find t)(k := None)"
    if "port_inv t" "port_drop k t = Some t'" for t t' k
    using that slots.lookup_remove [of MAX_PORTS name_bytes "pt_slots t" k]
    by (auto simp: port_find_slots port_drop_slots port_inv_def)
  show "port_inv t'" if "port_inv t" "port_drop k t = Some t'" for t t' k
    using that by (auto simp: port_drop_slots port_inv_def intro: slots.invar_remove)
  show "port_drop k t = None \<longleftrightarrow> port_find t k = None" for k t
    by (simp add: port_drop_slots port_find_slots slots.remove_absent)
qed

lemma port_count_dom:
  assumes "port_inv t"
  shows "length (flatten (pt_slots t)) = card (dom (port_abs t))"
proof -
  have "dom (port_abs t) = dom (port_find t)"
    by (auto simp: port_abs_def dom_def)
  then show ?thesis
    using slot_count_dom [of MAX_PORTS name_bytes "pt_slots t"] assms
    by (simp add: port_inv_def port_find_slots)
qed

lemma new_record_name:
  assumes "length nm \<le> MAX_PORT_NAME"
  shows "name_bytes \<lparr> pr_name = write_at 0 nm (replicate MAX_PORT_NAME 0),
           pr_name_len = of_nat (length nm), pr_isolate_id = isolate, pr_pid = pid \<rparr> = nm"
  using assms by (simp add: name_bytes_def write_at_def kernel_defs unat_of_nat)

lemma port_store_full: "port_store r t = None \<longleftrightarrow> length (flatten (pt_slots t)) \<ge> MAX_PORTS"
  by (simp add: port_store_slots slot_store_full)

lemma port_bind_cases:
  assumes "port_inv t"
  shows "fst (port_bind nm isolate pid t) =
           (if length nm > MAX_PORT_NAME then - 22 else if port_abs t nm \<noteq> None then - 17
            else if card (dom (port_abs t)) \<ge> MAX_PORTS then - 12 else 0)"
    and "port_abs (snd (port_bind nm isolate pid t)) =
           (if fst (port_bind nm isolate pid t) = 0 then (port_abs t)(nm \<mapsto> (isolate, pid)) else port_abs t)"
    and "port_inv (snd (port_bind nm isolate pid t))"
proof -
  let ?r = "\<lparr> pr_name = write_at 0 nm (replicate MAX_PORT_NAME 0),
              pr_name_len = of_nat (length nm), pr_isolate_id = isolate, pr_pid = pid \<rparr>"
  obtain ok t' where ins: "port_insert ?r t = (ok, t')" by fastforce
  have st: "port_store ?r t = (if ok then Some t' else None)"
    by (simp add: port_store_def ins)
  have full: "ok \<longleftrightarrow> \<not> card (dom (port_abs t)) \<ge> MAX_PORTS"
    using port_store_full [of ?r t] st port_count_dom [OF assms] by (auto split: if_splits)
  have free: "port_find t nm = None \<longleftrightarrow> port_abs t nm = None"
    by (simp add: port_abs_def)
  have key: "length nm \<le> MAX_PORT_NAME \<Longrightarrow> name_bytes ?r = nm"
    by (rule new_record_name)
  show "fst (port_bind nm isolate pid t) =
           (if length nm > MAX_PORT_NAME then - 22 else if port_abs t nm \<noteq> None then - 17
            else if card (dom (port_abs t)) \<ge> MAX_PORTS then - 12 else 0)"
    using full free by (auto simp: port_bind_def ins)
  show "port_abs (snd (port_bind nm isolate pid t)) =
           (if fst (port_bind nm isolate pid t) = 0 then (port_abs t)(nm \<mapsto> (isolate, pid)) else port_abs t)"
    using ports.lookup_store [OF assms, of ?r t'] port_insert_fail [OF ins] st key
    by (auto simp: port_bind_def ins port_abs_def fun_eq_iff)
  show "port_inv (snd (port_bind nm isolate pid t))"
    using ports.invar_store [OF assms, of ?r t'] port_insert_fail [OF ins] st key assms
    by (auto simp: port_bind_def ins)
qed

lemma port_unbind_cases:
  assumes "port_inv t"
  shows "fst (port_unbind nm t) =
           (if length nm > MAX_PORT_NAME then - 22 else if port_abs t nm = None then - 2 else 0)"
    and "port_abs (snd (port_unbind nm t)) =
           (if fst (port_unbind nm t) = 0 then (port_abs t)(nm := None) else port_abs t)"
    and "port_inv (snd (port_unbind nm t))"
proof -
  obtain ok t' where rm: "port_remove nm t = (ok, t')" by fastforce
  have dr: "port_drop nm t = (if ok then Some t' else None)"
    by (simp add: port_drop_def rm)
  have free: "ok \<longleftrightarrow> port_abs t nm \<noteq> None"
    using ports.remove_absent [of nm t] dr by (auto simp: port_abs_def split: if_splits)
  show "fst (port_unbind nm t) =
           (if length nm > MAX_PORT_NAME then - 22 else if port_abs t nm = None then - 2 else 0)"
    using free by (auto simp: port_unbind_def rm)
  show "port_abs (snd (port_unbind nm t)) =
           (if fst (port_unbind nm t) = 0 then (port_abs t)(nm := None) else port_abs t)"
    using ports.lookup_remove [OF assms, of nm t'] port_remove_fail [OF rm] dr
    by (auto simp: port_unbind_def rm port_abs_def fun_eq_iff)
  show "port_inv (snd (port_unbind nm t))"
    using ports.invar_remove [OF assms, of nm t'] port_remove_fail [OF rm] dr assms
    by (auto simp: port_unbind_def rm)
qed

lemma port_reachable_inv: "port_reachable t \<Longrightarrow> port_inv t"
proof (induction rule: port_reachable.induct)
  case boot
  show ?case by (simp add: port_inv_def port_table_empty_def slot_inv_def)
next
  case (step t t')
  from step.hyps(2) step.IH show ?case
    using port_bind_cases(3) port_unbind_cases(3) by cases (metis snd_conv)+
qed

section \<open>Properties\<close>

text \<open>C10.  The port namespace refines a finite map: on every table that a sequence of calls
  reaches, \<open>bind\<close>, \<open>lookup\<close> and \<open>unbind\<close> return exactly the error number that the map prescribes
  (name too long, already bound, 256 names bound, not bound), \<open>bind\<close> and \<open>unbind\<close> update exactly
  the named entry and only on success, and at most 256 names are bound.\<close>

theorem port_namespace_refines_map:
  assumes "port_reachable t"
  shows "fst (port_bind nm isolate pid t) =
           (if length nm > MAX_PORT_NAME then - 22 else if port_abs t nm \<noteq> None then - 17
            else if card (dom (port_abs t)) \<ge> MAX_PORTS then - 12 else 0) \<and>
         port_abs (snd (port_bind nm isolate pid t)) =
           (if fst (port_bind nm isolate pid t) = 0 then (port_abs t)(nm \<mapsto> (isolate, pid)) else port_abs t) \<and>
         port_lookup nm t =
           (if length nm > MAX_PORT_NAME then (- 22, None)
            else case port_abs t nm of Some v \<Rightarrow> (0, Some v) | None \<Rightarrow> (- 2, None)) \<and>
         fst (port_unbind nm t) =
           (if length nm > MAX_PORT_NAME then - 22 else if port_abs t nm = None then - 2 else 0) \<and>
         port_abs (snd (port_unbind nm t)) =
           (if fst (port_unbind nm t) = 0 then (port_abs t)(nm := None) else port_abs t) \<and>
         card (dom (port_abs t)) \<le> MAX_PORTS"
proof -
  have i: "port_inv t" using assms by (rule port_reachable_inv)
  moreover have "port_lookup nm t =
      (if length nm > MAX_PORT_NAME then (- 22, None)
       else case port_abs t nm of Some v \<Rightarrow> (0, Some v) | None \<Rightarrow> (- 2, None))"
    by (auto simp: port_lookup_def port_abs_def split: option.splits)
  moreover have "card (dom (port_abs t)) \<le> MAX_PORTS"
    using i port_count_dom [OF i] by (simp add: port_inv_def slot_inv_def)
  ultimately show ?thesis
    using port_bind_cases [OF i] port_unbind_cases [OF i] by simp
qed

theorem port_namespace_refines_map_witness:
  "port_reachable (snd (port_bind [7] 3 9 port_table_empty)) \<and>
   port_lookup [7] (snd (port_bind [7] 3 9 port_table_empty)) = (0, Some (3, 9)) \<and>
   fst (port_bind [7] 5 5 (snd (port_bind [7] 3 9 port_table_empty))) = - 17"
proof -
  let ?t = "snd (port_bind [7] 3 9 port_table_empty)"
  have r: "port_reachable ?t"
    by (rule port_reachable.step [OF port_reachable.boot port_step.bind])
      (rule surjective_pairing)
  have a: "port_abs ?t [7] = Some (3, 9)"
    by (simp add: port_bind_def port_find_def port_table_empty_def port_insert_def port_abs_def
          name_bytes_def write_at_def kernel_defs)
  show ?thesis
    using port_namespace_refines_map [OF r, of "[7]" 5 5] r a by (simp add: kernel_defs)
qed

end
