(* ===== verification/Frame_Alloc.thy ===== *)
theory Frame_Alloc
  imports Cortex_Prelude
begin

text \<open>
  The physical frame allocator (\<^verbatim>\<open>kernel/src/mm/frame_allocator.rs\<close>) and the boot memory map that
  initialises it (\<^verbatim>\<open>kernel/src/mm/mod.rs\<close>).  The bitmap is the source's array of 16384 words of
  64 bits, a set bit being a free frame.  The set of free frames is the abstraction: single-frame
  allocation takes the least free frame above the legacy low memory, contiguous allocation takes
  the lowest sufficiently long run and fails only if there is none, and along every sequence of
  calls no frame is handed out twice.
\<close>

section \<open>Boot memory map\<close>

definition FRAME_SIZE :: nat where [kernel_defs]: "FRAME_SIZE = 4096"
definition MAX_FRAMES :: nat where [kernel_defs]: "MAX_FRAMES = 1048576"
definition MIN_ALLOC_PHYS :: nat where [kernel_defs]: "MIN_ALLOC_PHYS = 0x100000"
definition MIN_ALLOC_FRAME :: nat where [kernel_defs]: "MIN_ALLOC_FRAME = MIN_ALLOC_PHYS div FRAME_SIZE"
definition MAX_BOOT_REGIONS :: nat where [kernel_defs]: "MAX_BOOT_REGIONS = 128"

record boot_mem_region =
  br_base :: u64
  br_len :: u64

record boot_mem_map =
  bmm_regions :: "boot_mem_region list"
  bmm_count :: nat

definition boot_map_new :: boot_mem_map where
  "boot_map_new = \<lparr> bmm_regions = replicate MAX_BOOT_REGIONS \<lparr> br_base = 0, br_len = 0 \<rparr>,
                    bmm_count = 0 \<rparr>"

definition boot_map_push :: "u64 \<Rightarrow> u64 \<Rightarrow> boot_mem_map \<Rightarrow> boot_mem_map" where
  "boot_map_push base len m =
     (if len = 0 \<or> bmm_count m \<ge> MAX_BOOT_REGIONS then m
      else m\<lparr> bmm_regions := (bmm_regions m)[bmm_count m := \<lparr> br_base = base, br_len = len \<rparr>],
              bmm_count := bmm_count m + 1 \<rparr>)"

definition boot_map_regions :: "boot_mem_map \<Rightarrow> boot_mem_region list" where
  "boot_map_regions m = take (bmm_count m) (bmm_regions m)"

section \<open>The bitmap\<close>

record frame_bitmap =
  fb_bits :: "u64 list"
  fb_total :: nat
  fb_used :: nat
  fb_hhdm :: u64

definition bitmap_new :: frame_bitmap where
  "bitmap_new = \<lparr> fb_bits = replicate (MAX_FRAMES div 64) 0, fb_total = 0, fb_used = 0, fb_hhdm = 0 \<rparr>"

definition frame_mask :: "nat \<Rightarrow> u64" where
  "frame_mask frame = push_bit (frame mod 64) 1"

definition set_frame :: "nat \<Rightarrow> u64 list \<Rightarrow> u64 list" where
  "set_frame frame bs = bs[frame div 64 := (bs ! (frame div 64)) OR frame_mask frame]"

definition clear_frame :: "nat \<Rightarrow> u64 list \<Rightarrow> u64 list" where
  "clear_frame frame bs = bs[frame div 64 := (bs ! (frame div 64)) AND NOT (frame_mask frame)]"

definition mark_free :: "nat \<Rightarrow> frame_bitmap \<Rightarrow> frame_bitmap" where
  "mark_free frame bm = bm\<lparr> fb_bits := set_frame frame (fb_bits bm), fb_total := fb_total bm + 1 \<rparr>"

definition mark_used :: "nat \<Rightarrow> frame_bitmap \<Rightarrow> frame_bitmap" where
  "mark_used frame bm = bm\<lparr> fb_bits := clear_frame frame (fb_bits bm), fb_used := fb_used bm + 1 \<rparr>"

text \<open>The loop of \<^verbatim>\<open>alloc\<close> over the words of the bitmap, from word \<open>i\<close>.\<close>

function alloc_from :: "nat \<Rightarrow> frame_bitmap \<Rightarrow> u64 option \<times> frame_bitmap" where
  "alloc_from i bm =
     (if i < length (fb_bits bm) then
        let word = fb_bits bm ! i in
        if word \<noteq> 0 then
          let b = trailing_zeros word;
              bm' = bm\<lparr> fb_bits := (fb_bits bm)[i := word AND NOT (push_bit b 1)],
                        fb_used := fb_used bm + 1 \<rparr>;
              frame = i * 64 + b
          in if frame < MIN_ALLOC_FRAME then alloc_from (Suc i) bm'
             else (Some (of_nat frame * of_nat FRAME_SIZE), bm')
        else alloc_from (Suc i) bm
      else (None, bm))"
  by pat_completeness auto
termination
  by (relation "measure (\<lambda>(i, bm). length (fb_bits bm) - i)") auto

declare alloc_from.simps [simp del]

definition frame_alloc :: "frame_bitmap \<Rightarrow> u64 option \<times> frame_bitmap" where
  "frame_alloc bm = alloc_from (MIN_ALLOC_FRAME div 64) bm"

text \<open>The loop of \<^verbatim>\<open>alloc_contiguous\<close> over frame numbers, with the current run.\<close>

function contiguous_from :: "nat \<Rightarrow> nat \<Rightarrow> nat \<Rightarrow> nat \<Rightarrow> frame_bitmap \<Rightarrow> u64 option \<times> frame_bitmap" where
  "contiguous_from count frame run_start run_len bm =
     (if frame < MAX_FRAMES then
        if (fb_bits bm ! (frame div 64)) AND frame_mask frame \<noteq> 0 then
          let run_start' = (if run_len = 0 then frame else run_start); run_len' = run_len + 1 in
          if run_len' = count then
            (Some (of_nat run_start' * of_nat FRAME_SIZE),
             bm\<lparr> fb_bits := fold clear_frame [run_start'..<run_start' + count] (fb_bits bm),
                 fb_used := fb_used bm + count \<rparr>)
          else contiguous_from count (Suc frame) run_start' run_len' bm
        else contiguous_from count (Suc frame) run_start 0 bm
      else (None, bm))"
  by pat_completeness auto
termination
  by (relation "measure (\<lambda>(count, frame, rs, rl, bm). MAX_FRAMES - frame)") auto

declare contiguous_from.simps [simp del]

definition alloc_contiguous :: "nat \<Rightarrow> frame_bitmap \<Rightarrow> u64 option \<times> frame_bitmap" where
  "alloc_contiguous count bm =
     (if count = 0 then (None, bm) else contiguous_from count MIN_ALLOC_FRAME 0 0 bm)"

definition frame_free :: "u64 \<Rightarrow> frame_bitmap \<Rightarrow> frame_bitmap" where
  "frame_free phys bm =
     (let frame = unat (phys div of_nat FRAME_SIZE) in
      if frame < MAX_FRAMES then
        if (fb_bits bm ! (frame div 64)) AND frame_mask frame = 0
        then bm\<lparr> fb_bits := set_frame frame (fb_bits bm), fb_used := fb_used bm - 1 \<rparr>
        else bm
      else bm)"

text \<open>\<^verbatim>\<open>init_from_regions\<close> marks the frames of every region free; \<^verbatim>\<open>reserve_range\<close> takes the free
  frames of a range out of circulation.\<close>

definition init_region :: "boot_mem_region \<Rightarrow> frame_bitmap \<Rightarrow> frame_bitmap" where
  "init_region r bm =
     (let start_frame = unat (br_base r) div FRAME_SIZE;
          end_frame = unat (br_base r + br_len r) div FRAME_SIZE
      in fold mark_free [max start_frame MIN_ALLOC_FRAME..<min end_frame MAX_FRAMES] bm)"

definition init_from_regions :: "boot_mem_map \<Rightarrow> u64 \<Rightarrow> frame_bitmap \<Rightarrow> u64 \<times> frame_bitmap" where
  "init_from_regions m hhdm bm =
     (hhdm, fold init_region (boot_map_regions m) (bm\<lparr> fb_hhdm := hhdm \<rparr>))"

definition reserve_frame :: "nat \<Rightarrow> frame_bitmap \<Rightarrow> frame_bitmap" where
  "reserve_frame frame bm =
     (if (fb_bits bm ! (frame div 64)) AND frame_mask frame \<noteq> 0
      then bm\<lparr> fb_bits := clear_frame frame (fb_bits bm), fb_used := fb_used bm + 1 \<rparr>
      else bm)"

definition reserve_range :: "u64 \<Rightarrow> u64 \<Rightarrow> frame_bitmap \<Rightarrow> frame_bitmap" where
  "reserve_range base len bm =
     (if len = 0 then bm
      else let start_frame = unat (base div of_nat FRAME_SIZE);
               end_frame = min (unat ((base + len + of_nat FRAME_SIZE - 1) div of_nat FRAME_SIZE)) MAX_FRAMES
           in fold reserve_frame [start_frame..<end_frame] bm)"

section \<open>The set of free frames\<close>

definition free_bits :: "u64 list \<Rightarrow> nat set" where
  "free_bits bs = {f. f < MAX_FRAMES \<and> bit (bs ! (f div 64)) (f mod 64)}"

definition free_frames :: "frame_bitmap \<Rightarrow> nat set" where
  "free_frames bm = free_bits (fb_bits bm)"

definition bitmap_wf :: "frame_bitmap \<Rightarrow> bool" where
  "bitmap_wf bm \<longleftrightarrow> length (fb_bits bm) = MAX_FRAMES div 64"

definition region_frames :: "boot_mem_region \<Rightarrow> nat set" where
  "region_frames r = {max (unat (br_base r) div FRAME_SIZE) MIN_ALLOC_FRAME
                       ..< min (unat (br_base r + br_len r) div FRAME_SIZE) MAX_FRAMES}"

definition free_run :: "frame_bitmap \<Rightarrow> nat \<Rightarrow> nat \<Rightarrow> bool" where
  "free_run bm count s \<longleftrightarrow>
     MIN_ALLOC_FRAME \<le> s \<and> s + count \<le> MAX_FRAMES \<and> {s..<s + count} \<subseteq> free_frames bm"

text \<open>Sequences of calls after boot, with the set of frames that callers hold.\<close>

inductive frame_trace :: "nat set \<Rightarrow> frame_bitmap \<Rightarrow> nat set \<Rightarrow> bool" for F where
  boot: "F = free_frames bm \<Longrightarrow> snd (init_from_regions m hhdm bitmap_new) = bm \<Longrightarrow> frame_trace F bm {}"
| alloc: "frame_trace F bm own \<Longrightarrow> frame_alloc bm = (Some phys, bm') \<Longrightarrow>
     frame_trace F bm' (insert (unat (phys div of_nat FRAME_SIZE)) own)"
| alloc_none: "frame_trace F bm own \<Longrightarrow> frame_alloc bm = (None, bm') \<Longrightarrow> frame_trace F bm' own"
| contiguous: "frame_trace F bm own \<Longrightarrow> alloc_contiguous count bm = (Some phys, bm') \<Longrightarrow>
     s = unat (phys div of_nat FRAME_SIZE) \<Longrightarrow> frame_trace F bm' (own \<union> {s..<s + count})"
| contiguous_none: "frame_trace F bm own \<Longrightarrow> alloc_contiguous count bm = (None, bm') \<Longrightarrow>
     frame_trace F bm' own"
| free: "frame_trace F bm own \<Longrightarrow> unat (phys div of_nat FRAME_SIZE) \<in> own \<Longrightarrow>
     frame_trace F (frame_free phys bm) (own - {unat (phys div of_nat FRAME_SIZE)})"

lemma test_frame:
  "(w AND frame_mask f \<noteq> 0) \<longleftrightarrow> bit w (f mod 64)" "(w AND frame_mask f = 0) \<longleftrightarrow> \<not> bit w (f mod 64)"
  by (simp_all add: frame_mask_def bit_iff_and_push_bit_not_eq_0)

lemma same_frame: "g div 64 = f div (64 :: nat) \<Longrightarrow> g mod 64 = f mod 64 \<Longrightarrow> g = f"
  by (metis div_mult_mod_eq)

lemma div64_less: "f < MAX_FRAMES \<Longrightarrow> f div 64 < MAX_FRAMES div 64"
  by (simp add: kernel_defs)

lemma free_bits_set_frame:
  assumes "length bs = MAX_FRAMES div 64" "f < MAX_FRAMES"
  shows "free_bits (set_frame f bs) = insert f (free_bits bs)"
  using assms div64_less [of f]
  by (auto simp: free_bits_def set_frame_def frame_mask_def nth_list_update bit_simps
        dest: same_frame split: if_splits)

lemma free_bits_clear_frame:
  assumes "length bs = MAX_FRAMES div 64" "f < MAX_FRAMES"
  shows "free_bits (clear_frame f bs) = free_bits bs - {f}"
  using assms div64_less [of f]
  by (auto simp: free_bits_def clear_frame_def frame_mask_def nth_list_update bit_simps
        dest: same_frame split: if_splits)

lemma length_set_clear [simp]:
  "length (set_frame f bs) = length bs" "length (clear_frame f bs) = length bs"
  by (simp_all add: set_frame_def clear_frame_def)

lemma length_fold_clear [simp]: "length (fold clear_frame fs bs) = length bs"
  by (induction fs arbitrary: bs) auto

lemma free_bits_fold_clear:
  assumes "length bs = MAX_FRAMES div 64" "\<forall>f \<in> set fs. f < MAX_FRAMES"
  shows "free_bits (fold clear_frame fs bs) = free_bits bs - set fs"
  using assms by (induction fs arbitrary: bs) (auto simp: free_bits_clear_frame)

lemma free_bits_new: "free_bits (replicate (MAX_FRAMES div 64) 0) = {}"
  using div64_less by (auto simp: free_bits_def)

section \<open>Initialisation\<close>

lemma mark_free_fold:
  assumes "bitmap_wf bm" "\<forall>f \<in> set fs. f < MAX_FRAMES"
  shows "bitmap_wf (fold mark_free fs bm) \<and> fb_used (fold mark_free fs bm) = fb_used bm \<and>
         free_frames (fold mark_free fs bm) = free_frames bm \<union> set fs"
  using assms
proof (induction fs arbitrary: bm)
  case (Cons f fs)
  then have "bitmap_wf (mark_free f bm)" "free_frames (mark_free f bm) = insert f (free_frames bm)"
    by (simp_all add: mark_free_def bitmap_wf_def free_frames_def free_bits_set_frame)
  with Cons show ?case by (auto simp: mark_free_def)
qed simp

lemma init_region_fold:
  assumes "bitmap_wf bm"
  shows "bitmap_wf (fold init_region rs bm) \<and> fb_used (fold init_region rs bm) = fb_used bm \<and>
         free_frames (fold init_region rs bm) = free_frames bm \<union> (\<Union>r \<in> set rs. region_frames r)"
  using assms
proof (induction rs arbitrary: bm)
  case (Cons r rs)
  have "bitmap_wf (init_region r bm)" "fb_used (init_region r bm) = fb_used bm"
    "free_frames (init_region r bm) = free_frames bm \<union> region_frames r"
    using mark_free_fold [OF Cons.prems, of "[max (unat (br_base r) div FRAME_SIZE) MIN_ALLOC_FRAME
      ..< min (unat (br_base r + br_len r) div FRAME_SIZE) MAX_FRAMES]"]
    by (simp_all add: init_region_def Let_def region_frames_def)
  with Cons.IH [of "init_region r bm"] show ?case by auto
qed simp

lemma init_from_regions_free:
  "bitmap_wf (snd (init_from_regions m hhdm bitmap_new))"
  "fb_used (snd (init_from_regions m hhdm bitmap_new)) = 0"
  "free_frames (snd (init_from_regions m hhdm bitmap_new)) =
     (\<Union>r \<in> set (boot_map_regions m). region_frames r)"
  using init_region_fold [of "bitmap_new\<lparr>fb_hhdm := hhdm\<rparr>" "boot_map_regions m"]
  by (simp_all add: init_from_regions_def bitmap_wf_def bitmap_new_def free_frames_def free_bits_new)

section \<open>Allocation\<close>

lemma alloc_word_clear:
  assumes "b < 64"
  shows "bs[i := (bs ! i) AND NOT (push_bit b 1)] = clear_frame (i * 64 + b) bs"
  using assms by (simp add: clear_frame_def frame_mask_def)

lemma free_bits_word: "b < 64 \<Longrightarrow> i * 64 + b \<in> free_bits bs \<longleftrightarrow> i * 64 + b < MAX_FRAMES \<and> bit (bs ! i) b"
  by (simp add: free_bits_def)

lemma alloc_from_spec:
  assumes "bitmap_wf bm" "MIN_ALLOC_FRAME \<le> i * 64"
  shows "alloc_from i bm =
    (if \<exists>f \<in> free_frames bm. i * 64 \<le> f
     then let f = Min {f \<in> free_frames bm. i * 64 \<le> f} in
       (Some (of_nat f * of_nat FRAME_SIZE),
        bm\<lparr> fb_bits := clear_frame f (fb_bits bm), fb_used := fb_used bm + 1 \<rparr>)
     else (None, bm))"
  using assms
proof (induction i bm rule: alloc_from.induct)
  case (1 i bm)
  let ?w = "fb_bits bm ! i"
  have len: "length (fb_bits bm) = MAX_FRAMES div 64" using 1 by (simp add: bitmap_wf_def)
  consider (beyond) "\<not> i < length (fb_bits bm)" | (zero) "i < length (fb_bits bm)" "?w = 0"
    | (hit) "i < length (fb_bits bm)" "?w \<noteq> 0" by blast
  then show ?case
  proof cases
    case beyond
    then have "\<not> (\<exists>f \<in> free_frames bm. i * 64 \<le> f)"
      using len by (auto simp: free_frames_def free_bits_def kernel_defs)
    with beyond show ?thesis by (simp add: alloc_from.simps)
  next
    case zero
    have same: "{f \<in> free_frames bm. i * 64 \<le> f} = {f \<in> free_frames bm. Suc i * 64 \<le> f}"
    proof -
      have "f div 64 \<noteq> i" if "f \<in> free_frames bm" for f
        using that zero by (auto simp: free_frames_def free_bits_def)
      moreover have "Suc i * 64 \<le> f" if "i * 64 \<le> f" "f div 64 \<noteq> i" for f
        using that less_eq_div_iff_mult_less_eq [of 64 i f] less_eq_div_iff_mult_less_eq [of 64 "Suc i" f]
        by simp
      ultimately show ?thesis by auto
    qed
    then have "(\<exists>f \<in> free_frames bm. i * 64 \<le> f) \<longleftrightarrow> (\<exists>f \<in> free_frames bm. Suc i * 64 \<le> f)"
      by blast
    moreover have "alloc_from i bm = alloc_from (Suc i) bm"
      using zero by (simp add: alloc_from.simps [of i bm])
    moreover note "1.IH"(2) [OF zero(1) refl _ "1.prems"(1)]
    ultimately show ?thesis using zero(2) "1.prems"(2) by (simp only: same) simp
  next
    case hit
    let ?b = "trailing_zeros ?w" and ?f = "i * 64 + trailing_zeros ?w"
    have b: "?b < 64" "bit ?w ?b" using trailing_zeros_bit [OF hit(2)] by auto
    have "?f < MAX_FRAMES" using hit(1) len b(1) by (simp add: kernel_defs)
    then have mem: "?f \<in> {f \<in> free_frames bm. i * 64 \<le> f}"
      using b by (simp add: free_frames_def free_bits_word)
    have least: "?f \<le> f" if "f \<in> {f \<in> free_frames bm. i * 64 \<le> f}" for f
    proof (rule ccontr)
      assume "\<not> ?f \<le> f"
      then have "f - i * 64 < ?b" "f = i * 64 + (f - i * 64)" using that by auto
      then show False
        using that b trailing_zeros_bit(3) [OF hit(2), of "f - i * 64"]
          free_bits_word [of "f - i * 64" i "fb_bits bm"] by (simp add: free_frames_def)
    qed
    have "Min {f \<in> free_frames bm. i * 64 \<le> f} = ?f"
      using mem least by (intro Min_eqI) (auto simp: free_frames_def free_bits_def)
    moreover have "\<exists>f \<in> free_frames bm. i * 64 \<le> f" using mem by blast
    ultimately show ?thesis
      using hit "1.prems"(2) 
      by (simp add: alloc_from.simps [of i bm] Let_def alloc_word_clear [OF b(1)] del: push_bit_of_1)
  qed
qed

lemma min_alloc_frame_aligned: "MIN_ALLOC_FRAME div 64 * 64 = MIN_ALLOC_FRAME"
  by (simp add: kernel_defs)

lemma frame_phys: "f < MAX_FRAMES \<Longrightarrow> unat ((of_nat f * of_nat FRAME_SIZE :: u64) div of_nat FRAME_SIZE) = f"
  by (simp add: unat_div unat_word_ariths unat_of_nat kernel_defs)

lemma unat_frame_phys: "f < MAX_FRAMES \<Longrightarrow> unat (of_nat f * of_nat FRAME_SIZE :: u64) = f * FRAME_SIZE"
  by (simp add: unat_word_ariths unat_of_nat kernel_defs)

definition run_state :: "nat set \<Rightarrow> nat \<Rightarrow> nat \<Rightarrow> nat \<Rightarrow> nat \<Rightarrow> bool" where
  "run_state F count frame run_start run_len \<longleftrightarrow>
     run_len < count \<and> MIN_ALLOC_FRAME + run_len \<le> frame \<and>
     (run_len > 0 \<longrightarrow> run_start + run_len = frame) \<and>
     {frame - run_len..<frame} \<subseteq> F \<and>
     (frame - run_len = MIN_ALLOC_FRAME \<or> frame - run_len - 1 \<notin> F) \<and>
     (\<forall>s. MIN_ALLOC_FRAME \<le> s \<and> s + count \<le> frame \<longrightarrow> \<not> {s..<s + count} \<subseteq> F)"

lemma run_state_skip:
  assumes "run_state F count frame rs rl" "frame \<notin> F"
  shows "run_state F count (Suc frame) rs 0"
proof -
  have "\<not> {s..<s + count} \<subseteq> F" if "MIN_ALLOC_FRAME \<le> s" "s + count \<le> Suc frame" for s
  proof (cases "s + count \<le> frame")
    case False
    with that assms(1) have "frame \<in> {s..<s + count}" by (auto simp: run_state_def)
    with assms(2) show ?thesis by blast
  qed (use assms(1) that in \<open>auto simp: run_state_def\<close>)
  with assms show ?thesis by (auto simp: run_state_def)
qed

lemma run_state_last:
  assumes "run_state F count frame rs rl" "MIN_ALLOC_FRAME \<le> s" "s + count \<le> Suc frame"
    "{s..<s + count} \<subseteq> F"
  shows "s + count = Suc frame \<and> frame - rl \<le> s"
proof -
  have e: "s + count = Suc frame"
    using assms by (auto simp: run_state_def le_Suc_eq)
  moreover have "frame - rl \<le> s"
  proof (rule ccontr)
    assume "\<not> frame - rl \<le> s"
    then have "frame - rl - 1 \<in> {s..<s + count}" using e by auto
    moreover have "frame - rl \<noteq> MIN_ALLOC_FRAME" using \<open>\<not> frame - rl \<le> s\<close> assms(2) by simp
    ultimately show False using assms(1,4) by (auto simp: run_state_def)
  qed
  ultimately show ?thesis ..
qed

lemma run_state_extend:
  assumes "run_state F count frame rs rl" "frame \<in> F" "rl + 1 \<noteq> count"
  shows "run_state F count (Suc frame) (if rl = 0 then frame else rs) (rl + 1)"
proof -
  have "\<not> {s..<s + count} \<subseteq> F" if "MIN_ALLOC_FRAME \<le> s" "s + count \<le> Suc frame" for s
    using run_state_last [OF assms(1) that] assms(1,3) by (auto simp: run_state_def)
  with assms show ?thesis by (auto simp: run_state_def atLeastLessThanSuc)
qed

lemma contiguous_from_spec:
  assumes "bitmap_wf bm" "run_state (free_frames bm) count frame rs rl"
  shows "case contiguous_from count frame rs rl bm of
      (None, bm') \<Rightarrow> bm' = bm \<and> \<not> (\<exists>s. free_run bm count s)
    | (Some phys, bm') \<Rightarrow> \<exists>s. phys = of_nat s * of_nat FRAME_SIZE \<and> free_run bm count s \<and>
        (\<forall>s'. free_run bm count s' \<longrightarrow> s \<le> s') \<and>
        bm' = bm\<lparr> fb_bits := fold clear_frame [s..<s + count] (fb_bits bm), fb_used := fb_used bm + count \<rparr>"
  using assms
proof (induction count frame rs rl bm rule: contiguous_from.induct)
  case (1 count frame rs rl bm)
  let ?F = "free_frames bm"
  consider (exhausted) "\<not> frame < MAX_FRAMES" | (used) "frame < MAX_FRAMES" "frame \<notin> ?F"
    | (found) "frame < MAX_FRAMES" "frame \<in> ?F" "rl + 1 = count"
    | (more) "frame < MAX_FRAMES" "frame \<in> ?F" "rl + 1 \<noteq> count" by blast
  then show ?case
  proof cases
    case exhausted
    then have "\<not> (\<exists>s. free_run bm count s)"
      using "1.prems"(2) by (auto simp: free_run_def run_state_def)
    with exhausted show ?thesis by (simp add: contiguous_from.simps)
  next
    case used
    moreover have "contiguous_from count frame rs rl bm = contiguous_from count (Suc frame) rs 0 bm"
      using used by (simp add: contiguous_from.simps [of count frame] test_frame free_frames_def free_bits_def)
    ultimately show ?thesis
      using "1.IH"(2) [OF used(1) _ "1.prems"(1) run_state_skip [OF "1.prems"(2) used(2)]]
      by (simp add: test_frame free_frames_def free_bits_def)
  next
    case more
    moreover have "contiguous_from count frame rs rl bm =
        contiguous_from count (Suc frame) (if rl = 0 then frame else rs) (rl + 1) bm"
      using more by (simp add: contiguous_from.simps [of count frame] test_frame free_frames_def free_bits_def)
    ultimately show ?thesis
      using "1.IH"(1) [OF more(1) _ refl refl more(3) "1.prems"(1) run_state_extend [OF "1.prems"(2) more(2,3)]]
      by (simp add: test_frame free_frames_def free_bits_def)
  next
    case found
    let ?s = "if rl = 0 then frame else rs"
    have s: "?s + count = Suc frame" "?s = frame - rl"
      using "1.prems"(2) found(3) by (auto simp: run_state_def)
    have "{?s..<?s + count} = insert frame {frame - rl..<frame}"
      using s by auto
    then have run: "free_run bm count ?s"
      using "1.prems"(2) found s by (simp add: free_run_def run_state_def) linarith
    have least: "?s \<le> s'" if "free_run bm count s'" for s'
    proof (cases "s' + count \<le> Suc frame")
      case True
      then show ?thesis
        using run_state_last [OF "1.prems"(2) _ True] that s by (simp add: free_run_def)
    qed (use s in auto)
    show ?thesis
      using found run least
      by (auto simp: contiguous_from.simps [of count frame] test_frame free_frames_def free_bits_def Let_def)
  qed
qed

lemma frame_alloc_spec:
  assumes "bitmap_wf bm" "frame_alloc bm = (r, bm')"
  shows "case r of
      None \<Rightarrow> bm' = bm \<and> (\<forall>f \<in> free_frames bm. f < MIN_ALLOC_FRAME)
    | Some phys \<Rightarrow> \<exists>f. phys = of_nat f * of_nat FRAME_SIZE \<and> f \<in> free_frames bm \<and> MIN_ALLOC_FRAME \<le> f \<and>
        (\<forall>g \<in> free_frames bm. MIN_ALLOC_FRAME \<le> g \<longrightarrow> f \<le> g) \<and>
        bm' = bm\<lparr> fb_bits := clear_frame f (fb_bits bm), fb_used := fb_used bm + 1 \<rparr>"
proof -
  let ?S = "{f \<in> free_frames bm. MIN_ALLOC_FRAME \<le> f}"
  have fin: "finite ?S" by (simp add: free_frames_def free_bits_def)
  note sp = alloc_from_spec [OF assms(1), of "MIN_ALLOC_FRAME div 64", unfolded min_alloc_frame_aligned,
      folded frame_alloc_def]
  show ?thesis
  proof (cases "?S = {}")
    case True
    with sp assms(2) show ?thesis by (auto split: if_splits)
  next
    case False
    have "Min ?S \<in> ?S" "\<forall>g \<in> ?S. Min ?S \<le> g" using Min_in [OF fin False] fin by auto
    moreover have "\<exists>f \<in> free_frames bm. MIN_ALLOC_FRAME \<le> f" using False by blast
    then have "r = Some (of_nat (Min ?S) * of_nat FRAME_SIZE)"
      "bm' = bm\<lparr> fb_bits := clear_frame (Min ?S) (fb_bits bm), fb_used := fb_used bm + 1 \<rparr>"
      using sp assms(2) by (simp_all add: Let_def)
    ultimately show ?thesis by auto
  qed
qed

lemma alloc_contiguous_spec:
  assumes "bitmap_wf bm" "count > 0" "alloc_contiguous count bm = (r, bm')"
  shows "case r of
      None \<Rightarrow> bm' = bm \<and> \<not> (\<exists>s. free_run bm count s)
    | Some phys \<Rightarrow> \<exists>s. phys = of_nat s * of_nat FRAME_SIZE \<and> free_run bm count s \<and>
        (\<forall>s'. free_run bm count s' \<longrightarrow> s \<le> s') \<and>
        bm' = bm\<lparr> fb_bits := fold clear_frame [s..<s + count] (fb_bits bm), fb_used := fb_used bm + count \<rparr>"
proof -
  have "run_state (free_frames bm) count MIN_ALLOC_FRAME 0 0"
    using assms(2) by (auto simp: run_state_def)
  from contiguous_from_spec [OF assms(1) this] assms(2,3) show ?thesis
    by (auto simp: alloc_contiguous_def split: option.splits prod.splits)
qed

lemma frame_alloc_effect:
  assumes "bitmap_wf bm" "frame_alloc bm = (Some phys, bm')" "f = unat (phys div of_nat FRAME_SIZE)"
  shows "bitmap_wf bm' \<and> f \<in> free_frames bm \<and> free_frames bm' = free_frames bm - {f} \<and>
         fb_used bm' = fb_used bm + 1"
proof -
  from frame_alloc_spec [OF assms(1,2)] obtain g where
    g: "phys = of_nat g * of_nat FRAME_SIZE" "g \<in> free_frames bm"
      "bm' = bm\<lparr> fb_bits := clear_frame g (fb_bits bm), fb_used := fb_used bm + 1 \<rparr>" by auto
  then have "g < MAX_FRAMES" by (simp add: free_frames_def free_bits_def)
  with g assms(1,3) have "f = g" by (simp only: frame_phys)
  with g assms(1) \<open>g < MAX_FRAMES\<close> show ?thesis
    by (simp add: bitmap_wf_def free_frames_def free_bits_clear_frame)
qed

lemma alloc_contiguous_effect:
  assumes "bitmap_wf bm" "alloc_contiguous count bm = (Some phys, bm')" "s = unat (phys div of_nat FRAME_SIZE)"
  shows "bitmap_wf bm' \<and> {s..<s + count} \<subseteq> free_frames bm \<and>
         free_frames bm' = free_frames bm - {s..<s + count} \<and> fb_used bm' = fb_used bm + count"
proof -
  have c: "count > 0" using assms(2) by (auto simp: alloc_contiguous_def intro: ccontr)
  from alloc_contiguous_spec [OF assms(1) c assms(2)] obtain g where
    g: "phys = of_nat g * of_nat FRAME_SIZE" "free_run bm count g"
      "bm' = bm\<lparr> fb_bits := fold clear_frame [g..<g + count] (fb_bits bm), fb_used := fb_used bm + count \<rparr>"
    by auto
  then have "g + count \<le> MAX_FRAMES" by (simp add: free_run_def)
  then have "s = g" using g(1) assms(3) c frame_phys [of g] by simp
  with g assms(1) \<open>g + count \<le> MAX_FRAMES\<close> show ?thesis
    by (simp add: bitmap_wf_def free_frames_def free_run_def free_bits_fold_clear)
qed

lemma frame_free_effect:
  assumes "bitmap_wf bm" "f = unat (phys div of_nat FRAME_SIZE)" "f < MAX_FRAMES"
  shows "bitmap_wf (frame_free phys bm) \<and> free_frames (frame_free phys bm) = insert f (free_frames bm) \<and>
         fb_used (frame_free phys bm) = (if f \<in> free_frames bm then fb_used bm else fb_used bm - 1)"
proof -
  have "f \<in> free_frames bm \<longleftrightarrow> bit (fb_bits bm ! (f div 64)) (f mod 64)"
    using assms(3) by (simp add: free_frames_def free_bits_def)
  then show ?thesis
    using assms(1,3) unfolding frame_free_def assms(2) [symmetric]
    by (auto simp: Let_def test_frame bitmap_wf_def free_frames_def free_bits_set_frame insert_absorb)
qed

definition trace_inv :: "nat set \<Rightarrow> frame_bitmap \<Rightarrow> nat set \<Rightarrow> bool" where
  "trace_inv F bm own \<longleftrightarrow> bitmap_wf bm \<and> finite own \<and> own \<inter> free_frames bm = {} \<and>
     own \<union> free_frames bm = F \<and> fb_used bm = card own"

lemma finite_free_frames [simp]: "finite (free_frames bm)"
  by (simp add: free_frames_def free_bits_def)

lemma frame_trace_inv: "frame_trace F bm own \<Longrightarrow> trace_inv F bm own"
proof (induction rule: frame_trace.induct)
  case (boot bm m hhdm)
  then show ?case using init_from_regions_free [of m hhdm] by (auto simp: trace_inv_def)
next
  case (alloc bm own phys bm')
  from alloc.IH have wf: "bitmap_wf bm" by (simp add: trace_inv_def)
  let ?f = "unat (phys div of_nat FRAME_SIZE)"
  note e = frame_alloc_effect [OF wf alloc.hyps(2) refl]
  then have "?f \<notin> own" using alloc.IH by (auto simp: trace_inv_def)
  with e alloc.IH show ?case by (auto simp: trace_inv_def)
next
  case (alloc_none bm own bm')
  then show ?case using frame_alloc_spec [of bm None bm'] by (auto simp: trace_inv_def)
next
  case (contiguous bm own count phys bm' s)
  from contiguous.IH have wf: "bitmap_wf bm" by (simp add: trace_inv_def)
  from alloc_contiguous_effect [OF wf contiguous.hyps(2,3)]
  have e: "bitmap_wf bm'" "{s..<s + count} \<subseteq> free_frames bm"
    "free_frames bm' = free_frames bm - {s..<s + count}" "fb_used bm' = fb_used bm + count" by auto
  with contiguous.IH have "card (own \<union> {s..<s + count}) = card own + count"
    by (subst card_Un_disjoint) (auto simp: trace_inv_def)
  with e contiguous.IH show ?case by (auto simp: trace_inv_def)
next
  case (contiguous_none bm own count bm')
  then show ?case
    using alloc_contiguous_spec [of bm count None bm']
    by (cases "count = 0") (auto simp: trace_inv_def alloc_contiguous_def)
next
  case (free bm own phys)
  let ?f = "unat (phys div of_nat FRAME_SIZE)"
  have "F \<subseteq> {..<MAX_FRAMES}"
    using free.hyps(1) by (induction rule: frame_trace.induct) (auto simp: free_frames_def free_bits_def)
  with free have f: "?f < MAX_FRAMES" "?f \<notin> free_frames bm" by (auto simp: trace_inv_def)
  have wf: "bitmap_wf bm" using free.IH by (simp add: trace_inv_def)
  from frame_free_effect [OF wf refl f(1)] free f show ?case
    by (auto simp: trace_inv_def)
qed

section \<open>Properties\<close>

text \<open>C2.  Along every sequence of \<open>alloc_frame\<close>, \<open>alloc_contiguous_frames\<close> and \<open>free_frame\<close> calls after
  boot in which callers free only frames they hold, no frame is handed out twice: the frames held by
  callers and the free frames partition the frames the boot memory map declared usable, a new frame is
  one that nobody holds, and the \<open>used\<close> counter is the number of frames held.\<close>

theorem frames_never_allocated_twice:
  assumes "frame_trace F bm own"
  shows "own \<inter> free_frames bm = {} \<and> own \<union> free_frames bm = F \<and> fb_used bm = card own \<and>
    (\<forall>phys bm'. frame_alloc bm = (Some phys, bm') \<longrightarrow> unat (phys div of_nat FRAME_SIZE) \<in> F - own) \<and>
    (\<forall>count phys bm'. alloc_contiguous count bm = (Some phys, bm') \<longrightarrow>
       {unat (phys div of_nat FRAME_SIZE)..<unat (phys div of_nat FRAME_SIZE) + count} \<subseteq> F - own)"
proof -
  have i: "trace_inv F bm own" using assms by (rule frame_trace_inv)
  then have wf: "bitmap_wf bm" by (simp add: trace_inv_def)
  have "unat (phys div of_nat FRAME_SIZE) \<in> F - own" if "frame_alloc bm = (Some phys, bm')" for phys bm'
    using frame_alloc_effect [OF wf that refl] i by (auto simp: trace_inv_def)
  moreover have "{unat (phys div of_nat FRAME_SIZE)..<unat (phys div of_nat FRAME_SIZE) + count} \<subseteq> F - own"
    if "alloc_contiguous count bm = (Some phys, bm')" for count phys bm'
    using alloc_contiguous_effect [OF wf that refl] i by (auto simp: trace_inv_def)
  ultimately show ?thesis using i by (simp add: trace_inv_def)
qed

text \<open>C20.  Contiguous allocation is complete and takes the lowest run: for a positive count it returns
  the lowest frame number above the legacy memory at which \<open>count\<close> frames in a row are free, removes
  exactly these frames from the free set and adds them to \<open>used\<close>; it fails, changing nothing, only
  when there is no such run.\<close>

theorem alloc_contiguous_lowest_run:
  assumes "bitmap_wf bm" "count > 0" "alloc_contiguous count bm = (r, bm')"
  shows "case r of
      None \<Rightarrow> bm' = bm \<and> \<not> (\<exists>s. free_run bm count s)
    | Some phys \<Rightarrow> \<exists>s. unat phys = s * FRAME_SIZE \<and> free_run bm count s \<and>
        (\<forall>s'. free_run bm count s' \<longrightarrow> s \<le> s') \<and>
        free_frames bm' = free_frames bm - {s..<s + count} \<and> fb_used bm' = fb_used bm + count"
proof (cases r)
  case None
  with alloc_contiguous_spec [OF assms] show ?thesis by simp
next
  case (Some phys)
  from alloc_contiguous_spec [OF assms] Some obtain s where
    s: "phys = of_nat s * of_nat FRAME_SIZE" "free_run bm count s"
      "\<forall>s'. free_run bm count s' \<longrightarrow> s \<le> s'" by auto
  then have "s < MAX_FRAMES" using assms(2) by (simp add: free_run_def)
  then have p: "unat phys = s * FRAME_SIZE" "s = unat (phys div of_nat FRAME_SIZE)"
    unfolding s(1) by (rule unat_frame_phys, rule frame_phys [symmetric])
  have "alloc_contiguous count bm = (Some phys, bm')" using assms(3) Some by simp
  note e = alloc_contiguous_effect [OF assms(1) this p(2)]
  show ?thesis
    unfolding Some option.case using p(1) s(2,3) e by (intro exI [of _ s]) blast
qed

theorem alloc_contiguous_lowest_run_witness:
  "let bm = bitmap_new\<lparr> fb_bits := (fb_bits bitmap_new)[4 := 0b11101] \<rparr> in
   fst (alloc_contiguous 2 bm) = Some (258 * 4096) \<and> bitmap_wf bm \<and>
   (\<exists>s. unat (258 * 4096 :: u64) = s * FRAME_SIZE \<and> free_run bm 2 s \<and>
     (\<forall>s'. free_run bm 2 s' \<longrightarrow> s \<le> s'))"
proof -
  define bm where "bm = bitmap_new\<lparr> fb_bits := (fb_bits bitmap_new)[4 := 0b11101] \<rparr>"
  have wf: "bitmap_wf bm"
    by (simp add: bm_def bitmap_wf_def bitmap_new_def)
  have r: "fst (alloc_contiguous 2 bm) = Some (258 * 4096)"
    by (simp add: bm_def alloc_contiguous_def contiguous_from.simps kernel_defs bitmap_new_def
          frame_mask_def)
  then obtain bm' where "alloc_contiguous 2 bm = (Some (258 * 4096), bm')"
    by (metis fst_conv surj_pair)
  from alloc_contiguous_lowest_run [OF wf _ this] wf r show ?thesis
    unfolding bm_def [symmetric] by auto
qed

definition witness_map :: boot_mem_map where
  "witness_map = boot_map_push 0x100000 0x2000 boot_map_new"

lemma witness_map_alloc:
  "fst (frame_alloc (snd (init_from_regions witness_map 0 bitmap_new))) = Some 0x100000"
proof -
  have "take (Suc 0) (xs[0 := a]) = [a]" if "xs \<noteq> []" for xs :: "boot_mem_region list" and a
    using that by (cases xs) auto
  then have "boot_map_regions witness_map = [\<lparr> br_base = 0x100000, br_len = 0x2000 \<rparr>]"
    by (simp add: witness_map_def boot_map_push_def boot_map_new_def boot_map_regions_def kernel_defs)
  moreover have "[256..<258] = [256, 257 :: nat]" by (simp add: upt_rec)
  ultimately show ?thesis
    by (simp add: init_from_regions_def init_region_def kernel_defs mark_free_def set_frame_def
          bitmap_new_def frame_mask_def frame_alloc_def alloc_from.simps trailing_zeros_def upt_rec)
qed

theorem frames_never_allocated_twice_witness:
  "\<exists>bm own. frame_trace (free_frames (snd (init_from_regions witness_map 0 bitmap_new))) bm own \<and>
     own = {256} \<and> own \<inter> free_frames bm = {} \<and> fb_used bm = 1"
proof -
  let ?b = "snd (init_from_regions witness_map 0 bitmap_new)"
  obtain bm' where a: "frame_alloc ?b = (Some 0x100000, bm')"
    using witness_map_alloc by (metis fst_conv surj_pair)
  have "frame_trace (free_frames ?b) bm' (insert (unat ((0x100000 :: u64) div of_nat FRAME_SIZE)) {})"
    by (rule frame_trace.alloc [OF frame_trace.boot [OF refl refl] a])
  then have t: "frame_trace (free_frames ?b) bm' {256}" by (simp add: kernel_defs)
  from frames_never_allocated_twice [OF t] t show ?thesis by auto
qed

end
