(* ===== verification/Ring_Queues.thy ===== *)
theory Ring_Queues
  imports Cortex_Prelude
begin

text \<open>
  The interface of the kernel's bounded first-in first-out queues and the arithmetic of the ring
  buffers that implement them.  The locale \<open>bounded_fifo\<close> is the contract that the inter-process
  inboxes, the pseudo-terminal buffers and the Cortex mailbox share: a push
  appends or, on a full queue, changes nothing and reports failure; a pop removes the oldest element.
  The lemmas inside the locale are about whole sequences of operations and about the two loops the
  clients run, writing until the queue is full and reading until the buffer is full.
\<close>

section \<open>The loops of the clients\<close>

text \<open>\<^verbatim>\<open>for x in data { if q.push(x) { n += 1 } else { break } }\<close>\<close>

primrec push_while :: "('a \<Rightarrow> 'q \<Rightarrow> bool \<times> 'q) \<Rightarrow> 'a list \<Rightarrow> 'q \<Rightarrow> nat \<times> 'q" where
  "push_while push [] q = (0, q)"
| "push_while push (x # xs) q =
     (case push x q of
        (True, q') \<Rightarrow> (case push_while push xs q' of (n, q'') \<Rightarrow> (Suc n, q''))
      | (False, q') \<Rightarrow> (0, q'))"

text \<open>\<^verbatim>\<open>while n < len { match q.pop() { Some(x) => out.push(x), None => break } }\<close>\<close>

primrec pop_upto :: "('q \<Rightarrow> 'a option \<times> 'q) \<Rightarrow> nat \<Rightarrow> 'q \<Rightarrow> 'a list \<times> 'q" where
  "pop_upto pop 0 q = ([], q)"
| "pop_upto pop (Suc n) q =
     (case pop q of
        (Some x, q') \<Rightarrow> (case pop_upto pop n q' of (xs, q'') \<Rightarrow> (x # xs, q''))
      | (None, q') \<Rightarrow> ([], q'))"

text \<open>An arbitrary interleaving of pushes and pops; the result lists the accepted pushes, the popped
  values and the final queue.\<close>

datatype 'a fifo_op = Push 'a | Pop

primrec fifo_run :: "('a \<Rightarrow> 'q \<Rightarrow> bool \<times> 'q) \<Rightarrow> ('q \<Rightarrow> 'a option \<times> 'q) \<Rightarrow> 'a fifo_op list \<Rightarrow> 'q \<Rightarrow>
    'a list \<times> 'a list \<times> 'q" where
  "fifo_run push pop [] q = ([], [], q)"
| "fifo_run push pop (o1 # os) q =
     (case o1 of
        Push x \<Rightarrow> (case push x q of (ok, q') \<Rightarrow>
          (case fifo_run push pop os q' of (ins, outs, q'') \<Rightarrow> (if ok then x # ins else ins, outs, q'')))
      | Pop \<Rightarrow> (case pop q of (r, q') \<Rightarrow>
          (case fifo_run push pop os q' of (ins, outs, q'') \<Rightarrow>
            (ins, (case r of None \<Rightarrow> outs | Some x \<Rightarrow> x # outs), q''))))"

section \<open>The interface\<close>

locale bounded_fifo =
  fixes invar :: "'q \<Rightarrow> bool"
    and contents :: "'q \<Rightarrow> 'a list"
    and cap :: nat
    and push :: "'a \<Rightarrow> 'q \<Rightarrow> bool \<times> 'q"
    and pop :: "'q \<Rightarrow> 'a option \<times> 'q"
  assumes contents_cap: "invar q \<Longrightarrow> length (contents q) \<le> cap"
    and push_room: "invar q \<Longrightarrow> length (contents q) < cap \<Longrightarrow>
          \<exists>q'. push x q = (True, q') \<and> invar q' \<and> contents q' = contents q @ [x]"
    and push_full: "invar q \<Longrightarrow> length (contents q) = cap \<Longrightarrow> push x q = (False, q)"
    and pop_empty: "invar q \<Longrightarrow> contents q = [] \<Longrightarrow> pop q = (None, q)"
    and pop_first: "invar q \<Longrightarrow> contents q = x # xs \<Longrightarrow>
          \<exists>q'. pop q = (Some x, q') \<and> invar q' \<and> contents q' = xs"
begin

lemma push_cases:
  assumes "invar q" "push x q = (ok, q')"
  shows "invar q' \<and> ok = (length (contents q) < cap) \<and>
         contents q' = (if ok then contents q @ [x] else contents q)"
  using assms contents_cap [of q] push_room [of q x] push_full [of q x]
  by (cases "length (contents q) < cap") auto

lemma pop_cases:
  assumes "invar q" "pop q = (r, q')"
  shows "invar q' \<and> (case r of None \<Rightarrow> contents q = [] \<and> q' = q | Some x \<Rightarrow> contents q = x # contents q')"
proof (cases "contents q")
  case Nil
  with assms pop_empty show ?thesis by auto
next
  case (Cons x xs)
  with assms pop_first [of q x xs] show ?thesis by auto
qed

lemma run_fifo:
  assumes "invar q" "fifo_run push pop os q = (ins, outs, q')"
  shows "invar q' \<and> contents q @ ins = outs @ contents q'"
  using assms
proof (induction os arbitrary: q ins outs q')
  case (Cons o1 os)
  show ?case
  proof (cases o1)
    case (Push x)
    obtain ok q1 where p: "push x q = (ok, q1)" by fastforce
    obtain i1 o1' q2 where r: "fifo_run push pop os q1 = (i1, o1', q2)" by (metis prod_cases3)
    from push_cases [OF Cons.prems(1) p] Cons.IH [OF _ r] Cons.prems(2) p r Push show ?thesis
      by (cases ok) auto
  next
    case Pop
    obtain v q1 where p: "pop q = (v, q1)" by fastforce
    obtain i1 o1' q2 where r: "fifo_run push pop os q1 = (i1, o1', q2)" by (metis prod_cases3)
    from pop_cases [OF Cons.prems(1) p] Cons.IH [OF _ r] Cons.prems(2) p r Pop show ?thesis
      by (cases v) auto
  qed
qed simp

lemma push_while_spec:
  assumes "invar q" "push_while push xs q = (n, q')"
  shows "invar q' \<and> n = min (length xs) (cap - length (contents q)) \<and> contents q' = contents q @ take n xs"
  using assms
proof (induction xs arbitrary: q n q')
  case (Cons x xs)
  obtain ok q1 where p: "push x q = (ok, q1)" by fastforce
  obtain m q2 where r: "push_while push xs q1 = (m, q2)" by fastforce
  from push_cases [OF Cons.prems(1) p] Cons.IH [OF _ r] Cons.prems(2) p r show ?case
    by (cases ok) auto
qed simp

lemma pop_upto_spec:
  assumes "invar q" "pop_upto pop n q = (xs, q')"
  shows "invar q' \<and> xs = take n (contents q) \<and> contents q' = drop n (contents q)"
  using assms
proof (induction n arbitrary: q xs q')
  case (Suc n)
  obtain r q1 where p: "pop q = (r, q1)" by fastforce
  obtain ys q2 where s: "pop_upto pop n q1 = (ys, q2)" by fastforce
  from pop_cases [OF Suc.prems(1) p] Suc.IH [OF _ s] Suc.prems(2) p s show ?case
    by (cases r) auto
qed simp

end

section \<open>Ring buffers\<close>

definition ring_list :: "'a list \<Rightarrow> nat \<Rightarrow> nat \<Rightarrow> 'a list" where
  "ring_list buf head n = map (\<lambda>i. buf ! ((head + i) mod length buf)) [0..<n]"

lemma length_ring_list [simp]: "length (ring_list buf head n) = n"
  by (simp add: ring_list_def)

lemma ring_list_0 [simp]: "ring_list buf head 0 = []"
  by (simp add: ring_list_def)

lemma ring_list_eq_Nil [simp]: "ring_list buf head n = [] \<longleftrightarrow> n = 0"
  using length_ring_list [of buf head n] by (metis length_0_conv)

lemma ring_list_push:
  assumes "n < length buf" "head < length buf"
  shows "ring_list (buf[(head + n) mod length buf := x]) head (Suc n) = ring_list buf head n @ [x]"
proof -
  have "(head + n) mod length buf \<noteq> (head + i) mod length buf" if "i < n" for i
  proof
    assume "(head + n) mod length buf = (head + i) mod length buf"
    then have "length buf dvd (head + n) - (head + i)"
      using that by (metis mod_eq_dvd_iff_nat add_le_cancel_left less_or_eq_imp_le)
    with that assms show False
      by (metis add_diff_cancel_left dvd_imp_le less_imp_diff_less linorder_not_less zero_less_diff)
  qed
  moreover have "(head + n) mod length buf < length buf"
    using assms by (intro mod_less_divisor) linarith
  ultimately show ?thesis
    using assms by (auto simp: ring_list_def intro!: nth_equalityI)
qed

lemma ring_list_pop:
  assumes "n > 0" "head < length buf"
  shows "ring_list buf head n = buf ! head # ring_list buf ((head + 1) mod length buf) (n - 1)"
proof -
  obtain m where n: "n = Suc m" using assms(1) by (cases n) auto
  have "[0..<Suc m] = 0 # map Suc [0..<m]" by (simp add: upt_conv_Cons map_Suc_upt del: upt_Suc)
  then show ?thesis
    using assms(2) by (simp add: n ring_list_def mod_add_left_eq comp_def del: upt_Suc)
qed

lemma ring_list_nth: "i < n \<Longrightarrow> ring_list buf head n ! i = buf ! ((head + i) mod length buf)"
  by (simp add: ring_list_def)

lemma ring_index_inj:
  fixes head :: nat
  assumes "i < L" "j < L"
  shows "(head + i) mod L = (head + j) mod L \<longleftrightarrow> i = j"
proof
  have less: "a = b" if "(head + a) mod L = (head + b) mod L" "a \<le> b" "b < L" for a b
  proof (rule ccontr)
    assume "a \<noteq> b"
    have "L dvd (head + b) - (head + a)"
      using that(1,2) mod_eq_dvd_iff_nat [of "head + a" "head + b" L] by simp
    then have "L dvd b - a" by simp
    then show False using that \<open>a \<noteq> b\<close> by (auto dest: dvd_imp_le)
  qed
  assume "(head + i) mod L = (head + j) mod L"
  then show "i = j" using less [of i j] less [of j i] assms by (cases "i \<le> j") auto
qed simp

lemma ring_list_set:
  assumes "off < n" "n \<le> length buf"
  shows "ring_list (buf[(head + off) mod length buf := x]) head n = (ring_list buf head n)[off := x]"
proof (rule nth_equalityI)
  fix i assume "i < length (ring_list (buf[(head + off) mod length buf := x]) head n)"
  then have i: "i < n" by simp
  moreover have "(head + off) mod length buf < length buf" using assms by (intro mod_less_divisor) linarith
  ultimately show "ring_list (buf[(head + off) mod length buf := x]) head n ! i = (ring_list buf head n)[off := x] ! i"
    using assms ring_index_inj [of off "length buf" i head]
    by (simp add: ring_list_nth nth_list_update)
qed simp

lemma ring_list_push_front:
  assumes "n < length buf" "head < length buf"
  shows "ring_list (buf[(head + length buf - 1) mod length buf := x]) ((head + length buf - 1) mod length buf) (Suc n)
    = x # ring_list buf head n"
proof (rule nth_equalityI)
  let ?L = "length buf" let ?h = "(head + ?L - 1) mod ?L"
  have h: "?h < ?L" using assms by (intro mod_less_divisor) linarith
  have next_idx: "(?h + Suc i) mod ?L = (head + i) mod ?L" for i
  proof -
    have "(?h + Suc i) mod ?L = (head + ?L - 1 + Suc i) mod ?L" by (rule mod_add_left_eq)
    also have "head + ?L - 1 + Suc i = head + i + ?L" using assms by simp
    finally show ?thesis by simp
  qed
  fix i assume "i < length (ring_list (buf[?h := x]) ?h (Suc n))"
  then have i: "i < Suc n" by simp
  show "ring_list (buf[?h := x]) ?h (Suc n) ! i = (x # ring_list buf head n) ! i"
  proof (cases i)
    case 0
    then show ?thesis using h by (simp add: ring_list_nth)
  next
    case (Suc j)
    have "(?h + Suc j) mod ?L \<noteq> (?h + 0) mod ?L"
      by (subst ring_index_inj) (use i Suc assms(1) in auto)
    then have "(head + j) mod ?L \<noteq> ?h" using next_idx [of j] h by simp
    then show ?thesis using i Suc next_idx [of j] by (simp add: ring_list_nth)
  qed
qed simp

lemma ring_list_tl:
  "head < length buf \<Longrightarrow> ring_list buf ((head + 1) mod length buf) (n - 1) = tl (ring_list buf head n)"
  by (cases n) (simp_all add: ring_list_pop)

lemma ring_list_butlast: "ring_list buf head (n - 1) = butlast (ring_list buf head n)"
  by (cases n) (simp_all add: ring_list_def)

text \<open>The number of elements of a ring that keeps one slot empty.\<close>

lemma ring_count_push:
  fixes tail :: nat
  assumes "tail < cap" "head < cap" "(tail + 1) mod cap \<noteq> head"
  shows "((tail + 1) mod cap + cap - head) mod cap = Suc ((tail + cap - head) mod cap)"
    "(head + (tail + cap - head) mod cap) mod cap = tail" "(tail + cap - head) mod cap < cap - 1"
  using assms by (cases "Suc tail < cap"; cases "tail < head"; auto simp: mod_if)+

lemma ring_count_full:
  fixes tail :: nat
  assumes "tail < cap" "head < cap"
  shows "(tail + 1) mod cap = head \<longleftrightarrow> (tail + cap - head) mod cap = cap - 1"
  using assms by (auto simp: mod_if)

lemma ring_count_pop:
  fixes tail :: nat
  assumes "tail < cap" "head < cap" "head \<noteq> tail"
  shows "(tail + cap - (head + 1) mod cap) mod cap = (tail + cap - head) mod cap - 1"
    "(tail + cap - head) mod cap > 0"
  using assms by (auto simp: mod_if)

lemma ring_count_empty:
  fixes tail :: nat
  assumes "tail < cap" "head < cap"
  shows "(tail + cap - head) mod cap = 0 \<longleftrightarrow> head = tail"
  using assms by (auto simp: mod_if)

end
