(* ===== verification/Ipc_Inbox.thy ===== *)
theory Ipc_Inbox
  imports Ring_Queues
begin

text \<open>
  Inter-process messages (\<^verbatim>\<open>kernel/src/ipc/mod.rs\<close>): every process has a ring of 16 messages of at
  most 64 bytes; \<open>send\<close> copies the data into the destination ring and drops it when the ring is full,
  \<open>recv\<close> takes the oldest message.  The inbox table is an explicit list of 256 rings.
\<close>

definition MSG_LEN :: nat where [kernel_defs]: "MSG_LEN = 64"
definition INBOX_CAP :: nat where [kernel_defs]: "INBOX_CAP = 16"

record message =
  msg_len :: nat
  msg_data :: bytes

definition message_empty :: message where
  "message_empty = \<lparr> msg_len = 0, msg_data = replicate MSG_LEN 0 \<rparr>"

record inbox =
  ib_buf :: "message list"
  ib_head :: nat
  ib_tail :: nat
  ib_len :: nat

definition inbox_new :: inbox where
  "inbox_new = \<lparr> ib_buf = replicate INBOX_CAP message_empty, ib_head = 0, ib_tail = 0, ib_len = 0 \<rparr>"

definition inbox_push :: "message \<Rightarrow> inbox \<Rightarrow> bool \<times> inbox" where
  "inbox_push msg q =
     (if ib_len q = INBOX_CAP then (False, q)
      else (True, q\<lparr> ib_buf := (ib_buf q)[ib_tail q := msg],
                     ib_tail := (ib_tail q + 1) mod INBOX_CAP,
                     ib_len := ib_len q + 1 \<rparr>))"

definition inbox_pop :: "inbox \<Rightarrow> message option \<times> inbox" where
  "inbox_pop q =
     (if ib_len q = 0 then (None, q)
      else (Some (ib_buf q ! ib_head q),
            q\<lparr> ib_head := (ib_head q + 1) mod INBOX_CAP, ib_len := ib_len q - 1 \<rparr>))"

type_synonym inboxes = "inbox list"

definition inboxes_new :: inboxes where
  "inboxes_new = replicate MAX_PROCS inbox_new"

definition ipc_send :: "u32 \<Rightarrow> bytes \<Rightarrow> inboxes \<Rightarrow> inboxes" where
  "ipc_send dst_pid d boxes =
     (if unat dst_pid \<ge> MAX_PROCS then boxes
      else let copy_len = min (length d) MSG_LEN;
               msg = message_empty\<lparr> msg_len := copy_len,
                       msg_data := write_at 0 (take copy_len d) (msg_data message_empty) \<rparr>
           in boxes[unat dst_pid := snd (inbox_push msg (boxes ! unat dst_pid))])"

definition ipc_recv :: "u32 \<Rightarrow> inboxes \<Rightarrow> bytes option \<times> inboxes" where
  "ipc_recv src_pid boxes =
     (if unat src_pid \<ge> MAX_PROCS then (None, boxes)
      else case inbox_pop (boxes ! unat src_pid) of
             (None, q) \<Rightarrow> (None, boxes[unat src_pid := q])
           | (Some msg, q) \<Rightarrow> (Some (take (msg_len msg) (msg_data msg)), boxes[unat src_pid := q]))"

section \<open>The inbox as a queue of byte strings\<close>

definition inbox_inv :: "inbox \<Rightarrow> bool" where
  "inbox_inv q \<longleftrightarrow> length (ib_buf q) = INBOX_CAP \<and> ib_head q < INBOX_CAP \<and> ib_len q \<le> INBOX_CAP \<and>
     ib_tail q = (ib_head q + ib_len q) mod INBOX_CAP"

definition inbox_contents :: "inbox \<Rightarrow> message list" where
  "inbox_contents q = ring_list (ib_buf q) (ib_head q) (ib_len q)"

definition message_bytes :: "message \<Rightarrow> bytes" where
  "message_bytes m = take (msg_len m) (msg_data m)"

definition ipc_inv :: "inboxes \<Rightarrow> bool" where
  "ipc_inv boxes \<longleftrightarrow> length boxes = MAX_PROCS \<and> (\<forall>q \<in> set boxes. inbox_inv q)"

text \<open>What process \<open>p\<close> will receive, oldest first.\<close>

definition ipc_queue :: "inboxes \<Rightarrow> nat \<Rightarrow> bytes list" where
  "ipc_queue boxes p = map message_bytes (inbox_contents (boxes ! p))"

datatype ipc_call = Send u32 bytes | Recv u32

primrec ipc_exec :: "ipc_call \<Rightarrow> inboxes \<Rightarrow> inboxes" where
  "ipc_exec (Send dst d) boxes = ipc_send dst d boxes"
| "ipc_exec (Recv src) boxes = snd (ipc_recv src boxes)"

text \<open>The specification: one bounded queue of byte strings per process.\<close>

primrec ipc_spec :: "ipc_call \<Rightarrow> (nat \<Rightarrow> bytes list) \<Rightarrow> nat \<Rightarrow> bytes list" where
  "ipc_spec (Send dst d) Q =
     (if unat dst < MAX_PROCS \<and> length (Q (unat dst)) < INBOX_CAP
      then Q(unat dst := Q (unat dst) @ [take MSG_LEN d]) else Q)"
| "ipc_spec (Recv src) Q = (if unat src < MAX_PROCS then Q(unat src := tl (Q (unat src))) else Q)"

interpretation inbox: bounded_fifo inbox_inv inbox_contents INBOX_CAP inbox_push inbox_pop
proof unfold_locales
  fix q :: inbox
  assume i: "inbox_inv q"
  show "length (inbox_contents q) \<le> INBOX_CAP"
    using i by (simp add: inbox_inv_def inbox_contents_def)
  show "\<exists>q'. inbox_push x q = (True, q') \<and> inbox_inv q' \<and> inbox_contents q' = inbox_contents q @ [x]"
    if "length (inbox_contents q) < INBOX_CAP" for x
    using i that ring_list_push [of "ib_len q" "ib_buf q" "ib_head q" x]
    by (auto simp: inbox_inv_def inbox_contents_def inbox_push_def mod_Suc_eq)
  show "inbox_push x q = (False, q)" if "length (inbox_contents q) = INBOX_CAP" for x
    using that by (simp add: inbox_contents_def inbox_push_def)
  show "inbox_pop q = (None, q)" if "inbox_contents q = []"
    using that by (auto simp: inbox_contents_def inbox_pop_def ring_list_def)
  show "\<exists>q'. inbox_pop q = (Some x, q') \<and> inbox_inv q' \<and> inbox_contents q' = xs"
    if "inbox_contents q = x # xs" for x xs
  proof -
    have "ib_len q \<noteq> 0" using that by (metis inbox_contents_def list.distinct(1) ring_list_0)
    then obtain m where m: "ib_len q = Suc m" by (cases "ib_len q") auto
    have "(ib_head q + Suc m) mod INBOX_CAP = ((ib_head q + 1) mod INBOX_CAP + m) mod INBOX_CAP"
      by (simp add: mod_simps)
    with i that m ring_list_pop [of "ib_len q" "ib_head q" "ib_buf q"] show ?thesis
      by (auto simp: inbox_inv_def inbox_contents_def inbox_pop_def)
  qed
qed

lemma sent_message_bytes:
  "message_bytes (message_empty\<lparr> msg_len := min (length d) MSG_LEN,
      msg_data := write_at 0 (take (min (length d) MSG_LEN) d) (msg_data message_empty) \<rparr>) = take MSG_LEN d"
  by (simp add: message_bytes_def message_empty_def write_at_def min_def)

lemma ipc_inv_update: "ipc_inv boxes \<Longrightarrow> inbox_inv q \<Longrightarrow> ipc_inv (boxes[i := q])"
  by (auto simp: ipc_inv_def dest: set_update_subset_insert [THEN subsetD])

lemma ipc_inv_nth: "ipc_inv boxes \<Longrightarrow> i < MAX_PROCS \<Longrightarrow> inbox_inv (boxes ! i)"
  by (simp add: ipc_inv_def)

lemma ipc_queue_update:
  "ipc_inv boxes \<Longrightarrow> p < MAX_PROCS \<Longrightarrow>
     ipc_queue (boxes[i := q]) p = (if p = i then map message_bytes (inbox_contents q) else ipc_queue boxes p)"
  by (simp add: ipc_queue_def ipc_inv_def)

lemma ipc_send_refines:
  assumes "ipc_inv boxes" "p < MAX_PROCS"
  shows "ipc_inv (ipc_send dst d boxes)"
    "ipc_queue (ipc_send dst d boxes) p = ipc_spec (Send dst d) (ipc_queue boxes) p"
proof -
  let ?m = "message_empty\<lparr> msg_len := min (length d) MSG_LEN,
      msg_data := write_at 0 (take (min (length d) MSG_LEN) d) (msg_data message_empty) \<rparr>"
  obtain ok q where push: "inbox_push ?m (boxes ! unat dst) = (ok, q)" by fastforce
  have eff: "inbox_inv q" "ok = (length (inbox_contents (boxes ! unat dst)) < INBOX_CAP)"
    "inbox_contents q = (if ok then inbox_contents (boxes ! unat dst) @ [?m] else inbox_contents (boxes ! unat dst))"
    if "unat dst < MAX_PROCS"
    using inbox.push_cases [OF ipc_inv_nth [OF assms(1) that] push] by auto
  show "ipc_inv (ipc_send dst d boxes)"
    using eff(1) assms(1) push by (simp add: ipc_send_def Let_def ipc_inv_update)
  show "ipc_queue (ipc_send dst d boxes) p = ipc_spec (Send dst d) (ipc_queue boxes) p"
    using eff assms push sent_message_bytes [of d] ipc_queue_def [of boxes "unat dst"]
    by (auto simp: ipc_send_def Let_def ipc_queue_update)
qed

lemma ipc_recv_refines:
  assumes "ipc_inv boxes"
  shows "ipc_inv (snd (ipc_recv src boxes))"
    "p < MAX_PROCS \<Longrightarrow> ipc_queue (snd (ipc_recv src boxes)) p = ipc_spec (Recv src) (ipc_queue boxes) p"
    "fst (ipc_recv src boxes) =
       (if unat src < MAX_PROCS \<and> ipc_queue boxes (unat src) \<noteq> [] then Some (hd (ipc_queue boxes (unat src))) else None)"
proof -
  obtain r q where pop: "inbox_pop (boxes ! unat src) = (r, q)" by fastforce
  have eff: "inbox_inv q \<and> (case r of None \<Rightarrow> inbox_contents (boxes ! unat src) = [] \<and> q = boxes ! unat src
      | Some x \<Rightarrow> inbox_contents (boxes ! unat src) = x # inbox_contents q)" if "unat src < MAX_PROCS"
    using inbox.pop_cases [OF ipc_inv_nth [OF assms that] pop] .
  show "ipc_inv (snd (ipc_recv src boxes))"
    using eff assms pop by (auto simp: ipc_recv_def ipc_inv_update split: option.splits)
  show "ipc_queue (snd (ipc_recv src boxes)) p = ipc_spec (Recv src) (ipc_queue boxes) p" if "p < MAX_PROCS"
    using eff assms pop that ipc_queue_def [of boxes "unat src"]
    by (auto simp: ipc_recv_def ipc_queue_update split: option.splits)
  show "fst (ipc_recv src boxes) =
       (if unat src < MAX_PROCS \<and> ipc_queue boxes (unat src) \<noteq> [] then Some (hd (ipc_queue boxes (unat src))) else None)"
    using eff pop by (auto simp: ipc_recv_def ipc_queue_def message_bytes_def split: option.splits)
qed

lemma ipc_new_inv: "ipc_inv inboxes_new" "p < MAX_PROCS \<Longrightarrow> ipc_queue inboxes_new p = []"
  by (simp_all add: ipc_inv_def inboxes_new_def inbox_new_def inbox_inv_def ipc_queue_def
        inbox_contents_def kernel_defs)

lemma ipc_spec_cong:
  "(\<And>p. p < MAX_PROCS \<Longrightarrow> Q p = R p) \<Longrightarrow> p < MAX_PROCS \<Longrightarrow> ipc_spec c Q p = ipc_spec c R p"
  by (cases c) auto

lemma ipc_exec_refines:
  assumes "ipc_inv boxes"
  shows "ipc_inv (ipc_exec c boxes)" "p < MAX_PROCS \<Longrightarrow> ipc_queue (ipc_exec c boxes) p = ipc_spec c (ipc_queue boxes) p"
  using ipc_send_refines [OF assms, of 0] ipc_send_refines(2) [OF assms] ipc_recv_refines(1,2) [OF assms]
  by (cases c; simp add: kernel_defs del: ipc_spec.simps)+

lemma ipc_run_refines:
  "ipc_inv (fold ipc_exec cs inboxes_new) \<and>
   (\<forall>p < MAX_PROCS. ipc_queue (fold ipc_exec cs inboxes_new) p = fold ipc_spec cs (\<lambda>_. []) p)"
proof (induction cs rule: rev_induct)
  case Nil
  then show ?case by (simp add: ipc_new_inv)
next
  case (snoc c cs)
  then have i: "ipc_inv (fold ipc_exec cs inboxes_new)" by simp
  have "ipc_queue (ipc_exec c (fold ipc_exec cs inboxes_new)) p = ipc_spec c (fold ipc_spec cs (\<lambda>_. [])) p"
    if "p < MAX_PROCS" for p
    unfolding ipc_exec_refines(2) [OF i that] using snoc that by (intro ipc_spec_cong) auto
  with ipc_exec_refines(1) [OF i, of c] show ?case by simp
qed

section \<open>Properties\<close>

text \<open>C12.  Inter-process messaging refines one bounded queue of byte strings per process: after any
  sequence of \<open>send\<close> and \<open>recv\<close> calls from boot, the ring of every process holds the messages that the
  sequence of calls leaves in a queue of capacity 16 (a message is cut to 64 bytes, and a send to a full
  queue or to a pid outside the table is dropped), and \<open>recv\<close> returns the oldest message of that queue.\<close>

theorem ipc_refines_bounded_queues:
  assumes "p < MAX_PROCS"
  shows "ipc_queue (fold ipc_exec cs inboxes_new) p = fold ipc_spec cs (\<lambda>_. []) p \<and>
    length (fold ipc_spec cs (\<lambda>_. []) p) \<le> INBOX_CAP \<and>
    fst (ipc_recv (of_nat p) (fold ipc_exec cs inboxes_new)) =
      (case fold ipc_spec cs (\<lambda>_. []) p of [] \<Rightarrow> None | m # ms \<Rightarrow> Some m)"
proof -
  let ?b = "fold ipc_exec cs inboxes_new"
  have i: "ipc_inv ?b" and q: "ipc_queue ?b p = fold ipc_spec cs (\<lambda>_. []) p"
    using ipc_run_refines [of cs] assms by auto
  have u: "unat (of_nat p :: u32) = p" using assms by (simp add: unat_of_nat kernel_defs)
  have "length (ipc_queue ?b p) \<le> INBOX_CAP"
    using inbox.contents_cap [OF ipc_inv_nth [OF i assms]] by (simp add: ipc_queue_def)
  with q ipc_recv_refines(3) [OF i, of "of_nat p"] u assms show ?thesis
    by (auto split: list.splits)
qed

theorem ipc_refines_bounded_queues_witness:
  "fst (ipc_recv 5 (fold ipc_exec [Send 5 [1, 2], Send 7 [9], Send 5 [3]] inboxes_new)) = Some [1, 2]"
  using ipc_refines_bounded_queues [of 5 "[Send 5 [1, 2], Send 7 [9], Send 5 [3]]"]
  by (simp add: kernel_defs)

end
