(* ===== verification/Pty_Terminals.thy ===== *)
theory Pty_Terminals
  imports Ring_Queues
begin

text \<open>
  Pseudo-terminals (\<^verbatim>\<open>kernel/src/drivers/pty.rs\<close> and the \<^verbatim>\<open>sys_pty_*\<close> handlers of
  \<^verbatim>\<open>kernel/src/syscall/handlers/futex.rs\<close>).  Eight pairs of 4096-byte rings that keep one slot empty;
  a descriptor encodes the pair and the side.  A read returns the bytes stored in the caller's
  buffer; the handlers' null-pointer checks are kept, the user buffer is a byte list.
\<close>

definition MAX_PTYS :: nat where [kernel_defs]: "MAX_PTYS = 8"
definition PTY_BUF_SIZE :: nat where [kernel_defs]: "PTY_BUF_SIZE = 4096"
definition PTY_FD_TAG :: u32 where [kernel_defs]: "PTY_FD_TAG = 0xAA000000"

record ring_buf =
  rb_data :: bytes
  rb_head :: nat
  rb_tail :: nat

definition ring_buf_new :: ring_buf where
  "ring_buf_new = \<lparr> rb_data = replicate PTY_BUF_SIZE 0, rb_head = 0, rb_tail = 0 \<rparr>"

definition ring_is_empty :: "ring_buf \<Rightarrow> bool" where
  "ring_is_empty r \<longleftrightarrow> rb_head r = rb_tail r"

definition ring_available :: "ring_buf \<Rightarrow> nat" where
  "ring_available r = (rb_tail r + PTY_BUF_SIZE - rb_head r) mod PTY_BUF_SIZE"

definition ring_push :: "u8 \<Rightarrow> ring_buf \<Rightarrow> bool \<times> ring_buf" where
  "ring_push b r =
     (let next = (rb_tail r + 1) mod PTY_BUF_SIZE in
      if next = rb_head r then (False, r)
      else (True, r\<lparr> rb_data := (rb_data r)[rb_tail r := b], rb_tail := next \<rparr>))"

definition ring_pop :: "ring_buf \<Rightarrow> u8 option \<times> ring_buf" where
  "ring_pop r =
     (if ring_is_empty r then (None, r)
      else (Some (rb_data r ! rb_head r), r\<lparr> rb_head := (rb_head r + 1) mod PTY_BUF_SIZE \<rparr>))"

record pty_pair =
  pp_master_to_slave :: ring_buf
  pp_slave_to_master :: ring_buf
  pp_alive :: bool

definition pty_pair_new :: pty_pair where
  "pty_pair_new = \<lparr> pp_master_to_slave = ring_buf_new, pp_slave_to_master = ring_buf_new, pp_alive = False \<rparr>"

type_synonym ptys = "pty_pair list"

definition ptys_new :: ptys where
  "ptys_new = replicate MAX_PTYS pty_pair_new"

section \<open>Descriptors\<close>

definition pty_idx_from_master :: "u32 \<Rightarrow> nat option" where
  "pty_idx_from_master fd =
     (if fd AND 0xFF000000 \<noteq> PTY_FD_TAG then None
      else let raw = unat (fd AND 0x00FFFFFF) in
           if raw mod 2 = 0 \<and> raw div 2 < MAX_PTYS then Some (raw div 2) else None)"

definition pty_idx_from_slave :: "u32 \<Rightarrow> nat option" where
  "pty_idx_from_slave fd =
     (if fd AND 0xFF000000 \<noteq> PTY_FD_TAG then None
      else let raw = unat (fd AND 0x00FFFFFF) in
           if raw mod 2 = 1 \<and> raw div 2 < MAX_PTYS then Some (raw div 2) else None)"

definition master_fd :: "nat \<Rightarrow> u32" where
  "master_fd idx = PTY_FD_TAG OR of_nat (idx * 2)"

definition slave_fd :: "nat \<Rightarrow> u32" where
  "slave_fd idx = PTY_FD_TAG OR of_nat (idx * 2 + 1)"

section \<open>Operations\<close>

datatype pty_error = NoFreePtys | PtyClosed | InvalidFd

definition pty_open :: "ptys \<Rightarrow> (pty_error + u32 \<times> u32) \<times> ptys" where
  "pty_open ps =
     (case position (\<lambda>p. \<not> pp_alive p) ps of
        Some idx \<Rightarrow> (Inr (master_fd idx, slave_fd idx), ps[idx := pty_pair_new\<lparr> pp_alive := True \<rparr>])
      | None \<Rightarrow> (Inl NoFreePtys, ps))"

definition pty_read :: "u32 \<Rightarrow> nat \<Rightarrow> ptys \<Rightarrow> (pty_error + bytes) \<times> ptys" where
  "pty_read fd buf_len ps =
     (case pty_idx_from_master fd of
        Some idx \<Rightarrow>
          if \<not> pp_alive (ps ! idx) then (Inl PtyClosed, ps)
          else (case pop_upto ring_pop buf_len (pp_slave_to_master (ps ! idx)) of
                  (out, r) \<Rightarrow> (Inr out, ps[idx := (ps ! idx)\<lparr> pp_slave_to_master := r \<rparr>]))
      | None \<Rightarrow>
          (case pty_idx_from_slave fd of
             Some idx \<Rightarrow>
               if \<not> pp_alive (ps ! idx) then (Inl PtyClosed, ps)
               else (case pop_upto ring_pop buf_len (pp_master_to_slave (ps ! idx)) of
                       (out, r) \<Rightarrow> (Inr out, ps[idx := (ps ! idx)\<lparr> pp_master_to_slave := r \<rparr>]))
           | None \<Rightarrow> (Inl InvalidFd, ps)))"

text \<open>The line discipline of a slave write: carriage return becomes line feed.\<close>

definition line_discipline :: "u8 \<Rightarrow> u8" where
  "line_discipline b = (if b = 13 then 10 else b)"

definition slave_write_byte :: "u8 \<Rightarrow> ring_buf \<Rightarrow> ring_buf" where
  "slave_write_byte b r = snd (ring_push (line_discipline b) r)"

definition pty_write :: "u32 \<Rightarrow> bytes \<Rightarrow> ptys \<Rightarrow> (pty_error + nat) \<times> ptys" where
  "pty_write fd d ps =
     (case pty_idx_from_master fd of
        Some idx \<Rightarrow>
          if \<not> pp_alive (ps ! idx) then (Inl PtyClosed, ps)
          else (case push_while ring_push d (pp_master_to_slave (ps ! idx)) of
                  (n, r) \<Rightarrow> (Inr n, ps[idx := (ps ! idx)\<lparr> pp_master_to_slave := r \<rparr>]))
      | None \<Rightarrow>
          (case pty_idx_from_slave fd of
             Some idx \<Rightarrow>
               if \<not> pp_alive (ps ! idx) then (Inl PtyClosed, ps)
               else (Inr (length d),
                     ps[idx := (ps ! idx)\<lparr> pp_slave_to_master :=
                          fold slave_write_byte d (pp_slave_to_master (ps ! idx)) \<rparr>])
           | None \<Rightarrow> (Inl InvalidFd, ps)))"

definition TIOCGWINSZ :: u64 where "TIOCGWINSZ = 0x5413"
definition TIOCSWINSZ :: u64 where "TIOCSWINSZ = 0x5414"

text \<open>The second component is what is stored at the user address: the window size.\<close>

definition pty_ioctl :: "u32 \<Rightarrow> u64 \<Rightarrow> u64 \<Rightarrow> ptys \<Rightarrow> int \<times> (u64 \<times> bytes) option" where
  "pty_ioctl fd cmd arg ps =
     (let idx = (case pty_idx_from_master fd of Some i \<Rightarrow> Some i | None \<Rightarrow> pty_idx_from_slave fd);
          alive = (case idx of Some i \<Rightarrow> pp_alive (ps ! i) | None \<Rightarrow> False)
      in if \<not> alive then (- 9, None)
         else if cmd = TIOCGWINSZ then
           if arg = 0 then (- 14, None)
           else (0, Some (arg, concat (map u16_to_le [24, 80, 0, 0])))
         else if cmd = TIOCSWINSZ then (0, None)
         else (- 25, None))"

section \<open>System calls\<close>

definition sys_pty_open :: "u64 \<Rightarrow> ptys \<Rightarrow> 64 word \<times> ptys" where
  "sys_pty_open flags ps =
     (case pty_open ps of
        (Inr (master, slave), ps') \<Rightarrow> (push_bit 32 (ucast master) OR ucast slave, ps')
      | (Inl _, ps') \<Rightarrow> (- 24, ps'))"

definition sys_pty_read :: "u64 \<Rightarrow> u64 \<Rightarrow> nat \<Rightarrow> ptys \<Rightarrow> int \<times> bytes \<times> ptys" where
  "sys_pty_read fd buf_ptr count ps =
     (if buf_ptr = 0 then (- 14, [], ps)
      else case pty_read (ucast fd) count ps of
             (Inr out, ps') \<Rightarrow> (int (length out), out, ps')
           | (Inl _, ps') \<Rightarrow> (- 5, [], ps'))"

definition sys_pty_write :: "u64 \<Rightarrow> u64 \<Rightarrow> bytes \<Rightarrow> ptys \<Rightarrow> int \<times> ptys" where
  "sys_pty_write fd buf_ptr d ps =
     (if buf_ptr = 0 then (- 14, ps)
      else case pty_write (ucast fd) d ps of
             (Inr n, ps') \<Rightarrow> (int n, ps')
           | (Inl _, ps') \<Rightarrow> (- 5, ps'))"

definition sys_pty_ioctl :: "u64 \<Rightarrow> u64 \<Rightarrow> u64 \<Rightarrow> ptys \<Rightarrow> int \<times> (u64 \<times> bytes) option" where
  "sys_pty_ioctl fd cmd arg ps = pty_ioctl (ucast fd) cmd arg ps"

section \<open>Rings as byte queues\<close>

definition ring_inv :: "ring_buf \<Rightarrow> bool" where
  "ring_inv r \<longleftrightarrow> length (rb_data r) = PTY_BUF_SIZE \<and> rb_head r < PTY_BUF_SIZE \<and> rb_tail r < PTY_BUF_SIZE"

definition ring_contents :: "ring_buf \<Rightarrow> bytes" where
  "ring_contents r = ring_list (rb_data r) (rb_head r) (ring_available r)"

definition pty_inv :: "ptys \<Rightarrow> bool" where
  "pty_inv ps \<longleftrightarrow> length ps = MAX_PTYS \<and>
     (\<forall>p \<in> set ps. ring_inv (pp_master_to_slave p) \<and> ring_inv (pp_slave_to_master p))"

interpretation pty_ring: bounded_fifo ring_inv ring_contents "PTY_BUF_SIZE - 1" ring_push ring_pop
proof unfold_locales
  fix r :: ring_buf
  assume i: "ring_inv r"
  then have b: "rb_tail r < PTY_BUF_SIZE" "rb_head r < PTY_BUF_SIZE" "length (rb_data r) = PTY_BUF_SIZE"
    by (simp_all add: ring_inv_def)
  then have "ring_available r < PTY_BUF_SIZE" by (simp add: ring_available_def)
  then show "length (ring_contents r) \<le> PTY_BUF_SIZE - 1" by (simp add: ring_contents_def)
  show "\<exists>r'. ring_push x r = (True, r') \<and> ring_inv r' \<and> ring_contents r' = ring_contents r @ [x]"
    if "length (ring_contents r) < PTY_BUF_SIZE - 1" for x
  proof -
    have room: "(rb_tail r + 1) mod PTY_BUF_SIZE \<noteq> rb_head r"
      using ring_count_full [OF b(1,2)] that by (simp add: ring_contents_def ring_available_def)
    note c = ring_count_push [OF b(1,2) room]
    show ?thesis
      using room b c ring_list_push [of "ring_available r" "rb_data r" "rb_head r" x]
      by (auto simp: ring_push_def ring_inv_def ring_contents_def ring_available_def)
  qed
  show "ring_push x r = (False, r)" if "length (ring_contents r) = PTY_BUF_SIZE - 1" for x
    using ring_count_full [OF b(1,2)] that by (simp add: ring_contents_def ring_available_def ring_push_def)
  show "ring_pop r = (None, r)" if "ring_contents r = []"
    using ring_count_empty [OF b(1,2)] that arg_cong [OF that, of length]
    by (simp add: ring_contents_def ring_available_def ring_pop_def ring_is_empty_def)
  show "\<exists>r'. ring_pop r = (Some x, r') \<and> ring_inv r' \<and> ring_contents r' = xs"
    if "ring_contents r = x # xs" for x xs
  proof -
    have ne: "rb_head r \<noteq> rb_tail r"
      using ring_count_empty [OF b(1,2)] arg_cong [OF that, of length]
      by (auto simp: ring_contents_def ring_available_def)
    show ?thesis
      using that ne b ring_count_pop [OF b(1,2) ne] ring_list_pop [of "ring_available r" "rb_head r" "rb_data r"]
      by (auto simp: ring_pop_def ring_is_empty_def ring_inv_def ring_contents_def ring_available_def)
  qed
qed

section \<open>Descriptors and data paths\<close>

lemma less_MAX_PTYS: "idx < MAX_PTYS \<Longrightarrow> idx \<in> {0, 1, 2, 3, 4, 5, 6, 7}"
  by (auto simp: kernel_defs)

lemma pty_fd_codec:
  assumes "idx < MAX_PTYS"
  shows "pty_idx_from_master (master_fd idx) = Some idx" "pty_idx_from_slave (slave_fd idx) = Some idx"
    "pty_idx_from_master (slave_fd idx) = None" "pty_idx_from_slave (master_fd idx) = None"
  using less_MAX_PTYS [OF assms]
  by (auto simp: pty_idx_from_master_def pty_idx_from_slave_def master_fd_def slave_fd_def kernel_defs)

lemma pty_inv_nth:
  "pty_inv ps \<Longrightarrow> idx < MAX_PTYS \<Longrightarrow>
     ring_inv (pp_master_to_slave (ps ! idx)) \<and> ring_inv (pp_slave_to_master (ps ! idx)) \<and> length ps = MAX_PTYS"
  by (simp add: pty_inv_def)

lemma pty_inv_update:
  "pty_inv ps \<Longrightarrow> ring_inv (pp_master_to_slave p) \<Longrightarrow> ring_inv (pp_slave_to_master p) \<Longrightarrow> pty_inv (ps[idx := p])"
  by (auto simp: pty_inv_def dest: set_update_subset_insert [THEN subsetD])

lemma ring_new_inv: "ring_inv ring_buf_new"
  by (simp add: ring_inv_def ring_buf_new_def kernel_defs)

lemma ptys_new_inv: "pty_inv ptys_new"
  by (simp add: pty_inv_def ptys_new_def pty_pair_new_def ring_new_inv)

lemma pty_open_inv: "pty_inv ps \<Longrightarrow> pty_inv (snd (pty_open ps))"
  by (auto simp: pty_open_def pty_pair_new_def ring_new_inv intro: pty_inv_update split: option.splits)

lemma slave_write_fold:
  assumes "ring_inv r"
  shows "ring_inv (fold slave_write_byte d r) \<and> ring_contents (fold slave_write_byte d r) =
     ring_contents r @ take (PTY_BUF_SIZE - 1 - length (ring_contents r)) (map line_discipline d)"
  using assms
proof (induction d arbitrary: r)
  case (Cons b d)
  obtain ok r' where p: "ring_push (line_discipline b) r = (ok, r')" by fastforce
  from pty_ring.push_cases [OF Cons.prems p] Cons.IH [of r'] show ?case
    by (cases ok) (auto simp: slave_write_byte_def p take_Cons' diff_Suc split: nat.splits)
qed simp

section \<open>Properties\<close>

text \<open>C22.  The master side of a live pseudo-terminal is a byte stream to the slave side: a master write
  accepts exactly as many bytes as fit into the ring (at most 4095 queued) and reports that number, the
  accepted bytes are queued behind the earlier ones, the next slave read returns the queued bytes in
  order, and no other terminal changes.\<close>

theorem pty_master_stream:
  assumes "pty_inv ps" "idx < MAX_PTYS" "pp_alive (ps ! idx)"
    and "n = min (length d) (PTY_BUF_SIZE - 1 - length (ring_contents (pp_master_to_slave (ps ! idx))))"
  shows "\<exists>ps'. pty_write (master_fd idx) d ps = (Inr n, ps') \<and> pty_inv ps' \<and>
     fst (pty_read (slave_fd idx) k ps') =
       Inr (take k (ring_contents (pp_master_to_slave (ps ! idx)) @ take n d)) \<and>
     (\<forall>j. j \<noteq> idx \<longrightarrow> ps' ! j = ps ! j)"
proof -
  obtain m r where pw: "push_while ring_push d (pp_master_to_slave (ps ! idx)) = (m, r)" by fastforce
  have i: "ring_inv (pp_master_to_slave (ps ! idx))" "ring_inv (pp_slave_to_master (ps ! idx))"
    "length ps = MAX_PTYS" using pty_inv_nth [OF assms(1,2)] by auto
  from pty_ring.push_while_spec [OF i(1) pw] assms(4)
  have s: "ring_inv r" "m = n" "ring_contents r = ring_contents (pp_master_to_slave (ps ! idx)) @ take n d"
    by auto
  obtain out r' where pop: "pop_upto ring_pop k r = (out, r')" by fastforce
  from pty_ring.pop_upto_spec [OF s(1) pop] have "out = take k (ring_contents r)" by simp
  then show ?thesis
    using assms i s pw pop pty_fd_codec [OF assms(2)]
    by (auto simp: pty_write_def pty_read_def intro!: pty_inv_update)
qed

theorem pty_master_stream_witness:
  "\<exists>ps'. pty_write (master_fd 0) [65, 66] (snd (pty_open ptys_new)) = (Inr 2, ps') \<and>
     fst (pty_read (slave_fd 0) 10 ps') = Inr [65, 66]"
proof -
  let ?ps = "snd (pty_open ptys_new)"
  have "position (\<lambda>p. \<not> pp_alive p) ptys_new = Some 0"
    by (simp add: ptys_new_def pty_pair_new_def kernel_defs numeral_eq_Suc)
  then have ps: "?ps = ptys_new[0 := pty_pair_new\<lparr> pp_alive := True \<rparr>]" by (simp add: pty_open_def)
  then have p0: "?ps ! 0 = pty_pair_new\<lparr> pp_alive := True \<rparr>" by (simp add: ptys_new_def kernel_defs)
  have "ring_contents ring_buf_new = []"
    by (simp add: ring_contents_def ring_available_def ring_buf_new_def)
  with p0 pty_master_stream [OF pty_open_inv [OF ptys_new_inv], of 0 2 "[65, 66]" 10] show ?thesis
    by (auto simp: pty_pair_new_def kernel_defs)
qed

text \<open>C27.  A slave write always reports the full length of its data, and puts into the ring, with carriage
  returns turned into line feeds, only the bytes that fit; the bytes beyond the free space of the ring are
  lost although they were counted as written.\<close>

theorem pty_slave_write_overreports:
  assumes "pty_inv ps" "idx < MAX_PTYS" "pp_alive (ps ! idx)"
  shows "\<exists>ps'. pty_write (slave_fd idx) d ps = (Inr (length d), ps') \<and> pty_inv ps' \<and>
     ring_contents (pp_slave_to_master (ps' ! idx)) =
       ring_contents (pp_slave_to_master (ps ! idx)) @
       take (PTY_BUF_SIZE - 1 - length (ring_contents (pp_slave_to_master (ps ! idx)))) (map line_discipline d)"
proof -
  have i: "ring_inv (pp_master_to_slave (ps ! idx))" "ring_inv (pp_slave_to_master (ps ! idx))"
    "length ps = MAX_PTYS" using pty_inv_nth [OF assms(1,2)] by auto
  from slave_write_fold [OF i(2), of d] assms i pty_fd_codec [OF assms(2)] show ?thesis
    by (auto simp: pty_write_def intro!: pty_inv_update)
qed

theorem pty_slave_write_overreports_witness:
  "\<exists>ps'. pty_write (slave_fd 3) (replicate 5000 13) (ptys_new[3 := pty_pair_new\<lparr> pp_alive := True \<rparr>]) =
       (Inr 5000, ps') \<and> ring_contents (pp_slave_to_master (ps' ! 3)) = replicate 4095 10"
proof -
  let ?ps = "ptys_new[3 := pty_pair_new\<lparr> pp_alive := True \<rparr>]"
  have inv: "pty_inv ?ps"
    by (intro pty_inv_update ptys_new_inv) (simp_all add: pty_pair_new_def ring_new_inv)
  have p3: "?ps ! 3 = pty_pair_new\<lparr> pp_alive := True \<rparr>" by (simp add: ptys_new_def kernel_defs)
  have "ring_contents ring_buf_new = []"
    by (simp add: ring_contents_def ring_available_def ring_buf_new_def)
  with p3 pty_slave_write_overreports [OF inv, of 3 "replicate 5000 13"] show ?thesis
    by (auto simp: pty_pair_new_def kernel_defs line_discipline_def)
qed

text \<open>The system call \<open>sys_pty_open\<close> returns a negative number whenever it succeeds: the tag byte of
  the master descriptor lands in the sign bit of the packed 64-bit result, so a caller that treats
  negative results as error numbers takes every success for a failure.\<close>

lemma sys_pty_open_success_is_negative:
  assumes "length ps = MAX_PTYS" "pty_open ps = (Inr fds, ps')"
  shows "sint (fst (sys_pty_open flags ps)) < 0"
proof -
  obtain idx where idx: "position (\<lambda>p. \<not> pp_alive p) ps = Some idx" "fds = (master_fd idx, slave_fd idx)"
    using assms(2) by (auto simp: pty_open_def split: option.splits)
  then have "idx < MAX_PTYS" using position_Some [OF idx(1)] assms(1) by simp
  from less_MAX_PTYS [OF this] show ?thesis
    using assms(2) idx by (auto simp: sys_pty_open_def master_fd_def slave_fd_def kernel_defs)
qed

lemma sys_pty_open_success_is_negative_witness:
  "sint (fst (sys_pty_open 0 ptys_new)) < 0"
proof -
  have "position (\<lambda>p. \<not> pp_alive p) ptys_new = Some 0"
    by (simp add: ptys_new_def pty_pair_new_def kernel_defs numeral_eq_Suc)
  then have "\<exists>fds ps'. pty_open ptys_new = (Inr fds, ps')" by (simp add: pty_open_def)
  then show ?thesis
    using sys_pty_open_success_is_negative [of ptys_new] by (auto simp: ptys_new_def)
qed

end
