(* ===== verification/Cortex_Mailbox.thy ===== *)
theory Cortex_Mailbox
  imports Ring_Queues
begin

text \<open>
  The mailbox between Cortex shards (\<^verbatim>\<open>kernel/src/cortex/ipc.rs\<close>): a ring of 32 messages that keeps one
  slot empty, \<open>post\<close> from any CPU and a drain loop in the interrupt handler.  The data path is modelled on
  the ring; the locking of the two functions, which guard the head, the tail and the buffer by three
  different spin locks, is modelled as a second, interleaved step relation.
\<close>

definition MAILBOX_CAP :: nat where [kernel_defs]: "MAILBOX_CAP = 32"

record ipc_msg =
  im_kind :: u8
  im_arg0 :: u64
  im_arg1 :: u64

definition ipc_msg_empty :: ipc_msg where
  "ipc_msg_empty = \<lparr> im_kind = 0, im_arg0 = 0, im_arg1 = 0 \<rparr>"

record mailbox =
  mb_buf :: "ipc_msg list"
  mb_head :: nat
  mb_tail :: nat

definition mailbox_new :: mailbox where
  "mailbox_new = \<lparr> mb_buf = replicate MAILBOX_CAP ipc_msg_empty, mb_head = 0, mb_tail = 0 \<rparr>"

definition mailbox_post :: "u8 \<Rightarrow> u64 \<Rightarrow> u64 \<Rightarrow> mailbox \<Rightarrow> mailbox" where
  "mailbox_post kind arg0 arg1 m =
     (let next = (mb_head m + 1) mod MAILBOX_CAP in
      if next = mb_tail m then m
      else m\<lparr> mb_buf := (mb_buf m)[mb_head m := \<lparr> im_kind = kind, im_arg0 = arg0, im_arg1 = arg1 \<rparr>],
              mb_head := next \<rparr>)"

text \<open>What the dispatcher asks other components to do.\<close>

datatype cortex_request = FlushPending | HealReloadDriver u64 | ReloadDriver u32 | UnhandledKind

definition mailbox_dispatch :: "ipc_msg \<Rightarrow> cortex_request" where
  "mailbox_dispatch msg =
     (if im_kind msg = 1 then FlushPending
      else if im_kind msg = 2 then HealReloadDriver (im_arg0 msg)
      else if im_kind msg = 3 then ReloadDriver (ucast (im_arg0 msg))
      else UnhandledKind)"

text \<open>The loop of \<^verbatim>\<open>handle_ipc_interrupt\<close>; \<open>None\<close> when the fuel does not suffice.\<close>

primrec mailbox_drain :: "nat \<Rightarrow> mailbox \<Rightarrow> (cortex_request list \<times> mailbox) option" where
  "mailbox_drain 0 m = (if mb_tail m = mb_head m then Some ([], m) else None)"
| "mailbox_drain (Suc fuel) m =
     (if mb_tail m = mb_head m then Some ([], m)
      else let msg = mb_buf m ! mb_tail m;
               m' = m\<lparr> mb_tail := (mb_tail m + 1) mod MAILBOX_CAP \<rparr>
           in map_option (\<lambda>(rs, m''). (mailbox_dispatch msg # rs, m'')) (mailbox_drain fuel m'))"

definition handle_ipc_interrupt :: "mailbox \<Rightarrow> (cortex_request list \<times> mailbox) option" where
  "handle_ipc_interrupt m = mailbox_drain MAILBOX_CAP m"

section \<open>The mailbox as a queue\<close>

definition mailbox_inv :: "mailbox \<Rightarrow> bool" where
  "mailbox_inv m \<longleftrightarrow> length (mb_buf m) = MAILBOX_CAP \<and> mb_head m < MAILBOX_CAP \<and> mb_tail m < MAILBOX_CAP"

definition mailbox_contents :: "mailbox \<Rightarrow> ipc_msg list" where
  "mailbox_contents m =
     ring_list (mb_buf m) (mb_tail m) ((mb_head m + MAILBOX_CAP - mb_tail m) mod MAILBOX_CAP)"

definition mailbox_push :: "ipc_msg \<Rightarrow> mailbox \<Rightarrow> bool \<times> mailbox" where
  "mailbox_push msg m =
     ((mb_head m + 1) mod MAILBOX_CAP \<noteq> mb_tail m,
      mailbox_post (im_kind msg) (im_arg0 msg) (im_arg1 msg) m)"

definition mailbox_pop :: "mailbox \<Rightarrow> ipc_msg option \<times> mailbox" where
  "mailbox_pop m =
     (if mb_tail m = mb_head m then (None, m)
      else (Some (mb_buf m ! mb_tail m), m\<lparr> mb_tail := (mb_tail m + 1) mod MAILBOX_CAP \<rparr>))"

lemma ipc_msg_eta [simp]: "\<lparr> im_kind = im_kind x, im_arg0 = im_arg0 x, im_arg1 = im_arg1 x \<rparr> = x"
  by simp

interpretation mailbox: bounded_fifo mailbox_inv mailbox_contents "MAILBOX_CAP - 1" mailbox_push mailbox_pop
proof unfold_locales
  fix m :: mailbox
  assume i: "mailbox_inv m"
  then have b: "mb_head m < MAILBOX_CAP" "mb_tail m < MAILBOX_CAP" "length (mb_buf m) = MAILBOX_CAP"
    by (simp_all add: mailbox_inv_def)
  let ?n = "(mb_head m + MAILBOX_CAP - mb_tail m) mod MAILBOX_CAP"
  have "?n < MAILBOX_CAP" using b by simp
  then show "length (mailbox_contents m) \<le> MAILBOX_CAP - 1" by (simp add: mailbox_contents_def)
  show "\<exists>m'. mailbox_push x m = (True, m') \<and> mailbox_inv m' \<and> mailbox_contents m' = mailbox_contents m @ [x]"
    if "length (mailbox_contents m) < MAILBOX_CAP - 1" for x
  proof -
    have room: "(mb_head m + 1) mod MAILBOX_CAP \<noteq> mb_tail m"
      using ring_count_full [OF b(1,2)] that by (simp add: mailbox_contents_def)
    show ?thesis
      using room b ring_count_push [OF b(1,2) room] ring_list_push [of ?n "mb_buf m" "mb_tail m" x]
      by (auto simp: mailbox_push_def mailbox_post_def mailbox_inv_def mailbox_contents_def)
  qed
  show "mailbox_push x m = (False, m)" if "length (mailbox_contents m) = MAILBOX_CAP - 1" for x
    using ring_count_full [OF b(1,2)] that
    by (simp add: mailbox_push_def mailbox_post_def mailbox_contents_def)
  show "mailbox_pop m = (None, m)" if "mailbox_contents m = []"
    using ring_count_empty [OF b(1,2)] that by (simp add: mailbox_contents_def mailbox_pop_def)
  show "\<exists>m'. mailbox_pop m = (Some x, m') \<and> mailbox_inv m' \<and> mailbox_contents m' = xs"
    if "mailbox_contents m = x # xs" for x xs
  proof -
    have ne: "mb_tail m \<noteq> mb_head m"
      using ring_count_empty [OF b(1,2)] arg_cong [OF that, of length] by (auto simp: mailbox_contents_def)
    show ?thesis
      using that ne b ring_count_pop [OF b(1,2) ne] ring_list_pop [of ?n "mb_tail m" "mb_buf m"]
      by (auto simp: mailbox_pop_def mailbox_inv_def mailbox_contents_def)
  qed
qed

lemma mailbox_drain_spec:
  assumes "mailbox_inv m" "length (mailbox_contents m) \<le> fuel"
  shows "\<exists>m'. mailbox_drain fuel m = Some (map mailbox_dispatch (mailbox_contents m), m') \<and>
           mailbox_inv m' \<and> mailbox_contents m' = []"
  using assms
proof (induction fuel arbitrary: m)
  case 0
  then have "mailbox_contents m = []" by simp
  with mailbox.pop_empty [OF 0(1)] 0 show ?case
    by (auto simp: mailbox_pop_def split: if_splits)
next
  case (Suc fuel)
  show ?case
  proof (cases "mailbox_contents m")
    case Nil
    with mailbox.pop_empty [OF Suc.prems(1)] Suc.prems show ?thesis
      by (auto simp: mailbox_pop_def split: if_splits)
  next
    case (Cons x xs)
    from mailbox.pop_first [OF Suc.prems(1) Cons] obtain m' where
      m': "mailbox_pop m = (Some x, m')" "mailbox_inv m'" "mailbox_contents m' = xs" by auto
    with Suc.IH [OF m'(2)] Suc.prems(2) Cons show ?thesis
      by (auto simp: mailbox_pop_def split: if_splits)
  qed
qed

section \<open>Locking\<close>

datatype lock = HeadLock | TailLock | BoxLock
datatype lock_action = Acquire lock | Release lock

text \<open>The lock operations of one \<^verbatim>\<open>post\<close> on a mailbox with room, and of one iteration of the drain loop
  on a non-empty mailbox, in program order.  A temporary guard (\<^verbatim>\<open>*MAILBOX_TAIL.lock()\<close>) is released at
  the end of its statement.\<close>

definition post_locks :: "lock_action list" where
  "post_locks = [Acquire HeadLock, Acquire TailLock, Release TailLock, Acquire BoxLock, Release BoxLock,
     Release HeadLock]"

definition drain_locks :: "lock_action list" where
  "drain_locks = [Acquire TailLock, Acquire HeadLock, Release HeadLock, Acquire BoxLock, Release BoxLock,
     Release TailLock]"

text \<open>Two CPUs, what each still has to do, and who holds each lock.\<close>

record lock_state =
  ls_todo :: "bool \<Rightarrow> lock_action list"
  ls_holder :: "lock \<Rightarrow> bool option"

inductive lock_step :: "lock_state \<Rightarrow> lock_state \<Rightarrow> bool" where
  acquire: "ls_todo s cpu = Acquire l # rest \<Longrightarrow> ls_holder s l = None \<Longrightarrow>
     lock_step s (s\<lparr> ls_todo := (ls_todo s)(cpu := rest), ls_holder := (ls_holder s)(l \<mapsto> cpu) \<rparr>)"
| release: "ls_todo s cpu = Release l # rest \<Longrightarrow>
     lock_step s (s\<lparr> ls_todo := (ls_todo s)(cpu := rest), ls_holder := (ls_holder s)(l := None) \<rparr>)"

definition post_drain_start :: lock_state where
  "post_drain_start = \<lparr> ls_todo = (\<lambda>cpu. if cpu then post_locks else drain_locks), ls_holder = (\<lambda>_. None) \<rparr>"

inductive_cases lock_stepE: "lock_step s s'"

section \<open>Properties\<close>

text \<open>The mailbox delivers every accepted message exactly once and in posting order: from any
  well-formed mailbox, posting a batch of messages keeps the first ones that fit (31 in all), and the next
  interrupt drains the mailbox to empty, dispatching the queued messages oldest first.  The drain loop
  always ends.\<close>

lemma mailbox_post_drain:
  assumes "mailbox_inv m" "m1 = fold (\<lambda>msg. mailbox_post (im_kind msg) (im_arg0 msg) (im_arg1 msg)) msgs m"
  shows "\<exists>m2. handle_ipc_interrupt m1 =
           Some (map mailbox_dispatch (mailbox_contents m @ take (MAILBOX_CAP - 1 - length (mailbox_contents m)) msgs), m2) \<and>
         mailbox_inv m2 \<and> mailbox_contents m2 = []"
proof -
  have "mailbox_inv m1 \<and> mailbox_contents m1 =
      mailbox_contents m @ take (MAILBOX_CAP - 1 - length (mailbox_contents m)) msgs"
    using assms
  proof (induction msgs arbitrary: m)
    case (Cons x xs)
    obtain ok m' where p: "mailbox_push x m = (ok, m')" by fastforce
    have "mailbox_post (im_kind x) (im_arg0 x) (im_arg1 x) m = m'"
      using p by (simp add: mailbox_push_def)
    with mailbox.push_cases [OF Cons.prems(1) p] Cons.IH [of m'] Cons.prems(2) show ?case
      by (cases ok) (auto simp: take_Cons' diff_Suc split: nat.splits)
  qed simp
  moreover from this have "length (mailbox_contents m1) \<le> MAILBOX_CAP"
    using mailbox.contents_cap [of m1] by auto
  ultimately show ?thesis
    using mailbox_drain_spec [of m1 MAILBOX_CAP] by (auto simp: handle_ipc_interrupt_def)
qed

lemma mailbox_post_drain_witness:
  "\<exists>m2. handle_ipc_interrupt (mailbox_post 3 7 0 (mailbox_post 1 0 0 mailbox_new)) =
      Some ([FlushPending, ReloadDriver 7], m2)"
proof -
  have "mailbox_inv mailbox_new" "mailbox_contents mailbox_new = []"
    by (simp_all add: mailbox_inv_def mailbox_contents_def mailbox_new_def kernel_defs)
  then show ?thesis
    using mailbox_post_drain [of mailbox_new _
        "[\<lparr> im_kind = 1, im_arg0 = 0, im_arg1 = 0 \<rparr>, \<lparr> im_kind = 3, im_arg0 = 7, im_arg1 = 0 \<rparr>]", OF _ refl]
    by (auto simp: mailbox_dispatch_def kernel_defs)
qed

text \<open>C26.  Posting and draining can deadlock: \<open>post\<close> takes the head lock and then the tail lock, the drain
  loop the tail lock and then the head lock, so with one CPU in each of them a state is reachable in which
  both wait for the lock the other holds and no step is possible.\<close>

theorem mailbox_lock_order_deadlock:
  "\<exists>s. lock_step\<^sup>*\<^sup>* post_drain_start s \<and> ls_todo s True \<noteq> [] \<and> ls_todo s False \<noteq> [] \<and>
     (\<forall>s'. \<not> lock_step s s')"
proof -
  define s1 where "s1 = \<lparr> ls_todo = (\<lambda>cpu. if cpu then tl post_locks else drain_locks),
    ls_holder = (\<lambda>_. None)(HeadLock \<mapsto> True) \<rparr>"
  define s2 where "s2 = \<lparr> ls_todo = (\<lambda>cpu. if cpu then tl post_locks else tl drain_locks),
    ls_holder = (\<lambda>_. None)(HeadLock \<mapsto> True, TailLock \<mapsto> False) \<rparr>"
  have "lock_step post_drain_start s1"
    using lock_step.acquire [of post_drain_start True HeadLock "tl post_locks"]
    by (simp add: post_drain_start_def s1_def post_locks_def fun_upd_def if_distrib cong: if_cong)
  moreover have "lock_step s1 s2"
  proof -
    have "s1\<lparr> ls_todo := (ls_todo s1)(False := tl drain_locks), ls_holder := (ls_holder s1)(TailLock \<mapsto> False) \<rparr> = s2"
      by (simp add: s1_def s2_def fun_eq_iff)
    then show ?thesis
      using lock_step.acquire [of s1 False TailLock "tl drain_locks"] by (simp add: s1_def drain_locks_def)
  qed
  ultimately have "lock_step\<^sup>*\<^sup>* post_drain_start s2" by (meson rtranclp.simps)
  moreover have "\<not> lock_step s2 s'" for s'
  proof
    assume "lock_step s2 s'"
    then show False
      by (cases rule: lock_stepE)
        (auto simp: s2_def post_locks_def drain_locks_def split: if_splits)
  qed
  ultimately show ?thesis
    by (intro exI [of _ s2]) (simp add: s2_def post_locks_def drain_locks_def)
qed

end
