(* ===== verification/Proc_Table.thy ===== *)
theory Proc_Table
  imports Frame_Alloc "HOL-Library.Monad_Syntax"
begin

text \<open>
  The process table (\<^verbatim>\<open>kernel/src/process/mod.rs\<close>) and the capability sets of its entries
  (\<^verbatim>\<open>kernel/src/security/mod.rs\<close>): process descriptors, thread groups, pid allocation, spawning,
  threads, fork, exit, kill, waiting and reaping, wake-ups, signals and time slices.  The x86-64
  fields of the descriptor are modelled; those compiled for aarch64 only are not.

  An operation that only reads or writes the table is a function on the list of descriptors.  An
  operation that also allocates pids, kernel stacks or page tables works on the record
  \<open>kproc\<close>, which holds the statics it touches; the calls it makes into other subsystems are
  appended to the list \<open>kp_calls\<close>.  The paging, ELF loading and anonymous-mapping routines a
  spawn calls are the fields of \<open>paging_ops\<close>, each threading the frame bitmap.
\<close>

section \<open>Capabilities\<close>

type_synonym capabilities = u64

definition CAP_CORTEX :: capabilities where [kernel_defs]: "CAP_CORTEX = push_bit 0 1"
definition CAP_NET :: capabilities where [kernel_defs]: "CAP_NET = push_bit 2 1"
definition CAP_PROC :: capabilities where [kernel_defs]: "CAP_PROC = push_bit 4 1"
definition ALL_CAPS :: capabilities where [kernel_defs]: "ALL_CAPS = mask 9"
definition NO_CAPS :: capabilities where [kernel_defs]: "NO_CAPS = 0"

definition caps_check :: "capabilities \<Rightarrow> capabilities \<Rightarrow> bool" where
  "caps_check holder required \<longleftrightarrow> holder AND required = required"

section \<open>Descriptors\<close>

definition USER_STACK_TOP :: u64 where [kernel_defs]: "USER_STACK_TOP = 0x00007FFFFFFF0000"
definition USER_STACK_SIZE :: nat where [kernel_defs]: "USER_STACK_SIZE = 4 * 1024 * 1024"
definition SYSCALL_STACK_SIZE :: nat where [kernel_defs]: "SYSCALL_STACK_SIZE = 64 * 1024"
definition XSTATE_SIZE :: nat where [kernel_defs]: "XSTATE_SIZE = 4096"
definition HOST_MODE_SHELL :: u64 where [kernel_defs]: "HOST_MODE_SHELL = 1"
definition HOST_MODE_APP :: u64 where [kernel_defs]: "HOST_MODE_APP = 2"
definition MAX_CPUS :: nat where [kernel_defs]: "MAX_CPUS = 64"

datatype proc_state = Dead | Running | Blocked | Zombie i32

definition is_zombie :: "proc_state \<Rightarrow> bool" where
  "is_zombie s = (case s of Zombie _ \<Rightarrow> True | _ \<Rightarrow> False)"

record user_regs =
  r_rip :: u64
  r_rsp :: u64
  r_rflags :: u64
  r_rax :: u64
  r_rbx :: u64
  r_rcx :: u64
  r_rdx :: u64
  r_rsi :: u64
  r_rdi :: u64
  r_rbp :: u64
  r_r8 :: u64
  r_r9 :: u64
  r_r10 :: u64
  r_r11 :: u64
  r_r12 :: u64
  r_r13 :: u64
  r_r14 :: u64
  r_r15 :: u64

definition user_regs_default :: user_regs where
  "user_regs_default = \<lparr> r_rip = 0, r_rsp = 0, r_rflags = 0, r_rax = 0, r_rbx = 0, r_rcx = 0,
     r_rdx = 0, r_rsi = 0, r_rdi = 0, r_rbp = 0, r_r8 = 0, r_r9 = 0, r_r10 = 0, r_r11 = 0,
     r_r12 = 0, r_r13 = 0, r_r14 = 0, r_r15 = 0 \<rparr>"

definition xstate_zero :: bytes where
  "xstate_zero = replicate XSTATE_SIZE 0"

definition xstate_default :: bytes where
  "xstate_default = xstate_zero[0 := 0x7F, 1 := 0x03, 24 := 0x80, 25 := 0x1F]"

record process =
  p_pid :: u32
  p_pml4_phys :: u64
  p_regs :: user_regs
  p_state :: proc_state
  p_exit_code :: i32
  p_caps :: capabilities
  p_syscall_stack_base :: u64
  p_syscall_stack_top :: u64
  p_xstate :: bytes
  p_is_thread :: bool
  p_parent_pid :: u32
  p_cpu_ticks :: u64
  p_slice_left :: u32
  p_pending_sigs :: u32
  p_sig_mask :: u32
  p_sig_handlers :: "u64 list"
  p_fs_base :: u64
  p_errno_to_deliver :: u32
  p_preempted_by_timer :: bool
  p_user_stack_base :: u64
  p_user_stack_size :: u64
  p_current_cpu :: "u32 option"
  p_is_preemptable :: bool
  p_home_cpu :: u32

definition process_empty :: process where
  "process_empty = \<lparr> p_pid = 0, p_pml4_phys = 0, p_regs = user_regs_default, p_state = Dead,
     p_exit_code = 0, p_caps = NO_CAPS, p_syscall_stack_base = 0, p_syscall_stack_top = 0,
     p_xstate = xstate_zero, p_is_thread = False, p_parent_pid = 0, p_cpu_ticks = 0,
     p_slice_left = 10, p_pending_sigs = 0, p_sig_mask = 0, p_sig_handlers = replicate 32 0,
     p_fs_base = 0, p_errno_to_deliver = 0, p_preempted_by_timer = False, p_user_stack_base = 0,
     p_user_stack_size = 0, p_current_cpu = None, p_is_preemptable = True, p_home_cpu = 0 \<rparr>"

type_synonym ptable = "process list"

definition ptable_new :: ptable where
  "ptable_new = replicate MAX_PROCS process_empty"

definition idx_of :: "u32 \<Rightarrow> nat" where
  "idx_of pid = unat pid mod MAX_PROCS"

text \<open>\<^verbatim>\<open>let p = &PTABLE[idx_of(pid)]\<close>, and the guarded write \<^verbatim>\<open>if p.pid == pid { ... }\<close> that almost
every table operation consists of.\<close>

definition proc_at :: "ptable \<Rightarrow> u32 \<Rightarrow> process" where
  "proc_at t pid = t ! idx_of pid"

definition update_pid :: "u32 \<Rightarrow> (process \<Rightarrow> process) \<Rightarrow> ptable \<Rightarrow> ptable" where
  "update_pid pid f t = (if p_pid (proc_at t pid) = pid then t[idx_of pid := f (proc_at t pid)] else t)"

section \<open>Reading and updating one descriptor\<close>

definition set_proc_fs_base :: "u32 \<Rightarrow> u64 \<Rightarrow> ptable \<Rightarrow> ptable" where
  "set_proc_fs_base pid fs = update_pid pid (p_fs_base_update (\<lambda>_. fs))"

definition get_proc_fs_base :: "u32 \<Rightarrow> ptable \<Rightarrow> u64" where
  "get_proc_fs_base pid t = (if p_pid (proc_at t pid) = pid then p_fs_base (proc_at t pid) else 0)"

definition get_user_stack_bounds :: "u32 \<Rightarrow> ptable \<Rightarrow> u64 \<times> u64" where
  "get_user_stack_bounds pid t =
     (if p_pid (proc_at t pid) = pid
      then (p_user_stack_base (proc_at t pid), p_user_stack_size (proc_at t pid)) else (0, 0))"

definition is_thread :: "u32 \<Rightarrow> ptable \<Rightarrow> bool" where
  "is_thread pid t \<longleftrightarrow> p_pid (proc_at t pid) = pid \<and> p_is_thread (proc_at t pid)"

text \<open>The walk up the chain of parents is a loop without a bound: it does not end on a cyclic chain.\<close>

partial_function (option) get_group_leader :: "ptable \<Rightarrow> u32 \<Rightarrow> u32 option" where
  "get_group_leader t cur =
     (let p = proc_at t cur in
      if p_pid p = cur \<and> p_is_thread p \<and> p_parent_pid p \<noteq> 0
      then get_group_leader t (p_parent_pid p) else Some cur)"

definition set_bootstrap_regs :: "u32 \<Rightarrow> u64 \<Rightarrow> u64 \<Rightarrow> u64 \<Rightarrow> ptable \<Rightarrow> ptable" where
  "set_bootstrap_regs pid rdi rsi rdx =
     update_pid pid (\<lambda>p. p\<lparr>p_regs := (p_regs p)\<lparr>r_rdi := rdi, r_rsi := rsi, r_rdx := rdx\<rparr>\<rparr>)"

definition claim_process_on_cpu :: "u32 \<Rightarrow> u32 \<Rightarrow> ptable \<Rightarrow> ptable" where
  "claim_process_on_cpu pid cpu_id = update_pid pid (\<lambda>p. p\<lparr>p_current_cpu := Some cpu_id\<rparr>)"

text \<open>The lock of the table is taken with \<^verbatim>\<open>try_lock\<close> in interrupt context: \<open>locked\<close> says whether
it was obtained.\<close>

definition set_preemptable :: "bool \<Rightarrow> u32 \<Rightarrow> bool \<Rightarrow> ptable \<Rightarrow> ptable" where
  "set_preemptable locked pid value t =
     (if locked then update_pid pid (\<lambda>p. p\<lparr>p_is_preemptable := value\<rparr>) t else t)"

definition is_preemptable :: "bool \<Rightarrow> u32 \<Rightarrow> ptable \<Rightarrow> bool" where
  "is_preemptable locked pid t \<longleftrightarrow>
     (if locked \<and> p_pid (proc_at t pid) = pid then p_is_preemptable (proc_at t pid) else True)"

definition home_cpu_of :: "u32 \<Rightarrow> ptable \<Rightarrow> u32" where
  "home_cpu_of pid t = (if p_pid (proc_at t pid) = pid then p_home_cpu (proc_at t pid) else 0)"

definition home_cpu_of_try :: "bool \<Rightarrow> u32 \<Rightarrow> ptable \<Rightarrow> u32 option" where
  "home_cpu_of_try locked pid t = (if locked then Some (home_cpu_of pid t) else None)"

definition caps_of :: "u32 \<Rightarrow> ptable \<Rightarrow> capabilities" where
  "caps_of pid t =
     (if p_pid (proc_at t pid) = pid \<and> p_state (proc_at t pid) \<noteq> Dead then p_caps (proc_at t pid)
      else NO_CAPS)"

definition has_caps :: "u32 \<Rightarrow> capabilities \<Rightarrow> ptable \<Rightarrow> bool" where
  "has_caps current_pid required t = caps_check (caps_of current_pid t) required"

definition user_root :: "u32 \<Rightarrow> ptable \<Rightarrow> u64" where
  "user_root pid t =
     (if pid = 0 then 0 else if p_pid (proc_at t pid) = pid then p_pml4_phys (proc_at t pid) else 0)"

definition get_regs :: "u32 \<Rightarrow> ptable \<Rightarrow> user_regs option" where
  "get_regs pid t =
     (if p_pid (proc_at t pid) = pid \<and> p_state (proc_at t pid) = Running
      then Some (p_regs (proc_at t pid)) else None)"

definition save_regs :: "u32 \<Rightarrow> user_regs \<Rightarrow> ptable \<Rightarrow> ptable" where
  "save_regs pid regs = update_pid pid (\<lambda>p. p\<lparr>p_regs := regs\<rparr>)"

definition try_claim_cpu_for :: "u32 \<Rightarrow> u32 \<Rightarrow> ptable \<Rightarrow> bool \<times> ptable" where
  "try_claim_cpu_for pid my_cpu t =
     (let p = proc_at t pid in
      if p_pid p = pid \<and> p_state p = Running
         \<and> (p_current_cpu p = None \<or> p_current_cpu p = Some my_cpu)
      then (True, t[idx_of pid := p\<lparr>p_current_cpu := Some my_cpu\<rparr>]) else (False, t))"

definition try_claim_cpu_for_try :: "bool \<Rightarrow> u32 \<Rightarrow> u32 \<Rightarrow> u32 \<Rightarrow> ptable \<Rightarrow> bool \<times> ptable" where
  "try_claim_cpu_for_try locked cpu_count pid my_cpu t =
     (if \<not> locked then (False, t)
      else let p = proc_at t pid in
      if p_pid p = pid \<and> p_state p = Running then
        (if 1 < cpu_count \<and> p_home_cpu p \<noteq> my_cpu then (False, t)
         else if p_current_cpu p = None \<or> p_current_cpu p = Some my_cpu
         then (True, t[idx_of pid := p\<lparr>p_current_cpu := Some my_cpu\<rparr>]) else (False, t))
      else (False, t))"

record user_context =
  uc_pid :: u32
  uc_pml4_phys :: u64
  uc_regs :: user_regs
  uc_syscall_stack_top :: u64

definition get_user_context :: "u32 \<Rightarrow> ptable \<Rightarrow> user_context option" where
  "get_user_context pid t =
     (let p = proc_at t pid in
      if p_pid p \<noteq> pid \<or> p_state p \<noteq> Running then None
      else Some \<lparr> uc_pid = pid, uc_pml4_phys = p_pml4_phys p, uc_regs = p_regs p,
                  uc_syscall_stack_top = p_syscall_stack_top p \<rparr>)"

definition pml4_phys_of :: "u32 \<Rightarrow> ptable \<Rightarrow> u64 option" where
  "pml4_phys_of pid t =
     (let p = proc_at t pid in
      if p_pid p = pid \<and> p_state p \<noteq> Dead then Some (p_pml4_phys p) else None)"

definition syscall_stack_top_of :: "u32 \<Rightarrow> ptable \<Rightarrow> u64 option" where
  "syscall_stack_top_of pid t =
     (let p = proc_at t pid in
      if pid = 0 then None
      else if p_pid p = pid \<and> p_state p = Running then Some (p_syscall_stack_top p) else None)"

definition proc_count :: "ptable \<Rightarrow> nat" where
  "proc_count t = length (filter (\<lambda>p. p_state p \<noteq> Dead) t)"

definition set_rax :: "u32 \<Rightarrow> u64 \<Rightarrow> ptable \<Rightarrow> ptable" where
  "set_rax pid val = update_pid pid (\<lambda>p. p\<lparr>p_regs := (p_regs p)\<lparr>r_rax := val\<rparr>\<rparr>)"

definition set_errno_to_deliver :: "u32 \<Rightarrow> u32 \<Rightarrow> ptable \<Rightarrow> ptable" where
  "set_errno_to_deliver pid errno = update_pid pid (\<lambda>p. p\<lparr>p_errno_to_deliver := errno\<rparr>)"

definition take_errno_to_deliver :: "u32 \<Rightarrow> ptable \<Rightarrow> u32 \<times> ptable" where
  "take_errno_to_deliver pid t =
     (if p_pid (proc_at t pid) = pid
      then (p_errno_to_deliver (proc_at t pid), update_pid pid (\<lambda>p. p\<lparr>p_errno_to_deliver := 0\<rparr>) t)
      else (0, t))"

definition get_saved_rax :: "u32 \<Rightarrow> ptable \<Rightarrow> u64" where
  "get_saved_rax pid t = (if p_pid (proc_at t pid) = pid then r_rax (p_regs (proc_at t pid)) else 0)"

definition get_saved_rip_rsp :: "u32 \<Rightarrow> ptable \<Rightarrow> (u64 \<times> u64) option" where
  "get_saved_rip_rsp pid t =
     (if p_pid (proc_at t pid) = pid
      then Some (r_rip (p_regs (proc_at t pid)), r_rsp (p_regs (proc_at t pid))) else None)"

definition is_blocked :: "u32 \<Rightarrow> ptable \<Rightarrow> bool" where
  "is_blocked pid t \<longleftrightarrow> p_pid (proc_at t pid) = pid \<and> p_state (proc_at t pid) = Blocked"

definition is_blocked_try :: "bool \<Rightarrow> u32 \<Rightarrow> ptable \<Rightarrow> bool" where
  "is_blocked_try locked pid t \<longleftrightarrow> locked \<and> is_blocked pid t"

definition set_child_parent :: "u32 \<Rightarrow> u32 \<Rightarrow> ptable \<Rightarrow> ptable" where
  "set_child_parent child_pid parent_pid = update_pid child_pid (\<lambda>p. p\<lparr>p_parent_pid := parent_pid\<rparr>)"

definition get_parent_of :: "u32 \<Rightarrow> ptable \<Rightarrow> u32 option" where
  "get_parent_of pid t =
     (let p = proc_at t pid in
      if p_pid p = pid \<and> p_parent_pid p \<noteq> 0 then Some (p_parent_pid p) else None)"

definition find_tid_by_fs_base :: "u64 \<Rightarrow> ptable \<Rightarrow> u32 option" where
  "find_tid_by_fs_base fs t = map_option p_pid (find (\<lambda>p. p_state p \<noteq> Dead \<and> p_fs_base p = fs) t)"

definition get_fs_base :: "u32 \<Rightarrow> ptable \<Rightarrow> u64" where
  "get_fs_base pid t =
     (let p = proc_at t pid in if p_pid p = pid \<and> p_state p \<noteq> Dead then p_fs_base p else 0)"

section \<open>Saved contexts\<close>

definition SYSCALL_INSN_LEN :: u64 where [kernel_defs]: "SYSCALL_INSN_LEN = 2"

text \<open>The general-purpose registers of the last system call entry are kept per CPU; \<open>captured\<close> is the
flag of that CPU, \<open>snap\<close> its snapshot.\<close>

definition save_full_user_gprs :: "user_regs \<Rightarrow> u32 \<Rightarrow> bool \<times> ptable \<Rightarrow> bool \<times> ptable" where
  "save_full_user_gprs snap pid = (\<lambda>(captured, t).
     if captured then (True, t)
     else (True, update_pid pid (\<lambda>p. p\<lparr>p_regs := (p_regs p)\<lparr>
       r_rdi := r_rdi snap, r_rsi := r_rsi snap, r_rdx := r_rdx snap, r_r10 := r_r10 snap,
       r_r8 := r_r8 snap, r_r9 := r_r9 snap, r_rbx := r_rbx snap, r_rbp := r_rbp snap,
       r_r12 := r_r12 snap, r_r13 := r_r13 snap, r_r14 := r_r14 snap, r_r15 := r_r15 snap\<rparr>\<rparr>) t))"

definition capture_user_gprs_at_entry :: "user_regs \<Rightarrow> u32 \<Rightarrow> bool \<times> ptable \<Rightarrow> bool \<times> ptable" where
  "capture_user_gprs_at_entry snap pid = (\<lambda>(captured, t). save_full_user_gprs snap pid (False, t))"

definition save_return_context :: "u64 \<Rightarrow> u32 \<Rightarrow> u64 \<Rightarrow> u64 \<Rightarrow> ptable \<Rightarrow> ptable" where
  "save_return_context fs pid rip rsp =
     update_pid pid (\<lambda>p. p\<lparr>p_regs := (p_regs p)\<lparr>r_rip := rip, r_rsp := rsp, r_rflags := 0x202\<rparr>,
       p_preempted_by_timer := False, p_fs_base := fs\<rparr>)"

definition save_return_context_reexec :: "u64 \<Rightarrow> u32 \<Rightarrow> u64 \<Rightarrow> u64 \<Rightarrow> ptable \<Rightarrow> ptable" where
  "save_return_context_reexec fs pid urip ursp = save_return_context fs pid (urip - SYSCALL_INSN_LEN) ursp"

definition save_cooperative_yield_context ::
    "user_regs \<Rightarrow> u64 \<Rightarrow> u32 \<Rightarrow> u64 \<Rightarrow> u64 \<Rightarrow> bool \<times> ptable \<Rightarrow> bool \<times> ptable" where
  "save_cooperative_yield_context snap fs pid rip rsp ct =
     (let (captured, t) = save_full_user_gprs snap pid ct in
      (captured, update_pid pid (\<lambda>p. p\<lparr>p_regs := (p_regs p)\<lparr>r_rip := rip, r_rsp := rsp,
         r_rflags := 0x202, r_rcx := rip, r_r11 := 0x202\<rparr>,
         p_preempted_by_timer := True, p_fs_base := fs\<rparr>) t))"

section \<open>States, time slices and signals\<close>

text \<open>The returned flag says whether the reschedule interrupt is broadcast.\<close>

definition set_state :: "u32 \<Rightarrow> proc_state \<Rightarrow> ptable \<Rightarrow> bool \<times> ptable" where
  "set_state pid st t =
     (let p = proc_at t pid in
      (p_pid p = pid \<and> st = Running \<and> p_state p \<noteq> Running, update_pid pid (\<lambda>p. p\<lparr>p_state := st\<rparr>) t))"

text \<open>The try-lock variant also returns whether it stored the state.\<close>

definition set_state_try :: "bool \<Rightarrow> u32 \<Rightarrow> proc_state \<Rightarrow> ptable \<Rightarrow> bool \<times> bool \<times> ptable" where
  "set_state_try locked pid st t =
     (if locked \<and> p_pid (proc_at t pid) = pid then (True, set_state pid st t) else (False, False, t))"

definition account_tick :: "u32 \<Rightarrow> ptable \<Rightarrow> bool \<times> ptable" where
  "account_tick pid t =
     (let p = proc_at t pid in
      if p_pid p \<noteq> pid \<or> p_state p \<noteq> Running then (False, t)
      else let left = (if 0 < p_slice_left p then p_slice_left p - 1 else p_slice_left p);
               preempt = (left = 0)
           in (preempt, t[idx_of pid := p\<lparr>p_cpu_ticks := p_cpu_ticks p + 1,
                                          p_slice_left := (if preempt then 10 else left)\<rparr>]))"

definition account_tick_try :: "bool \<Rightarrow> u32 \<Rightarrow> ptable \<Rightarrow> bool option \<times> ptable" where
  "account_tick_try locked pid t =
     (if locked then (Some (fst (account_tick pid t)), snd (account_tick pid t)) else (None, t))"

definition get_cpu_ticks :: "u32 \<Rightarrow> ptable \<Rightarrow> u64" where
  "get_cpu_ticks pid t = (if p_pid (proc_at t pid) = pid then p_cpu_ticks (proc_at t pid) else 0)"

definition raise_signal :: "u32 \<Rightarrow> u8 \<Rightarrow> ptable \<Rightarrow> ptable" where
  "raise_signal pid sig t =
     (if sig = 0 \<or> 31 < sig then t
      else if p_state (proc_at t pid) \<noteq> Dead
      then update_pid pid (\<lambda>p. p\<lparr>p_pending_sigs := p_pending_sigs p OR push_bit (unat (sig - 1)) 1\<rparr>) t
      else t)"

definition dequeue_signal :: "u32 \<Rightarrow> ptable \<Rightarrow> (u8 \<times> u64) option \<times> ptable" where
  "dequeue_signal pid t =
     (let p = proc_at t pid; deliverable = p_pending_sigs p AND NOT (p_sig_mask p) in
      if p_pid p \<noteq> pid \<or> deliverable = 0 then (None, t)
      else let b = trailing_zeros deliverable in
        (Some (of_nat b + 1, p_sig_handlers p ! b),
         t[idx_of pid := p\<lparr>p_pending_sigs := p_pending_sigs p AND NOT (push_bit b 1)\<rparr>]))"

definition set_signal_handler :: "u32 \<Rightarrow> u8 \<Rightarrow> u64 \<Rightarrow> ptable \<Rightarrow> ptable" where
  "set_signal_handler pid sig handler_va t =
     (if sig = 0 \<or> 31 < sig then t
      else update_pid pid (\<lambda>p. p\<lparr>p_sig_handlers := (p_sig_handlers p)[unat (sig - 1) := handler_va]\<rparr>) t)"

definition set_signal_mask :: "u32 \<Rightarrow> u32 \<Rightarrow> ptable \<Rightarrow> ptable" where
  "set_signal_mask pid m = update_pid pid (\<lambda>p. p\<lparr>p_sig_mask := m\<rparr>)"

section \<open>Waiting and reaping\<close>

datatype wait_error = NoSuchProcess | NotExited

definition waitpid :: "u32 \<Rightarrow> ptable \<Rightarrow> (wait_error + i32) \<times> ptable" where
  "waitpid pid t =
     (let p = proc_at t pid in
      if p_pid p \<noteq> pid \<or> p_state p = Dead then (Inl NoSuchProcess, t)
      else case p_state p of
        Zombie code \<Rightarrow> (Inr code, t[idx_of pid := process_empty])
      | _ \<Rightarrow> (Inl NotExited, t))"

definition zombie_child :: "u32 \<Rightarrow> process \<Rightarrow> bool" where
  "zombie_child parent p \<longleftrightarrow> p_pid p \<noteq> 0 \<and> p_parent_pid p = parent \<and> is_zombie (p_state p)"

definition reap_one_zombie :: "u32 \<Rightarrow> ptable \<Rightarrow> (u32 \<times> i32) option \<times> ptable" where
  "reap_one_zombie parent t =
     (case position (zombie_child parent) t of
        None \<Rightarrow> (None, t)
      | Some i \<Rightarrow> (Some (p_pid (t ! i), p_exit_code (t ! i)), t[i := process_empty]))"

definition reap_zombie_children :: "u32 \<Rightarrow> ptable \<Rightarrow> nat \<times> ptable" where
  "reap_zombie_children parent t =
     (length (filter (zombie_child parent) t),
      map (\<lambda>p. if zombie_child parent p then process_empty else p) t)"

definition reap_zombie :: "u32 \<Rightarrow> ptable \<Rightarrow> ptable" where
  "reap_zombie pid t =
     (if p_pid (proc_at t pid) = pid \<and> is_zombie (p_state (proc_at t pid))
      then t[idx_of pid := process_empty] else t)"

section \<open>Wake-ups\<close>

text \<open>The pending wakes are eight words of 32 bits; a set bit names a slot of the table.  The inner loop
of the handler clears the lowest set bit of its mask and wakes that slot if it is blocked.\<close>

lemma clear_lowest_less:
  fixes w :: "'a::len word"
  assumes "w \<noteq> 0"
  shows "w AND NOT (push_bit (trailing_zeros w) 1) < w"
proof -
  have "bit w (trailing_zeros w)" by (rule trailing_zeros_bit(1) [OF assms])
  then have "bit (w AND NOT (push_bit (trailing_zeros w) 1)) (trailing_zeros w) \<noteq> bit w (trailing_zeros w)"
    by (simp add: bit_simps del: push_bit_of_1)
  then have "w AND NOT (push_bit (trailing_zeros w) 1) \<noteq> w" by metis
  then show ?thesis by (simp add: word_and_le2 order_less_le)
qed

function wake_word :: "nat \<Rightarrow> u32 \<Rightarrow> bool \<times> ptable \<Rightarrow> bool \<times> ptable" where
  "wake_word word active_mask (bc, t) =
     (if active_mask = 0 then (bc, t)
      else let b = trailing_zeros active_mask; i = word * 32 + b; p = t ! i in
        wake_word word (active_mask AND NOT (push_bit b 1))
          (if p_pid p \<noteq> 0 \<and> p_state p = Blocked then (True, t[i := p\<lparr>p_state := Running\<rparr>]) else (bc, t)))"
  by pat_completeness auto
termination
  by (relation "measure (\<lambda>(word, m, s). unat m)")
     (auto intro!: unat_mono clear_lowest_less simp del: push_bit_of_1)

definition handle_pending_wakes_try :: "bool \<Rightarrow> u32 list \<times> ptable \<Rightarrow> bool \<times> u32 list \<times> ptable" where
  "handle_pending_wakes_try locked = (\<lambda>(wakes, t).
     if \<not> (\<exists>w \<in> set wakes. w \<noteq> 0) \<or> \<not> locked then (False, wakes, t)
     else let (bc, t') = fold (\<lambda>word. wake_word word (wakes ! word)) [0..<8] (False, t)
          in (bc, replicate 8 0, t'))"

definition wake_process :: "bool \<Rightarrow> u32 \<Rightarrow> u32 list \<times> ptable \<Rightarrow> bool \<times> u32 list \<times> ptable" where
  "wake_process locked pid = (\<lambda>(wakes, t).
     let word = idx_of pid div 32; b = idx_of pid mod 32;
         wakes' = (if word < 8 then wakes[word := wakes ! word OR push_bit b 1] else wakes)
     in handle_pending_wakes_try locked (wakes', t))"

section \<open>The process subsystem\<close>

text \<open>Calls into other subsystems, in the order they are made.\<close>

datatype proc_call =
    FreeUserPml4 u64
  | UnmapUserRange u64 u64 u64
  | RecycleAnonVa u32 u64 u64
  | NoteThreadExit u32 u32 i32
  | CloneAsSlot u64 u64
  | WriteUser u64 u64
  | BroadcastReschedIpi

record kproc =
  kp_table :: ptable
  kp_wakes :: "u32 list"
  kp_next_pid :: u32
  kp_frames :: frame_bitmap
  kp_hhdm :: u64
  kp_cpu_count :: u32
  kp_next_app_cpu :: u32
  kp_home_work :: "bool list"
  kp_calls :: "proc_call list"

definition kcall :: "proc_call \<Rightarrow> kproc \<Rightarrow> kproc" where
  "kcall c s = s\<lparr>kp_calls := kp_calls s @ [c]\<rparr>"

record paging_ops =
  po_alloc_user_pml4 :: "frame_bitmap \<Rightarrow> u64 option \<times> frame_bitmap"
  po_elf_load :: "bytes \<Rightarrow> u64 \<Rightarrow> frame_bitmap \<Rightarrow> (string + u64) \<times> frame_bitmap"
  po_map_user_page :: "u64 \<Rightarrow> u64 \<Rightarrow> u64 \<Rightarrow> frame_bitmap \<Rightarrow> string option \<times> frame_bitmap"
  po_map_system_pages :: "u64 \<Rightarrow> frame_bitmap \<Rightarrow> string option \<times> frame_bitmap"
  po_mmap_anon :: "u32 \<Rightarrow> u64 \<Rightarrow> nat \<Rightarrow> frame_bitmap \<Rightarrow> u64 \<times> frame_bitmap"
  po_clone_address_space :: "u64 \<Rightarrow> frame_bitmap \<Rightarrow> (string + u64) \<times> frame_bitmap"
  po_thread_return_va :: u64

subsection \<open>Pids and kernel stacks\<close>

primrec alloc_pid_from :: "nat \<Rightarrow> ptable \<Rightarrow> u32 \<Rightarrow> u32 option \<times> u32" where
  "alloc_pid_from 0 t next_pid = (None, next_pid)"
| "alloc_pid_from (Suc n) t next_pid =
     (if p_state (t ! (unat next_pid mod MAX_PROCS)) = Dead then (Some next_pid, next_pid + 1)
      else alloc_pid_from n t (next_pid + 1))"

definition alloc_pid :: "kproc \<Rightarrow> u32 option \<times> kproc" where
  "alloc_pid s =
     (let (r, next_pid) = alloc_pid_from MAX_PROCS (kp_table s) (kp_next_pid s)
      in (r, s\<lparr>kp_next_pid := next_pid\<rparr>))"

definition STACK_FRAMES :: nat where
  "STACK_FRAMES = (SYSCALL_STACK_SIZE + 4095) div 4096"

definition alloc_syscall_stack :: "kproc \<Rightarrow> (u64 \<times> u64) option \<times> kproc" where
  "alloc_syscall_stack s =
     (case alloc_contiguous STACK_FRAMES (kp_frames s) of
        (None, fb) \<Rightarrow> (None, s\<lparr>kp_frames := fb\<rparr>)
      | (Some phys, fb) \<Rightarrow>
          (Some (phys + kp_hhdm s, phys + kp_hhdm s + of_nat (STACK_FRAMES * 4096)),
           s\<lparr>kp_frames := fb\<rparr>))"

definition free_syscall_stack :: "u64 \<Rightarrow> kproc \<Rightarrow> kproc" where
  "free_syscall_stack ptr s =
     (if ptr = 0 \<or> ptr < kp_hhdm s then s
      else s\<lparr>kp_frames := fold (\<lambda>i. frame_free (ptr - kp_hhdm s + of_nat i * 4096)) [0..<STACK_FRAMES]
               (kp_frames s)\<rparr>)"

definition pick_home_cpu_for_app :: "kproc \<Rightarrow> u32 \<times> kproc" where
  "pick_home_cpu_for_app s =
     (if kp_cpu_count s \<le> 1 then (0, s)
      else (1 + (kp_next_app_cpu s mod (kp_cpu_count s - 1)),
            s\<lparr>kp_next_app_cpu := kp_next_app_cpu s + 1\<rparr>))"

definition mark_cpu_has_work :: "u32 \<Rightarrow> kproc \<Rightarrow> kproc" where
  "mark_cpu_has_work cpu s =
     (if unat cpu < MAX_CPUS then s\<lparr>kp_home_work := (kp_home_work s)[unat cpu := True]\<rparr> else s)"

definition cpu_has_home_work :: "u32 \<Rightarrow> kproc \<Rightarrow> bool" where
  "cpu_has_home_work cpu s \<longleftrightarrow> unat cpu < MAX_CPUS \<and> kp_home_work s ! unat cpu"

subsection \<open>Exit and kill\<close>

definition is_anon :: "u64 \<Rightarrow> bool" where
  "is_anon va \<longleftrightarrow> 0x300000000 \<le> va \<and> va < 0x10000000000"

text \<open>The memory an exiting process gives back: a process its page tables, a thread its own stack and
TLS page when they lie in the window of anonymous mappings.\<close>

definition exit_releases :: "u32 \<Rightarrow> process \<Rightarrow> proc_call list" where
  "exit_releases pid p =
     (if \<not> p_is_thread p then [FreeUserPml4 (p_pml4_phys p)]
      else (if p_user_stack_base p \<noteq> 0 \<and> p_user_stack_size p \<noteq> 0 \<and> is_anon (p_user_stack_base p)
            then [UnmapUserRange (p_pml4_phys p) (p_user_stack_base p) (p_user_stack_size p),
                  RecycleAnonVa pid (p_user_stack_base p) (p_user_stack_size p)] else [])
         @ (if p_fs_base p \<noteq> 0 \<and> is_anon (p_fs_base p)
            then [UnmapUserRange (p_pml4_phys p) (p_fs_base p) 4096,
                  RecycleAnonVa pid (p_fs_base p) 4096] else []))"

definition exited :: "i32 \<Rightarrow> process \<Rightarrow> process" where
  "exited code p = p\<lparr>p_syscall_stack_base := 0, p_syscall_stack_top := 0, p_state := Zombie code,
     p_exit_code := code, p_current_cpu := None\<rparr>"

text \<open>\<^const>\<open>None\<close> is an exit that does not return because the walk to the group leader does not end.\<close>

definition proc_exit :: "u32 \<Rightarrow> i32 \<Rightarrow> kproc \<Rightarrow> kproc option" where
  "proc_exit pid code s =
     (let p = proc_at (kp_table s) pid in
      if p_pid p \<noteq> pid \<or> p_state p = Dead then Some s
      else
        let s1 = fold kcall (exit_releases pid p) s;
            s2 = free_syscall_stack (p_syscall_stack_base p) s1;
            s3 = s2\<lparr>kp_table := (kp_table s2)[idx_of pid := exited code p]\<rparr>
        in do {
          leader \<leftarrow> get_group_leader (kp_table s3) pid;
          Some (kcall (NoteThreadExit leader pid code) s3)
        })"

definition SIGKILL_CODE :: i32 where "SIGKILL_CODE = - 9"

definition proc_kill :: "u32 \<Rightarrow> kproc \<Rightarrow> (bool \<times> kproc) option" where
  "proc_kill pid s =
     (let p = proc_at (kp_table s) pid in
      if p_pid p \<noteq> pid \<or> p_state p = Dead then Some (False, s)
      else do { s' \<leftarrow> proc_exit pid SIGKILL_CODE s; Some (True, s') })"

text \<open>The victims of a group kill are collected first, in slot order, and then exited one by one.\<close>

primrec group_victims :: "u32 \<Rightarrow> ptable \<Rightarrow> process list \<Rightarrow> u32 list option" where
  "group_victims leader t [] = Some []"
| "group_victims leader t (p # ps) =
     (if p_pid p = 0 \<or> is_zombie (p_state p) \<or> p_state p = Dead then group_victims leader t ps
      else do {
        l \<leftarrow> get_group_leader t (p_pid p);
        vs \<leftarrow> group_victims leader t ps;
        Some (if l = leader then p_pid p # vs else vs)
      })"

primrec exit_all :: "u32 list \<Rightarrow> kproc \<Rightarrow> kproc option" where
  "exit_all [] s = Some s"
| "exit_all (v # vs) s = do { s' \<leftarrow> proc_exit v SIGKILL_CODE s; exit_all vs s' }"

definition kill_group :: "u32 \<Rightarrow> kproc \<Rightarrow> (nat \<times> kproc) option" where
  "kill_group leader s = do {
     vs \<leftarrow> group_victims leader (kp_table s) (kp_table s);
     s' \<leftarrow> exit_all vs s;
     Some (length vs, s') }"

primrec group_members :: "u32 \<Rightarrow> ptable \<Rightarrow> process list \<Rightarrow> u32 list option" where
  "group_members grp t [] = Some []"
| "group_members grp t (p # ps) =
     (if p_pid p = 0 then group_members grp t ps
      else do {
        l \<leftarrow> get_group_leader t (p_pid p);
        vs \<leftarrow> group_members grp t ps;
        Some (if l = grp then p_pid p # vs else vs)
      })"

definition sibling_pids :: "u32 \<Rightarrow> ptable \<Rightarrow> u32 list option" where
  "sibling_pids current t =
     (if p_pid (proc_at t current) \<noteq> current then Some []
      else do { grp \<leftarrow> get_group_leader t current; group_members grp t t })"

subsection \<open>Spawning\<close>

record spawn_bootstrap =
  sb_rdi :: u64
  sb_rsi :: u64
  sb_rdx :: u64
  sb_parent_pid :: u32

text \<open>The loop that backs the user stack: one fresh frame per page, mapped at consecutive addresses.\<close>

primrec map_user_stack :: "paging_ops \<Rightarrow> u64 \<Rightarrow> u64 \<Rightarrow> nat \<Rightarrow> frame_bitmap \<Rightarrow> string option \<times> frame_bitmap" where
  "map_user_stack po pml4 virt 0 fb = (None, fb)"
| "map_user_stack po pml4 virt (Suc n) fb =
     (case frame_alloc fb of
        (None, fb') \<Rightarrow> (Some ''OOM: stack'', fb')
      | (Some phys, fb') \<Rightarrow>
          (case po_map_user_page po pml4 virt phys fb' of
             (Some e, fb'') \<Rightarrow> (Some e, fb'')
           | (None, fb'') \<Rightarrow> map_user_stack po pml4 (virt + 4096) n fb''))"

text \<open>The slot of a freshly spawned process; the home CPU is chosen while the slot is written.\<close>

definition spawned :: "u32 \<Rightarrow> u64 \<Rightarrow> u64 \<Rightarrow> u64 \<times> u64 \<Rightarrow> u32 \<Rightarrow> spawn_bootstrap \<Rightarrow> process \<Rightarrow> process" where
  "spawned pid pml4 entry stk home bs p = p\<lparr>
     p_pid := pid, p_pml4_phys := pml4,
     p_regs := user_regs_default\<lparr>r_rip := entry, r_rsp := USER_STACK_TOP - 8, r_rdi := sb_rdi bs,
       r_rsi := sb_rsi bs, r_rdx := sb_rdx bs, r_rflags := 0x0202\<rparr>,
     p_state := Running, p_exit_code := 0,
     p_caps := (if sb_rdi bs = HOST_MODE_SHELL then ALL_CAPS else CAP_NET),
     p_home_cpu := home,
     p_syscall_stack_base := fst stk, p_syscall_stack_top := snd stk, p_xstate := xstate_default,
     p_is_thread := False, p_parent_pid := sb_parent_pid bs, p_fs_base := 0,
     p_user_stack_base := USER_STACK_TOP - of_nat USER_STACK_SIZE,
     p_user_stack_size := of_nat USER_STACK_SIZE,
     p_current_cpu := None, p_cpu_ticks := 0, p_slice_left := 10, p_pending_sigs := 0,
     p_sig_mask := 0, p_sig_handlers := replicate 32 0, p_errno_to_deliver := 0,
     p_preempted_by_timer := False\<rparr>"

definition home_cpu_for :: "spawn_bootstrap \<Rightarrow> kproc \<Rightarrow> u32 \<times> kproc" where
  "home_cpu_for bs s = (if sb_rdi bs = HOST_MODE_APP then pick_home_cpu_for_app s else (0, s))"

text \<open>The block that writes the slot under the table lock.\<close>

definition install_spawned :: "u32 \<Rightarrow> u64 \<Rightarrow> u64 \<Rightarrow> u64 \<times> u64 \<Rightarrow> spawn_bootstrap \<Rightarrow> kproc \<Rightarrow> kproc" where
  "install_spawned pid pml4 entry stk bs s =
     (let (home, s1) = home_cpu_for bs s;
          s2 = (if home \<noteq> 0 then mark_cpu_has_work home s1 else s1)
      in s2\<lparr>kp_table := (kp_table s2)[idx_of pid :=
           spawned pid pml4 entry stk home bs (proc_at (kp_table s2) pid)]\<rparr>)"

text \<open>The steps in between, which only touch physical memory: a fresh top-level table, the ELF
segments, the user stack and the system pages.\<close>

definition build_address_space :: "paging_ops \<Rightarrow> bytes \<Rightarrow> frame_bitmap \<Rightarrow> (string + u64 \<times> u64) \<times> frame_bitmap" where
  "build_address_space po elf fb =
     (case po_alloc_user_pml4 po fb of
        (None, fb) \<Rightarrow> (Inl ''OOM: pml4'', fb)
      | (Some pml4, fb) \<Rightarrow>
     (case po_elf_load po elf pml4 fb of
        (Inl e, fb) \<Rightarrow> (Inl e, fb)
      | (Inr entry, fb) \<Rightarrow>
     (case map_user_stack po pml4 (USER_STACK_TOP - of_nat USER_STACK_SIZE) (USER_STACK_SIZE div 4096) fb of
        (Some e, fb) \<Rightarrow> (Inl e, fb)
      | (None, fb) \<Rightarrow>
     (case po_map_system_pages po pml4 fb of
        (Some e, fb) \<Rightarrow> (Inl e, fb)
      | (None, fb) \<Rightarrow> (Inr (pml4, entry), fb)))))"

definition spawn_with_bootstrap ::
    "paging_ops \<Rightarrow> bytes \<Rightarrow> spawn_bootstrap \<Rightarrow> kproc \<Rightarrow> (string + u32) \<times> kproc" where
  "spawn_with_bootstrap po elf bs s =
     (case alloc_pid s of
        (None, s1) \<Rightarrow> (Inl ''process table full'', s1)
      | (Some pid, s1) \<Rightarrow>
     (case alloc_syscall_stack s1 of
        (None, s2) \<Rightarrow> (Inl ''OOM: syscall stack'', s2)
      | (Some stk, s2) \<Rightarrow>
     (case build_address_space po elf (kp_frames s2) of
        (Inl e, fb) \<Rightarrow> (Inl e, s2\<lparr>kp_frames := fb\<rparr>)
      | (Inr (pml4, entry), fb) \<Rightarrow>
          (Inr pid, kcall BroadcastReschedIpi
             (install_spawned pid pml4 entry stk bs (s2\<lparr>kp_frames := fb\<rparr>))))))"

definition spawn :: "paging_ops \<Rightarrow> bytes \<Rightarrow> kproc \<Rightarrow> (string + u32) \<times> kproc" where
  "spawn po elf = spawn_with_bootstrap po elf \<lparr> sb_rdi = 0, sb_rsi = 0, sb_rdx = 0, sb_parent_pid = 0 \<rparr>"

subsection \<open>Threads and fork\<close>

definition spawned_thread ::
    "u32 \<Rightarrow> u64 \<Rightarrow> u32 \<Rightarrow> user_regs \<Rightarrow> u64 \<times> u64 \<Rightarrow> u32 \<Rightarrow> capabilities \<Rightarrow> u64 \<Rightarrow> u64 \<Rightarrow> u64 \<Rightarrow> process \<Rightarrow> process" where
  "spawned_thread tid pml4 home regs stk owner caps tls stack_va stack_size p = p\<lparr>
     p_pid := tid, p_pml4_phys := pml4, p_home_cpu := home, p_regs := regs, p_state := Running,
     p_exit_code := 0, p_syscall_stack_base := fst stk, p_syscall_stack_top := snd stk,
     p_xstate := xstate_default, p_is_thread := True, p_parent_pid := owner, p_caps := caps,
     p_fs_base := tls, p_user_stack_base := stack_va, p_user_stack_size := stack_size,
     p_current_cpu := None\<rparr>"

text \<open>The user stack and the TLS page of a new thread, mapped in the address space of its parent; the
kernel stack at \<open>sys_stack_base\<close> is given back when either mapping fails.\<close>

definition map_thread_memory ::
    "paging_ops \<Rightarrow> u32 \<Rightarrow> u64 \<Rightarrow> nat \<Rightarrow> u64 \<Rightarrow> kproc \<Rightarrow> (string + u64 \<times> u64) \<times> kproc" where
  "map_thread_memory po parent_pid pml4 stack_size sys_stack_base s =
     (case po_mmap_anon po parent_pid pml4 ((stack_size + 4095) div 4096) (kp_frames s) of
        (stack_va, fb) \<Rightarrow>
          if stack_va = - 1
          then (Inl ''OOM: thread stack'', free_syscall_stack sys_stack_base (s\<lparr>kp_frames := fb\<rparr>))
          else
            let s1 = kcall (WriteUser (stack_va + of_nat stack_size - 8) (po_thread_return_va po))
                       (s\<lparr>kp_frames := fb\<rparr>)
            in (case po_mmap_anon po parent_pid pml4 1 (kp_frames s1) of
                  (tls_va, fb) \<Rightarrow>
                    if tls_va = - 1
                    then (Inl ''OOM: thread TLS'', free_syscall_stack sys_stack_base (s1\<lparr>kp_frames := fb\<rparr>))
                    else (Inr (stack_va, tls_va), kcall (WriteUser tls_va tls_va) (s1\<lparr>kp_frames := fb\<rparr>))))"

definition spawn_thread ::
    "paging_ops \<Rightarrow> u32 \<Rightarrow> u64 \<Rightarrow> u64 \<Rightarrow> nat \<Rightarrow> kproc \<Rightarrow> ((string + u32) \<times> kproc) option" where
  "spawn_thread po parent_pid entry_fn arg stack_size s =
     (let parent = proc_at (kp_table s) parent_pid in
      if p_pid parent \<noteq> parent_pid \<or> p_state parent = Dead then Some (Inl ''parent not found'', s)
      else do {
        owner \<leftarrow> get_group_leader (kp_table s) parent_pid;
        Some (case alloc_pid s of
          (None, s1) \<Rightarrow> (Inl ''process table full'', s1)
        | (Some tid, s1) \<Rightarrow>
       (case alloc_syscall_stack s1 of
          (None, s2) \<Rightarrow> (Inl ''OOM: syscall stack'', s2)
        | (Some stk, s2) \<Rightarrow>
       (case map_thread_memory po parent_pid (p_pml4_phys parent) stack_size (fst stk) s2 of
          (Inl e, s3) \<Rightarrow> (Inl e, s3)
        | (Inr (stack_va, tls_va), s3) \<Rightarrow>
            let t = kp_table s3;
                regs = user_regs_default\<lparr>r_rip := entry_fn, r_rdi := arg,
                         r_rsp := stack_va + of_nat stack_size - 8, r_rflags := 0x0202\<rparr>
            in (Inr tid, s3\<lparr>kp_table := t[idx_of tid :=
                  spawned_thread tid (p_pml4_phys parent) (p_home_cpu parent) regs stk owner
                    (p_caps (proc_at t owner)) tls_va stack_va (of_nat stack_size) (proc_at t tid)]\<rparr>))))
      })"

definition cloned_thread ::
    "u32 \<Rightarrow> u64 \<Rightarrow> user_regs \<Rightarrow> u64 \<times> u64 \<Rightarrow> u32 \<Rightarrow> capabilities \<Rightarrow> process \<Rightarrow> process" where
  "cloned_thread tid pml4 regs stk owner caps p = p\<lparr>
     p_pid := tid, p_pml4_phys := pml4, p_regs := regs, p_state := Running, p_exit_code := 0,
     p_syscall_stack_base := fst stk, p_syscall_stack_top := snd stk, p_xstate := xstate_default,
     p_is_thread := True, p_parent_pid := owner, p_caps := caps, p_fs_base := 0,
     p_current_cpu := None, p_cpu_ticks := 0, p_slice_left := 10, p_pending_sigs := 0,
     p_sig_mask := 0, p_sig_handlers := replicate 32 0, p_errno_to_deliver := 0,
     p_preempted_by_timer := False, p_user_stack_base := 0, p_user_stack_size := 0\<rparr>"

text \<open>\<open>captured\<close> and \<open>snap\<close> are the per-CPU register snapshot that \<^const>\<open>save_full_user_gprs\<close> reads.\<close>

definition clone_thread ::
    "bool \<Rightarrow> user_regs \<Rightarrow> u32 \<Rightarrow> u64 \<Rightarrow> u64 \<Rightarrow> kproc \<Rightarrow> ((string + u32) \<times> kproc) option" where
  "clone_thread captured snap parent_pid child_rip child_rsp s0 =
     (let s = s0\<lparr>kp_table := snd (save_full_user_gprs snap parent_pid (captured, kp_table s0))\<rparr>;
          parent = proc_at (kp_table s) parent_pid in
      if p_pid parent \<noteq> parent_pid \<or> p_state parent = Dead then Some (Inl ''parent not found'', s)
      else do {
        owner \<leftarrow> get_group_leader (kp_table s) parent_pid;
        Some (case alloc_pid s of
          (None, s1) \<Rightarrow> (Inl ''process table full'', s1)
        | (Some tid, s1) \<Rightarrow>
       (case alloc_syscall_stack s1 of
          (None, s2) \<Rightarrow> (Inl ''OOM: syscall stack'', s2)
        | (Some stk, s2) \<Rightarrow>
            let t = kp_table s2;
                regs = (p_regs (proc_at t parent_pid))\<lparr>r_rip := child_rip, r_rsp := child_rsp, r_rax := 0,
                         r_rflags := 0x0202\<rparr>
            in (Inr tid, s2\<lparr>kp_table := t[idx_of tid :=
                  cloned_thread tid (p_pml4_phys parent) regs stk owner (p_caps (proc_at t owner))
                    (proc_at t tid)]\<rparr>)))
      })"

definition forked :: "u32 \<Rightarrow> u64 \<Rightarrow> user_regs \<Rightarrow> u64 \<times> u64 \<Rightarrow> u32 \<Rightarrow> capabilities \<Rightarrow> process \<Rightarrow> process" where
  "forked child_pid pml4 regs stk parent_pid caps p = p\<lparr>
     p_pid := child_pid, p_pml4_phys := pml4, p_regs := regs\<lparr>r_rax := 0\<rparr>, p_state := Running,
     p_exit_code := 0, p_syscall_stack_base := fst stk, p_syscall_stack_top := snd stk,
     p_is_thread := False, p_parent_pid := parent_pid, p_caps := caps, p_cpu_ticks := 0,
     p_slice_left := 10, p_pending_sigs := 0, p_sig_mask := 0, p_sig_handlers := replicate 32 0\<rparr>"

definition fork_current ::
    "paging_ops \<Rightarrow> bool \<Rightarrow> user_regs \<Rightarrow> u32 \<Rightarrow> kproc \<Rightarrow> (string + u32) \<times> kproc" where
  "fork_current po captured snap parent_pid s0 =
     (if parent_pid = 0 then (Inl ''fork from kernel'', s0)
      else
        let s = s0\<lparr>kp_table := snd (save_full_user_gprs snap parent_pid (captured, kp_table s0))\<rparr> in
        case alloc_pid s of
          (None, s1) \<Rightarrow> (Inl ''too many processes'', s1)
        | (Some child_pid, s1) \<Rightarrow>
            let p = proc_at (kp_table s1) parent_pid in
            (case po_clone_address_space po (p_pml4_phys p) (kp_frames s1) of
               (Inl e, fb) \<Rightarrow> (Inl e, s1\<lparr>kp_frames := fb\<rparr>)
             | (Inr child_pml4, fb) \<Rightarrow>
                 (case alloc_syscall_stack (kcall (CloneAsSlot (p_pml4_phys p) child_pml4) (s1\<lparr>kp_frames := fb\<rparr>)) of
                    (None, s2) \<Rightarrow> (Inl ''no memory for child stack'', s2)
                  | (Some stk, s2) \<Rightarrow>
                      let t = kp_table s2
                      in (Inr child_pid, s2\<lparr>kp_table := t[idx_of child_pid :=
                            forked child_pid child_pml4 (p_regs p) stk parent_pid
                              (p_caps (proc_at t parent_pid)) (proc_at t child_pid)]\<rparr>))))"

end
