(* ===== verification/Proc_Life.thy ===== *)
theory Proc_Life
  imports Proc_Table
begin

text \<open>
  The life of the process table: an invariant of the table that every operation of
  \<open>Proc_Table\<close> keeps, from which the walk to the group leader always ends after at most one
  step, so that no exit or kill hangs; completeness of the pid scan; wake-ups that are never
  lost; termination of whole groups; signals and time slices.
\<close>

section \<open>The invariant\<close>

text \<open>\<open>n\<close> bounds the pids handed out so far.\<close>

definition slot_ok :: "nat \<Rightarrow> nat \<Rightarrow> process \<Rightarrow> bool" where
  "slot_ok n i p \<longleftrightarrow>
     (if p_state p = Dead then p_pid p = 0 \<and> \<not> p_is_thread p \<and> p_xstate p = xstate_zero
      else idx_of (p_pid p) = i \<and> unat (p_pid p) < n) \<and>
     (p_is_thread p \<longrightarrow> p_parent_pid p \<noteq> 0 \<and> unat (p_parent_pid p) < n)"

definition flat_groups :: "ptable \<Rightarrow> bool" where
  "flat_groups t \<longleftrightarrow> (\<forall>i < MAX_PROCS. \<forall>j < MAX_PROCS.
     p_is_thread (t ! i) \<longrightarrow> p_is_thread (t ! j) \<longrightarrow> p_pid (t ! j) \<noteq> p_parent_pid (t ! i))"

definition table_inv :: "nat \<Rightarrow> ptable \<Rightarrow> bool" where
  "table_inv n t \<longleftrightarrow> length t = MAX_PROCS \<and> (\<forall>i < MAX_PROCS. slot_ok n i (t ! i)) \<and> flat_groups t"

lemma idx_of_less [simp]: "idx_of pid < MAX_PROCS" "idx_of pid < 256"
  by (simp_all add: idx_of_def MAX_PROCS_def)

lemma length_update_pid [simp]: "length (update_pid pid f t) = length t"
  by (simp add: update_pid_def)

lemma table_inv_length: "table_inv n t \<Longrightarrow> length t = MAX_PROCS"
  by (simp add: table_inv_def)

lemma table_inv_slot: "table_inv n t \<Longrightarrow> i < MAX_PROCS \<Longrightarrow> slot_ok n i (t ! i)"
  by (simp add: table_inv_def)

lemma slot_ok_mono: "slot_ok n i p \<Longrightarrow> n \<le> m \<Longrightarrow> slot_ok m i p"
  by (auto simp: slot_ok_def split: if_splits)

lemma table_inv_mono: "table_inv n t \<Longrightarrow> n \<le> m \<Longrightarrow> table_inv m t"
  by (auto simp: table_inv_def intro: slot_ok_mono)

lemma slot_ok_empty [simp]: "slot_ok n i process_empty"
  by (simp add: slot_ok_def process_empty_def)

lemma table_inv_new: "table_inv n ptable_new"
  by (auto simp: table_inv_def ptable_new_def flat_groups_def process_empty_def slot_ok_def)

lemma proc_at_update [simp]:
  "length t = MAX_PROCS \<Longrightarrow> proc_at (t[idx_of pid := p]) pid = p"
  by (simp add: proc_at_def)

lemma table_inv_set:
  assumes inv: "table_inv n t" and i: "i < MAX_PROCS" and ok: "slot_ok n i p"
    and flat: "p_is_thread p \<Longrightarrow> p_pid p \<noteq> p_parent_pid p \<and>
      (\<forall>j < MAX_PROCS. p_is_thread (t ! j) \<longrightarrow> p_pid (t ! j) \<noteq> p_parent_pid p \<and> p_pid p \<noteq> p_parent_pid (t ! j))"
  shows "table_inv n (t[i := p])"
  unfolding table_inv_def flat_groups_def
proof (intro conjI allI impI)
  show "length (t[i := p]) = MAX_PROCS" using inv by (simp add: table_inv_def)
  show "slot_ok n j (t[i := p] ! j)" if "j < MAX_PROCS" for j
    using inv ok i that by (cases "j = i") (auto simp: table_inv_def)
  show "p_pid (t[i := p] ! k) \<noteq> p_parent_pid (t[i := p] ! j)"
    if "j < MAX_PROCS" "k < MAX_PROCS" "p_is_thread (t[i := p] ! j)" "p_is_thread (t[i := p] ! k)" for j k
    using inv flat i that
    by (cases "j = i"; cases "k = i") (auto simp: table_inv_def flat_groups_def)
qed

text \<open>A write that keeps pid, state, kind and parent keeps the invariant; so does one between the two
live states, and one that makes a slot empty or a process a non-thread.\<close>

lemma table_inv_same:
  assumes inv: "table_inv n t" and i: "i < MAX_PROCS"
    and same: "p_pid p = p_pid (t ! i)" "p_is_thread p = p_is_thread (t ! i)"
      "p_parent_pid p = p_parent_pid (t ! i)" "p_xstate p = p_xstate (t ! i)"
    and st: "p_state p = Dead \<Longrightarrow> p_state (t ! i) = Dead"
      "p_state (t ! i) = Dead \<Longrightarrow> p_state p \<noteq> Dead \<Longrightarrow> i = 0 \<and> 0 < n"
  shows "table_inv n (t[i := p])"
proof (rule table_inv_set [OF inv i])
  show "slot_ok n i p"
    using table_inv_slot [OF inv i] same st by (auto simp: slot_ok_def idx_of_def split: if_splits)
  show "p_is_thread p \<Longrightarrow> p_pid p \<noteq> p_parent_pid p \<and>
      (\<forall>j < MAX_PROCS. p_is_thread (t ! j) \<longrightarrow> p_pid (t ! j) \<noteq> p_parent_pid p \<and> p_pid p \<noteq> p_parent_pid (t ! j))"
    using inv i same by (auto simp: table_inv_def flat_groups_def)
qed

lemma table_inv_process:
  assumes "table_inv n t" "i < MAX_PROCS" "slot_ok n i p" "\<not> p_is_thread p"
  shows "table_inv n (t[i := p])"
  by (rule table_inv_set) (use assms in auto)

lemma table_inv_empty: "table_inv n t \<Longrightarrow> i < MAX_PROCS \<Longrightarrow> table_inv n (t[i := process_empty])"
  by (rule table_inv_process) (auto simp: process_empty_def slot_ok_def)

definition keeps_identity :: "(process \<Rightarrow> process) \<Rightarrow> bool" where
  "keeps_identity f \<longleftrightarrow> (\<forall>p. p_pid (f p) = p_pid p \<and> p_is_thread (f p) = p_is_thread p \<and>
     p_parent_pid (f p) = p_parent_pid p \<and> p_xstate (f p) = p_xstate p \<and> p_state (f p) = p_state p)"

lemma table_inv_update_pid:
  assumes "table_inv n t" "keeps_identity f"
  shows "table_inv n (update_pid pid f t)"
proof (cases "p_pid (proc_at t pid) = pid")
  case True
  have "table_inv n (t[idx_of pid := f (proc_at t pid)])"
    by (rule table_inv_same [OF assms(1)])
       (use assms(2) in \<open>auto simp: keeps_identity_def proc_at_def\<close>)
  then show ?thesis using True by (simp add: update_pid_def)
qed (use assms(1) in \<open>simp add: update_pid_def\<close>)

section \<open>Thread groups\<close>

text \<open>In a table that satisfies the invariant the walk ends after at most one step.\<close>

lemma get_group_leader_eq:
  assumes inv: "table_inv n t"
  shows "get_group_leader t pid = Some (if is_thread pid t then p_parent_pid (proc_at t pid) else pid)"
proof (cases "is_thread pid t")
  case False
  then show ?thesis
    by (subst get_group_leader.simps) (auto simp: is_thread_def Let_def)
next
  case True
  let ?p = "proc_at t pid"
  let ?q = "proc_at t (p_parent_pid ?p)"
  have p: "p_pid ?p = pid" "p_is_thread ?p" using True by (simp_all add: is_thread_def)
  have "slot_ok n (idx_of pid) ?p"
    unfolding proc_at_def by (rule table_inv_slot [OF inv]) simp
  then have "p_parent_pid ?p \<noteq> 0" using p by (simp add: slot_ok_def split: if_splits)
  moreover have "\<not> (p_pid ?q = p_parent_pid ?p \<and> p_is_thread ?q)"
    using inv p unfolding table_inv_def flat_groups_def proc_at_def by (metis idx_of_less(1))
  ultimately show ?thesis using p True
    by (subst get_group_leader.simps, subst get_group_leader.simps) (auto simp: Let_def)
qed

section \<open>Pids\<close>

lemma unat_Suc_bounded: "unat k + 1 < 2 ^ 32 \<Longrightarrow> unat (k + 1) = unat k + 1" for k :: u32
  by (simp add: unat_word_ariths)

lemma alloc_pid_from_Some:
  assumes "alloc_pid_from m t k = (Some pid, k')" "unat k + m < 2 ^ 32"
  shows "p_state (proc_at t pid) = Dead" "unat k \<le> unat pid" "unat k' = unat pid + 1" "unat k' \<le> unat k + m"
proof -
  have "p_state (proc_at t pid) = Dead \<and> unat k \<le> unat pid \<and> unat k' = unat pid + 1 \<and> unat k' \<le> unat k + m"
    using assms
  proof (induction m arbitrary: k)
    case (Suc m)
    have k1: "unat (k + 1) = unat k + 1" using Suc.prems(2) by (intro unat_Suc_bounded) simp
    show ?case
    proof (cases "p_state (t ! (unat k mod MAX_PROCS)) = Dead")
      case True
      then show ?thesis using Suc.prems k1 by (auto simp: proc_at_def idx_of_def)
    next
      case False
      then have "alloc_pid_from m t (k + 1) = (Some pid, k')" using Suc.prems(1) by simp
      from Suc.IH [OF this] show ?thesis using Suc.prems(2) k1 by simp
    qed
  qed simp
  then show "p_state (proc_at t pid) = Dead" "unat k \<le> unat pid" "unat k' = unat pid + 1" "unat k' \<le> unat k + m"
    by simp_all
qed

lemma alloc_pid_from_None_next:
  "alloc_pid_from m t k = (None, k') \<Longrightarrow> k' = k + of_nat m"
proof (induction m arbitrary: k)
  case (Suc m)
  then have "alloc_pid_from m t (k + 1) = (None, k')" by (simp split: if_splits)
  from Suc.IH [OF this] show ?case by (simp add: add.assoc)
qed simp

lemma slot_of_offset: "unat (k + of_nat j :: u32) mod MAX_PROCS = (unat k + j) mod MAX_PROCS"
proof -
  have "unat (k + of_nat j :: u32) = (unat k + j) mod 2 ^ 32"
    by (simp add: unat_word_ariths unat_of_nat take_bit_eq_mod mod_simps)
  moreover have "(256::nat) dvd 2 ^ 32" by simp
  ultimately show ?thesis by (simp add: MAX_PROCS_def mod_mod_cancel)
qed

lemma alloc_pid_from_None_iff:
  "fst (alloc_pid_from m t k) = None \<longleftrightarrow> (\<forall>j < m. p_state (t ! ((unat k + j) mod MAX_PROCS)) \<noteq> Dead)"
proof (induction m arbitrary: k)
  case (Suc m)
  have shift: "(unat (k + 1) + j) mod MAX_PROCS = (unat k + Suc j) mod MAX_PROCS" for j
    using slot_of_offset [of k 1] by (metis Suc_eq_plus1_left add.assoc mod_add_left_eq of_nat_1)
  have "(\<forall>j < Suc m. p_state (t ! ((unat k + j) mod MAX_PROCS)) \<noteq> Dead) \<longleftrightarrow>
      p_state (t ! (unat k mod MAX_PROCS)) \<noteq> Dead \<and> (\<forall>j < m. p_state (t ! ((unat k + Suc j) mod MAX_PROCS)) \<noteq> Dead)"
    by (metis add.right_neutral less_Suc_eq_0_disj)
  then show ?case by (simp add: Suc.IH shift)
qed simp

lemma alloc_pid_from_Some_dead:
  "fst (alloc_pid_from m t k) = Some pid \<Longrightarrow> p_state (proc_at t pid) = Dead"
  by (induction m arbitrary: k) (auto simp: proc_at_def idx_of_def split: if_splits)

lemma every_slot_visited: "i < MAX_PROCS \<Longrightarrow> \<exists>j < MAX_PROCS. (k + j) mod MAX_PROCS = i"
proof -
  assume i: "i < MAX_PROCS"
  let ?j = "(i + (MAX_PROCS - k mod MAX_PROCS)) mod MAX_PROCS"
  have "(k + ?j) mod MAX_PROCS = (k mod MAX_PROCS + (i + (MAX_PROCS - k mod MAX_PROCS))) mod MAX_PROCS"
    by (simp add: mod_simps)
  also have "\<dots> = (i + MAX_PROCS) mod MAX_PROCS"
    using mod_less_divisor [of MAX_PROCS k] by (simp add: MAX_PROCS_def)
  finally have "(k + ?j) mod MAX_PROCS = i" using i by simp
  moreover have "?j < MAX_PROCS" by (simp add: MAX_PROCS_def)
  ultimately show ?thesis by blast
qed

lemma alloc_pid_None_iff:
  "fst (alloc_pid s) = None \<longleftrightarrow> (\<forall>i < MAX_PROCS. p_state (kp_table s ! i) \<noteq> Dead)"
proof -
  have "fst (alloc_pid s) = None \<longleftrightarrow> fst (alloc_pid_from MAX_PROCS (kp_table s) (kp_next_pid s)) = None"
    by (simp add: alloc_pid_def split: prod.split)
  also have "\<dots> = (\<forall>j < MAX_PROCS. p_state (kp_table s ! ((unat (kp_next_pid s) + j) mod MAX_PROCS)) \<noteq> Dead)"
    by (rule alloc_pid_from_None_iff)
  also have "\<dots> = (\<forall>i < MAX_PROCS. p_state (kp_table s ! i) \<noteq> Dead)"
    by (metis every_slot_visited mod_less_divisor less_nat_zero_code not_gr_zero)
  finally show ?thesis .
qed

lemma alloc_pid_slot:
  assumes "alloc_pid s = (r, s')"
  shows "kp_table s' = kp_table s" "r = Some pid \<Longrightarrow> p_state (proc_at (kp_table s) pid) = Dead"
  using assms alloc_pid_from_Some_dead [of MAX_PROCS "kp_table s" "kp_next_pid s" pid]
  by (auto simp: alloc_pid_def split: prod.splits)

text \<open>C21.  The scan for a free pid is complete whatever pids are in use, also across the wrap-around of
  the 32-bit counter: a pid is returned exactly when some slot of the table is free, its slot is then
  free, and the table is not changed.\<close>

theorem alloc_pid_complete:
  "(\<exists>pid s'. alloc_pid s = (Some pid, s')) = (\<exists>i < MAX_PROCS. p_state (kp_table s ! i) = Dead)
   \<and> (case alloc_pid s of
        (Some pid, s') \<Rightarrow> p_state (proc_at (kp_table s) pid) = Dead \<and> kp_table s' = kp_table s
      | (None, s') \<Rightarrow> kp_table s' = kp_table s)"
proof -
  obtain r s' where r: "alloc_pid s = (r, s')" by fastforce
  show ?thesis using alloc_pid_None_iff [of s] alloc_pid_slot [OF r] by (cases r) (auto simp: r)
qed

section \<open>Every operation keeps the invariant\<close>

definition proc_inv :: "kproc \<Rightarrow> bool" where
  "proc_inv s \<longleftrightarrow> table_inv (unat (kp_next_pid s)) (kp_table s) \<and> length (kp_wakes s) = 8 \<and> kp_next_pid s \<noteq> 0"

text \<open>The part of the state the invariant is about, and the operations that leave it alone.\<close>

definition core :: "kproc \<Rightarrow> ptable \<times> u32 list \<times> u32" where
  "core s = (kp_table s, kp_wakes s, kp_next_pid s)"

lemma core_frames [simp]:
  "core (s\<lparr>kp_frames := fb\<rparr>) = core s" "core (kcall c s) = core s" "core (fold kcall cs s) = core s"
  "core (free_syscall_stack ptr s) = core s" "core (snd (alloc_syscall_stack s)) = core s"
  "core (mark_cpu_has_work cpu s) = core s" "core (snd (home_cpu_for bs s)) = core s"
proof -
  show "core (fold kcall cs s) = core s"
    by (induction cs arbitrary: s) (simp_all add: core_def kcall_def)
qed (auto simp: core_def kcall_def free_syscall_stack_def alloc_syscall_stack_def mark_cpu_has_work_def
      home_cpu_for_def pick_home_cpu_for_app_def split: prod.splits option.splits)

lemma alloc_syscall_stack_core: "alloc_syscall_stack s = (r, s') \<Longrightarrow> core s' = core s"
  using core_frames(5) [of s] by simp

lemma home_cpu_for_core: "home_cpu_for bs s = (h, s') \<Longrightarrow> core s' = core s"
  using core_frames(7) [of bs s] by simp

lemma core_eqD: "core s = core s' \<Longrightarrow> kp_table s = kp_table s' \<and> kp_wakes s = kp_wakes s' \<and> kp_next_pid s = kp_next_pid s'"
  by (simp add: core_def)

lemma proc_inv_core: "core s = core s' \<Longrightarrow> proc_inv s = proc_inv s'"
  by (simp add: core_def proc_inv_def)

lemma alloc_pid_inv:
  assumes "proc_inv s" "unat (kp_next_pid s) + MAX_PROCS < 2 ^ 32" "alloc_pid s = (r, s')"
  shows "proc_inv s'" "kp_table s' = kp_table s" "unat (kp_next_pid s') \<le> unat (kp_next_pid s) + MAX_PROCS"
    "r = Some pid \<Longrightarrow> p_state (proc_at (kp_table s) pid) = Dead \<and> unat (kp_next_pid s) \<le> unat pid
       \<and> unat pid < unat (kp_next_pid s')"
proof -
  let ?t = "kp_table s" let ?k = "kp_next_pid s"
  obtain k' where k': "alloc_pid_from MAX_PROCS ?t ?k = (r, k')" "s' = s\<lparr>kp_next_pid := k'\<rparr>"
    using assms(3) by (auto simp: alloc_pid_def split: prod.splits)
  have bound: "unat ?k \<le> unat k' \<and> unat k' \<le> unat ?k + MAX_PROCS"
  proof (cases r)
    case None
    then have "k' = ?k + of_nat MAX_PROCS" using alloc_pid_from_None_next k'(1) by blast
    then have "unat k' = unat ?k + MAX_PROCS"
      using assms(2) by (simp add: MAX_PROCS_def unat_word_ariths)
    then show ?thesis by simp
  next
    case (Some q)
    then show ?thesis using alloc_pid_from_Some [of MAX_PROCS ?t ?k q k'] k'(1) assms(2) by simp
  qed
  then show "unat (kp_next_pid s') \<le> unat ?k + MAX_PROCS" "kp_table s' = ?t" using k' by simp_all
  have "0 < unat ?k" using assms(1) by (simp add: proc_inv_def unat_gt_0)
  then have "k' \<noteq> 0" using bound by fastforce
  then show "proc_inv s'"
    using assms(1) bound k'(2) by (auto simp: proc_inv_def intro: table_inv_mono)
  show "p_state (proc_at ?t pid) = Dead \<and> unat ?k \<le> unat pid \<and> unat pid < unat (kp_next_pid s')" if "r = Some pid"
    using alloc_pid_from_Some [of MAX_PROCS ?t ?k pid k'] k' assms(2) that by simp
qed

text \<open>Installing a process or a thread of a live leader under a fresh pid keeps the invariant.\<close>

lemma install_process:
  assumes inv: "table_inv n t" and p: "p_pid p = pid" "unat pid < n" "p_state p \<noteq> Dead" "\<not> p_is_thread p"
  shows "table_inv n (t[idx_of pid := p])"
  by (rule table_inv_process [OF inv]) (use p in \<open>auto simp: slot_ok_def\<close>)

lemma install_thread:
  assumes inv: "table_inv m t" and mn: "m \<le> unat tid" "unat tid < n"
    and par: "get_group_leader t parent = Some owner" "p_pid (proc_at t parent) = parent"
      "p_state (proc_at t parent) \<noteq> Dead" "parent \<noteq> 0"
    and p: "p_pid p = tid" "p_state p \<noteq> Dead" "p_parent_pid p = owner"
  shows "table_inv n (t[idx_of tid := p])"
proof (rule table_inv_set)
  have inv_n: "table_inv n t" using inv mn by (auto intro: table_inv_mono)
  then show "table_inv n t" "idx_of tid < MAX_PROCS" by simp_all
  have slot: "slot_ok m j (t ! j)" if "j < MAX_PROCS" for j using table_inv_slot [OF inv that] .
  have sp: "slot_ok m (idx_of parent) (proc_at t parent)" unfolding proc_at_def by (rule slot) simp
  have owner: "owner = (if is_thread parent t then p_parent_pid (proc_at t parent) else parent)"
    using get_group_leader_eq [OF inv, of parent] par(1) by simp
  then have o: "owner \<noteq> 0" "unat owner < m"
    using sp par by (auto simp: slot_ok_def is_thread_def split: if_splits)
  have not_thread: "p_pid (t ! j) \<noteq> owner" if j: "j < MAX_PROCS" "p_is_thread (t ! j)" for j
  proof
    assume eq: "p_pid (t ! j) = owner"
    have st: "slot_ok m j (t ! j)" using slot j by simp
    then have j_owner: "j = idx_of owner" using eq j by (auto simp: slot_ok_def split: if_splits)
    show False
    proof (cases "is_thread parent t")
      case True
      then show False using inv eq owner j unfolding table_inv_def flat_groups_def is_thread_def proc_at_def
        by (metis idx_of_less(1))
    next
      case False
      then have "owner = parent" using owner by simp
      then show False using False eq j j_owner by (simp add: is_thread_def proc_at_def)
    qed
  qed
  show "slot_ok n (idx_of tid) p" using p mn o by (auto simp: slot_ok_def)
  show "p_pid p \<noteq> p_parent_pid p \<and> (\<forall>j < MAX_PROCS. p_is_thread (t ! j) \<longrightarrow>
      p_pid (t ! j) \<noteq> p_parent_pid p \<and> p_pid p \<noteq> p_parent_pid (t ! j))"
  proof (intro conjI allI impI)
    show "p_pid p \<noteq> p_parent_pid p" using p mn o by auto
    show "p_pid (t ! j) \<noteq> p_parent_pid p" if "j < MAX_PROCS" "p_is_thread (t ! j)" for j
      using not_thread that p by simp
    show "p_pid p \<noteq> p_parent_pid (t ! j)" if "j < MAX_PROCS" "p_is_thread (t ! j)" for j
      using slot [OF that(1)] that(2) p mn by (auto simp: slot_ok_def)
  qed
qed

definition next_bound :: "kproc \<Rightarrow> bool" where
  "next_bound s \<longleftrightarrow> unat (kp_next_pid s) + MAX_PROCS < 2 ^ 32"

text \<open>The outcome of an operation: the invariant holds again and at most 256 pids were handed out.\<close>

definition proc_ok :: "kproc \<Rightarrow> kproc \<Rightarrow> bool" where
  "proc_ok s s' \<longleftrightarrow> proc_inv s' \<and> unat (kp_next_pid s') \<le> unat (kp_next_pid s) + MAX_PROCS"

lemma proc_ok_refl: "proc_inv s \<Longrightarrow> proc_ok s s"
  by (simp add: proc_ok_def)

lemma proc_ok_core: "core s1 = core s2 \<Longrightarrow> proc_ok s s1 = proc_ok s s2"
  by (simp add: proc_ok_def core_def proc_inv_def)

lemma alloc_pid_ok: "proc_inv s \<Longrightarrow> next_bound s \<Longrightarrow> alloc_pid s = (r, s') \<Longrightarrow> proc_ok s s'"
  unfolding proc_ok_def next_bound_def using alloc_pid_inv(1,3) by blast

lemma proc_ok_table:
  assumes "proc_ok s s1" "core s2 = (t, kp_wakes s1, kp_next_pid s1)" "table_inv (unat (kp_next_pid s1)) t"
  shows "proc_ok s s2"
  using assms by (simp add: proc_ok_def core_def proc_inv_def)

lemma install_spawned_core:
  "\<exists>home. core (install_spawned pid pml4 entry stk bs s) =
     ((kp_table s)[idx_of pid := spawned pid pml4 entry stk home bs (proc_at (kp_table s) pid)],
      kp_wakes s, kp_next_pid s)"
proof -
  obtain home s1 where h: "home_cpu_for bs s = (home, s1)" by fastforce
  define s2 where "s2 = (if home \<noteq> 0 then mark_cpu_has_work home s1 else s1)"
  have "core s2 = core s" using home_cpu_for_core [OF h] by (simp add: s2_def)
  then have c2: "kp_table s2 = kp_table s" "kp_wakes s2 = kp_wakes s" "kp_next_pid s2 = kp_next_pid s"
    by (simp_all add: core_def)
  have "install_spawned pid pml4 entry stk bs s =
      s2\<lparr>kp_table := (kp_table s2)[idx_of pid := spawned pid pml4 entry stk home bs (proc_at (kp_table s2) pid)]\<rparr>"
    unfolding install_spawned_def h s2_def by (simp only: Let_def prod.case)
  then show ?thesis unfolding c2 by (intro exI [of _ home]) (simp add: core_def c2)
qed

lemma spawn_cases:
  assumes "spawn_with_bootstrap po elf bs s = (r, s')" "alloc_pid s = (q, s1)"
  shows "case r of Inl e \<Rightarrow> core s' = core s1
    | Inr pid \<Rightarrow> q = Some pid \<and> (\<exists>pml4 entry stk home. core s' =
        ((kp_table s1)[idx_of pid := spawned pid pml4 entry stk home bs (proc_at (kp_table s1) pid)],
         kp_wakes s1, kp_next_pid s1))"
proof -
  obtain x s2 where st: "alloc_syscall_stack s1 = (x, s2)" by fastforce
  have c2: "core s2 = core s1" using alloc_syscall_stack_core [OF st] .
  have inst: "\<exists>home. core (install_spawned pid pml4 entry stk bs (s2\<lparr>kp_frames := fb\<rparr>)) =
     ((kp_table s1)[idx_of pid := spawned pid pml4 entry stk home bs (proc_at (kp_table s1) pid)],
      kp_wakes s1, kp_next_pid s1)" for pid pml4 entry stk fb
    using install_spawned_core [of pid pml4 entry stk bs "s2\<lparr>kp_frames := fb\<rparr>"] core_eqD [OF c2] by simp
  obtain y fb where b: "build_address_space po elf (kp_frames s2) = (y, fb)" by fastforce
  show ?thesis
  proof (cases "q = None \<or> x = None \<or> (\<exists>e. y = Inl e)")
    case True
    then show ?thesis using assms st b c2 by (auto simp: spawn_with_bootstrap_def split: option.splits)
  next
    case False
    then obtain pid stk pml4 entry where "q = Some pid" "x = Some stk" "y = Inr (pml4, entry)"
      by (metis obj_sumE option.exhaust surj_pair)
    then have "r = Inr pid \<and> q = Some pid \<and>
        core s' = core (install_spawned pid pml4 entry stk bs (s2\<lparr>kp_frames := fb\<rparr>))"
      using assms st b by (auto simp: spawn_with_bootstrap_def)
    then show ?thesis using inst [of pid pml4 entry stk fb] by (simp del: split_paired_Ex) blast
  qed
qed

lemma spawn_ok:
  assumes inv: "proc_inv s" and b: "next_bound s" and sp: "spawn_with_bootstrap po elf bs s = (r, s')"
  shows "proc_ok s s'"
proof -
  obtain q s1 where a: "alloc_pid s = (q, s1)" by fastforce
  have ok1: "proc_ok s s1" by (rule alloc_pid_ok [OF inv b a])
  show ?thesis
  proof (cases r)
    case (Inl e)
    then show ?thesis using spawn_cases [OF sp a] ok1 proc_ok_core [of s' s1 s] by simp
  next
    case (Inr pid)
    then obtain pml4 entry stk home where q: "q = Some pid" and eq: "core s' =
        ((kp_table s1)[idx_of pid := spawned pid pml4 entry stk home bs (proc_at (kp_table s1) pid)],
         kp_wakes s1, kp_next_pid s1)"
      using spawn_cases [OF sp a] by auto
    have "unat pid < unat (kp_next_pid s1)"
      using alloc_pid_inv(4) [OF inv _ a q] b by (simp add: next_bound_def)
    then have "table_inv (unat (kp_next_pid s1)) ((kp_table s1)[idx_of pid :=
        spawned pid pml4 entry stk home bs (proc_at (kp_table s1) pid)])"
      using ok1 by (intro install_process) (auto simp: proc_ok_def proc_inv_def spawned_def)
    then show ?thesis by (rule proc_ok_table [OF ok1 eq])
  qed
qed

lemma map_thread_memory_core:
  assumes "map_thread_memory po parent_pid pml4 sz base s = (r, s')"
  shows "core s' = core s"
proof -
  have "core (snd (map_thread_memory po parent_pid pml4 sz base s)) = core s"
    by (simp add: map_thread_memory_def Let_def split: prod.split)
  then show ?thesis using assms by simp
qed

text \<open>A thread operation fails without touching the table, or installs a thread of the group of its
parent under a fresh pid.\<close>

definition thread_result :: "u32 \<Rightarrow> kproc \<Rightarrow> u32 option \<Rightarrow> kproc \<Rightarrow> string + u32 \<Rightarrow> kproc \<Rightarrow> bool" where
  "thread_result owner s q s1 r s' \<longleftrightarrow>
     (case r of Inl e \<Rightarrow> core s' = core s1
      | Inr tid \<Rightarrow> q = Some tid \<and> (\<exists>p. p_pid p = tid \<and> p_state p = Running \<and> p_is_thread p \<and> p_parent_pid p = owner \<and>
          p_caps p = p_caps (proc_at (kp_table s1) owner) \<and>
          core s' = ((kp_table s1)[idx_of tid := p], kp_wakes s1, kp_next_pid s1)))"

lemma spawn_thread_result:
  assumes alive: "p_pid (proc_at (kp_table s) parent) = parent" "p_state (proc_at (kp_table s) parent) \<noteq> Dead"
    and owner: "get_group_leader (kp_table s) parent = Some owner"
    and alloc: "alloc_pid s = (q, s1)"
  shows "\<exists>r s'. spawn_thread po parent entry arg sz s = Some (r, s') \<and> thread_result owner s q s1 r s'"
proof (cases q)
  case None
  then show ?thesis using assms by (simp add: spawn_thread_def thread_result_def)
next
  case (Some tid)
  obtain x s2 where st: "alloc_syscall_stack s1 = (x, s2)" by fastforce
  have c2: "core s2 = core s1" using alloc_syscall_stack_core [OF st] .
  show ?thesis
  proof (cases x)
    case None
    then show ?thesis using assms Some st c2 by (simp add: spawn_thread_def thread_result_def)
  next
    case stk: (Some stk)
    let ?pml4 = "p_pml4_phys (proc_at (kp_table s) parent)"
    obtain y s3 where m: "map_thread_memory po parent ?pml4 sz (fst stk) s2 = (y, s3)" by fastforce
    have c3: "core s3 = core s1" using map_thread_memory_core [OF m] c2 by simp
    show ?thesis
    proof (cases y)
      case (Inl e)
      then show ?thesis using assms Some st stk m c3 by (simp add: spawn_thread_def thread_result_def)
    next
      case (Inr sv)
      obtain stack_va tls_va where sv: "sv = (stack_va, tls_va)" by fastforce
      let ?regs = "user_regs_default\<lparr>r_rip := entry, r_rdi := arg, r_rsp := stack_va + of_nat sz - 8,
        r_rflags := 0x0202\<rparr>"
      let ?p = "spawned_thread tid ?pml4 (p_home_cpu (proc_at (kp_table s) parent)) ?regs stk owner
        (p_caps (proc_at (kp_table s1) owner)) tls_va stack_va (of_nat sz) (proc_at (kp_table s1) tid)"
      show ?thesis
        using assms Some st stk m Inr sv core_eqD [OF c3]
        by (auto simp: spawn_thread_def thread_result_def Let_def core_def intro!: exI [of _ ?p])
           (simp_all add: spawned_thread_def)
    qed
  qed
qed

lemma clone_thread_result:
  assumes alive: "p_pid (proc_at (kp_table s) parent) = parent" "p_state (proc_at (kp_table s) parent) \<noteq> Dead"
    and owner: "get_group_leader (kp_table s) parent = Some owner"
    and alloc: "alloc_pid s = (q, s1)"
    and s: "s = s0\<lparr>kp_table := snd (save_full_user_gprs snap parent (captured, kp_table s0))\<rparr>"
  shows "\<exists>r s'. clone_thread captured snap parent rip rsp s0 = Some (r, s') \<and> thread_result owner s q s1 r s'"
proof -
  obtain x s2 where st: "alloc_syscall_stack s1 = (x, s2)" by fastforce
  have c2: "core s2 = core s1" using alloc_syscall_stack_core [OF st] .
  note def = clone_thread_def [of captured snap parent rip rsp s0, folded s]
  show ?thesis
  proof (cases "q = None \<or> x = None")
    case True
    then show ?thesis using alive owner alloc st c2
      by (cases q) (auto simp: def thread_result_def Let_def)
  next
    case False
    then obtain tid stk where qx: "q = Some tid" "x = Some stk" by (cases q; cases x) auto
    let ?regs = "(p_regs (proc_at (kp_table s1) parent))\<lparr>r_rip := rip, r_rsp := rsp, r_rax := 0,
      r_rflags := 0x0202\<rparr>"
    let ?p = "cloned_thread tid (p_pml4_phys (proc_at (kp_table s) parent)) ?regs stk owner
      (p_caps (proc_at (kp_table s1) owner)) (proc_at (kp_table s1) tid)"
    show ?thesis using alive owner alloc st qx core_eqD [OF c2]
      by (auto simp: def thread_result_def Let_def core_def intro!: exI [of _ ?p])
         (simp_all add: cloned_thread_def)
  qed
qed

lemma thread_ok:
  assumes inv: "proc_inv s" and b: "next_bound s" and alloc: "alloc_pid s = (q, s1)"
    and par: "get_group_leader (kp_table s) parent = Some owner" "p_pid (proc_at (kp_table s) parent) = parent"
      "p_state (proc_at (kp_table s) parent) \<noteq> Dead" "parent \<noteq> 0"
    and res: "thread_result owner s q s1 r s'"
  shows "proc_ok s s'"
proof -
  have ok1: "proc_ok s s1" by (rule alloc_pid_ok [OF inv b alloc])
  show ?thesis
  proof (cases r)
    case (Inl e)
    then show ?thesis using res ok1 proc_ok_core [of s' s1 s] by (simp add: thread_result_def)
  next
    case (Inr tid)
    then obtain p where q: "q = Some tid" and p: "p_pid p = tid" "p_state p \<noteq> Dead" "p_parent_pid p = owner"
      and eq: "core s' = ((kp_table s1)[idx_of tid := p], kp_wakes s1, kp_next_pid s1)"
      using res by (auto simp: thread_result_def)
    have tid: "unat (kp_next_pid s) \<le> unat tid" "unat tid < unat (kp_next_pid s1)"
      using alloc_pid_inv(4) [OF inv _ alloc q] b by (simp_all add: next_bound_def)
    have t1: "kp_table s1 = kp_table s" using alloc_pid_inv(2) [OF inv _ alloc] b by (simp add: next_bound_def)
    have "table_inv (unat (kp_next_pid s1)) ((kp_table s1)[idx_of tid := p])"
      unfolding t1 using inv by (intro install_thread [OF _ tid par p]) (simp add: proc_inv_def)
    then show ?thesis by (rule proc_ok_table [OF ok1 eq])
  qed
qed

lemma fork_ok:
  assumes inv0: "proc_inv s0" and b0: "next_bound s0"
    and f: "fork_current po captured snap parent s0 = (r, s')"
  shows "proc_ok s0 s'"
proof (cases "parent = 0")
  case True
  then show ?thesis using f inv0 by (simp add: fork_current_def proc_ok_refl)
next
  case False
  define s where "s = s0\<lparr>kp_table := snd (save_full_user_gprs snap parent (captured, kp_table s0))\<rparr>"
  have inv: "proc_inv s"
    using inv0 by (auto simp: s_def proc_inv_def save_full_user_gprs_def keeps_identity_def intro!: table_inv_update_pid)
  have b: "next_bound s" using b0 by (simp add: next_bound_def s_def)
  obtain q s1 where a: "alloc_pid s = (q, s1)" by fastforce
  have ok1: "proc_ok s s1" by (rule alloc_pid_ok [OF inv b a])
  have ok: "proc_ok s s'"
  proof (cases q)
    case None
    then show ?thesis using f a False ok1 by (simp add: fork_current_def s_def [symmetric])
  next
    case (Some child)
    let ?p = "proc_at (kp_table s1) parent"
    obtain y fb where y: "po_clone_address_space po (p_pml4_phys ?p) (kp_frames s1) = (y, fb)" by fastforce
    show ?thesis
    proof (cases y)
      case (Inl e)
      then have "s' = s1\<lparr>kp_frames := fb\<rparr>"
        using f a False Some y by (simp add: fork_current_def s_def [symmetric] Let_def)
      then show ?thesis using ok1 proc_ok_core [of s' s1 s] by simp
    next
      case (Inr pml4)
      obtain x s2 where st: "alloc_syscall_stack (kcall (CloneAsSlot (p_pml4_phys ?p) pml4) (s1\<lparr>kp_frames := fb\<rparr>)) = (x, s2)"
        by fastforce
      have c2: "core s2 = core s1" using alloc_syscall_stack_core [OF st] by simp
      show ?thesis
      proof (cases x)
        case None
        then have "s' = s2" using f a False Some y Inr st
          by (simp add: fork_current_def s_def [symmetric] Let_def)
        then show ?thesis using ok1 c2 proc_ok_core [of s2 s1 s] by simp
      next
        case stk: (Some stk)
        let ?c = "forked child pml4 (p_regs ?p) stk parent (p_caps ?p) (proc_at (kp_table s1) child)"
        have eq: "core s' = ((kp_table s1)[idx_of child := ?c], kp_wakes s1, kp_next_pid s1)"
          using f a False Some y Inr st stk core_eqD [OF c2]
          by (auto simp: fork_current_def s_def [symmetric] Let_def core_def)
        have "unat child < unat (kp_next_pid s1)"
          using alloc_pid_inv(4) [OF inv _ a Some] b by (simp add: next_bound_def)
        then have "table_inv (unat (kp_next_pid s1)) ((kp_table s1)[idx_of child := ?c])"
          using ok1 by (intro install_process) (auto simp: proc_ok_def proc_inv_def forked_def)
        then show ?thesis by (rule proc_ok_table [OF ok1 eq])
      qed
    qed
  qed
  have "kp_next_pid s0 = kp_next_pid s" by (simp add: s_def)
  then show ?thesis using ok by (simp add: proc_ok_def)
qed

subsection \<open>Exit and kill always return\<close>

definition live_pid :: "ptable \<Rightarrow> u32 \<Rightarrow> bool" where
  "live_pid t pid \<longleftrightarrow> p_pid (proc_at t pid) = pid \<and> p_state (proc_at t pid) \<noteq> Dead"

lemma exited_inv:
  assumes "table_inv n t" "live_pid t pid"
  shows "table_inv n (t[idx_of pid := exited code (proc_at t pid)])"
  by (rule table_inv_same [OF assms(1)])
     (use assms(2) in \<open>auto simp: exited_def live_pid_def proc_at_def\<close>)

lemma proc_exit_core:
  assumes inv: "table_inv n (kp_table s)"
  shows "\<exists>s'. proc_exit pid code s = Some s' \<and>
    core s' = (if live_pid (kp_table s) pid
               then (kp_table s)[idx_of pid := exited code (proc_at (kp_table s) pid)] else kp_table s,
               kp_wakes s, kp_next_pid s)"
proof (cases "live_pid (kp_table s) pid")
  case False
  then show ?thesis by (auto simp: proc_exit_def live_pid_def core_def Let_def)
next
  case True
  let ?p = "proc_at (kp_table s) pid"
  let ?t = "(kp_table s)[idx_of pid := exited code ?p]"
  define s2 where "s2 = free_syscall_stack (p_syscall_stack_base ?p) (fold kcall (exit_releases pid ?p) s)"
  have c2: "core s2 = core s" by (simp add: s2_def)
  obtain l where "get_group_leader ?t pid = Some l"
    using get_group_leader_eq [OF exited_inv [OF inv True]] by blast
  then show ?thesis using True core_eqD [OF c2]
    by (auto simp: proc_exit_def live_pid_def Let_def core_def kcall_def s2_def [symmetric])
qed

lemma proc_exit_ok:
  assumes inv: "proc_inv s"
  shows "\<exists>s'. proc_exit pid code s = Some s' \<and> proc_ok s s'"
proof -
  have t: "table_inv (unat (kp_next_pid s)) (kp_table s)" using inv by (simp add: proc_inv_def)
  obtain s' where s': "proc_exit pid code s = Some s'"
    "core s' = (if live_pid (kp_table s) pid
               then (kp_table s)[idx_of pid := exited code (proc_at (kp_table s) pid)] else kp_table s,
               kp_wakes s, kp_next_pid s)"
    using proc_exit_core [OF t] by blast
  have "proc_ok s s'"
    by (rule proc_ok_table [OF proc_ok_refl [OF inv] s'(2)]) (use t exited_inv [OF t] in simp)
  then show ?thesis using s'(1) by blast
qed

subsection \<open>Killing a group\<close>

definition leader_of :: "ptable \<Rightarrow> u32 \<Rightarrow> u32" where
  "leader_of t pid = (if is_thread pid t then p_parent_pid (proc_at t pid) else pid)"

definition active_member :: "ptable \<Rightarrow> u32 \<Rightarrow> process \<Rightarrow> bool" where
  "active_member t leader p \<longleftrightarrow>
     p_pid p \<noteq> 0 \<and> (p_state p = Running \<or> p_state p = Blocked) \<and> leader_of t (p_pid p) = leader"

lemma active_state: "p_state p = Running \<or> p_state p = Blocked \<longleftrightarrow> \<not> is_zombie (p_state p) \<and> p_state p \<noteq> Dead"
  by (cases "p_state p") (auto simp: is_zombie_def)

lemma group_victims_eq:
  assumes "table_inv n t"
  shows "group_victims leader t ps = Some (map p_pid (filter (active_member t leader) ps))"
  by (induction ps)
     (auto simp: active_member_def active_state get_group_leader_eq [OF assms] leader_of_def)

lemma exited_exited [simp]: "exited code (exited code p) = exited code p"
  by (simp add: exited_def)

lemma live_at_slot:
  assumes "table_inv n t" "i < MAX_PROCS" "p_state (t ! i) \<noteq> Dead"
  shows "idx_of (p_pid (t ! i)) = i" "proc_at t (p_pid (t ! i)) = t ! i" "live_pid t (p_pid (t ! i))"
  using table_inv_slot [OF assms(1,2)] assms(3) by (simp_all add: slot_ok_def proc_at_def live_pid_def)

text \<open>Exiting a list of pids rewrites exactly the slots of the live ones among them.\<close>

lemma exit_all_table:
  assumes "proc_inv s"
  shows "\<exists>s'. exit_all vs s = Some s' \<and> proc_inv s' \<and> kp_next_pid s' = kp_next_pid s \<and>
    (\<forall>i < MAX_PROCS. kp_table s' ! i =
       (if \<exists>v \<in> set vs. live_pid (kp_table s) v \<and> idx_of v = i then exited SIGKILL_CODE (kp_table s ! i)
        else kp_table s ! i))"
  using assms
proof (induction vs arbitrary: s)
  case (Cons v vs)
  have t: "table_inv (unat (kp_next_pid s)) (kp_table s)" using Cons.prems by (simp add: proc_inv_def)
  then have len: "length (kp_table s) = MAX_PROCS" by (rule table_inv_length)
  obtain s1 where s1: "proc_exit v SIGKILL_CODE s = Some s1"
    and c1: "core s1 = (if live_pid (kp_table s) v
               then (kp_table s)[idx_of v := exited SIGKILL_CODE (proc_at (kp_table s) v)] else kp_table s,
               kp_wakes s, kp_next_pid s)"
    using proc_exit_core [OF t] by blast
  have "proc_inv s1" using proc_exit_ok [OF Cons.prems, of v SIGKILL_CODE] s1 by (auto simp: proc_ok_def)
  from Cons.IH [OF this] obtain s' where s': "exit_all vs s1 = Some s'" "proc_inv s'" "kp_next_pid s' = kp_next_pid s1"
    and t': "\<And>i. i < MAX_PROCS \<Longrightarrow> kp_table s' ! i =
       (if \<exists>v \<in> set vs. live_pid (kp_table s1) v \<and> idx_of v = i then exited SIGKILL_CODE (kp_table s1 ! i)
        else kp_table s1 ! i)" by blast
  have slot: "kp_table s1 ! i = (if live_pid (kp_table s) v \<and> idx_of v = i then exited SIGKILL_CODE (kp_table s ! i)
      else kp_table s ! i)" if "i < MAX_PROCS" for i
    using c1 len that by (auto simp: core_def proc_at_def)
  have "p_pid (kp_table s1 ! idx_of w) = p_pid (kp_table s ! idx_of w)"
    "(p_state (kp_table s1 ! idx_of w) = Dead) = (p_state (kp_table s ! idx_of w) = Dead)" for w
    unfolding slot [OF idx_of_less(1)] by (simp_all add: exited_def live_pid_def proc_at_def) metis
  then have live: "live_pid (kp_table s1) w = live_pid (kp_table s) w" for w
    unfolding live_pid_def proc_at_def by simp
  show ?case
  proof (intro exI [of _ s'] conjI allI impI)
    show "exit_all (v # vs) s = Some s'" using s1 s'(1) by simp
    show "proc_inv s'" by (rule s'(2))
    show "kp_next_pid s' = kp_next_pid s" using s'(3) c1 by (simp add: core_def)
    show "kp_table s' ! i = (if \<exists>v \<in> set (v # vs). live_pid (kp_table s) v \<and> idx_of v = i
      then exited SIGKILL_CODE (kp_table s ! i) else kp_table s ! i)" if "i < MAX_PROCS" for i
      unfolding t' [OF that] slot [OF that] live by auto
  qed
qed simp

lemma kill_group_effect:
  assumes inv: "proc_inv s"
  shows "\<exists>s'. kill_group leader s = Some (length (filter (active_member (kp_table s) leader) (kp_table s)), s')
    \<and> proc_inv s' \<and> (\<forall>i < MAX_PROCS. kp_table s' ! i =
        (if active_member (kp_table s) leader (kp_table s ! i)
         then exited SIGKILL_CODE (kp_table s ! i) else kp_table s ! i))
    \<and> \<not> (\<exists>p \<in> set (kp_table s'). active_member (kp_table s') leader p)"
proof -
  let ?t = "kp_table s"
  let ?vs = "map p_pid (filter (active_member ?t leader) ?t)"
  have t: "table_inv (unat (kp_next_pid s)) ?t" using inv by (simp add: proc_inv_def)
  have len: "length ?t = MAX_PROCS" using t by (rule table_inv_length)
  obtain s' where s': "exit_all ?vs s = Some s'" "proc_inv s'"
    and slots: "\<And>i. i < MAX_PROCS \<Longrightarrow> kp_table s' ! i =
       (if \<exists>v \<in> set ?vs. live_pid ?t v \<and> idx_of v = i then exited SIGKILL_CODE (?t ! i) else ?t ! i)"
    using exit_all_table [OF inv, of ?vs] by blast
  have hit: "(\<exists>v \<in> set ?vs. live_pid ?t v \<and> idx_of v = i) = active_member ?t leader (?t ! i)" if i: "i < MAX_PROCS" for i
  proof
    assume "\<exists>v \<in> set ?vs. live_pid ?t v \<and> idx_of v = i"
    then obtain j where j: "j < MAX_PROCS" "active_member ?t leader (?t ! j)" "idx_of (p_pid (?t ! j)) = i"
      using len by (auto simp: in_set_conv_nth)
    then have "j = i" using live_at_slot(1) [OF t j(1)] by (auto simp: active_member_def)
    then show "active_member ?t leader (?t ! i)" using j by simp
  next
    assume a: "active_member ?t leader (?t ! i)"
    then have "p_state (?t ! i) \<noteq> Dead" by (auto simp: active_member_def)
    from live_at_slot [OF t i this] a show "\<exists>v \<in> set ?vs. live_pid ?t v \<and> idx_of v = i"
      using len i by (intro bexI [of _ "p_pid (?t ! i)"]) auto
  qed
  have slots': "kp_table s' ! i = (if active_member ?t leader (?t ! i) then exited SIGKILL_CODE (?t ! i) else ?t ! i)"
    if "i < MAX_PROCS" for i
    using slots [OF that] hit [OF that] by simp
  have len': "length (kp_table s') = MAX_PROCS" using s'(2) by (auto simp: proc_inv_def table_inv_def)
  have same: "leader_of (kp_table s') pid = leader_of ?t pid" for pid
    using slots' [of "idx_of pid"] by (auto simp: leader_of_def is_thread_def proc_at_def exited_def)
  have "\<not> active_member (kp_table s') leader (kp_table s' ! i)" if "i < MAX_PROCS" for i
    using slots' [OF that] by (auto simp: active_member_def same exited_def)
  then have "\<not> (\<exists>p \<in> set (kp_table s'). active_member (kp_table s') leader p)"
    using len' by (auto simp: in_set_conv_nth)
  then show ?thesis using s' slots' by (auto simp: kill_group_def group_victims_eq [OF t])
qed

text \<open>C6.  In a consistent process table \<^verbatim>\<open>kill_group\<close> always returns, and it terminates exactly the
  thread group of the leader: every running or blocked process of the group becomes a zombie with exit
  code -9, no slot outside the group changes, and the count it returns is the number of processes it
  terminated.  Afterwards no member of the group is running or blocked.\<close>

theorem kill_group_complete:
  assumes inv: "proc_inv s"
  shows "\<exists>s'. kill_group leader s = Some (length (filter (active_member (kp_table s) leader) (kp_table s)), s')
    \<and> proc_inv s' \<and> (\<forall>i < MAX_PROCS. kp_table s' ! i =
        (if active_member (kp_table s) leader (kp_table s ! i)
         then exited SIGKILL_CODE (kp_table s ! i) else kp_table s ! i))
    \<and> \<not> (\<exists>p \<in> set (kp_table s'). active_member (kp_table s') leader p)"
  using assms by (rule kill_group_effect)

section \<open>Wake-ups\<close>

definition woken :: "process \<Rightarrow> process" where
  "woken p = (if p_pid p \<noteq> 0 \<and> p_state p = Blocked then p\<lparr>p_state := Running\<rparr> else p)"

definition wakes_up :: "process \<Rightarrow> bool" where
  "wakes_up p \<longleftrightarrow> p_pid p \<noteq> 0 \<and> p_state p = Blocked"

lemma woken_woken [simp]: "woken (woken p) = woken p"
  by (simp add: woken_def)

lemma wakes_up_woken [simp]: "\<not> wakes_up (woken p)"
  by (auto simp: woken_def wakes_up_def)

lemma bit_clear_lowest:
  fixes m :: "'a::len word"
  shows "bit (m AND NOT (push_bit b 1)) k = (bit m k \<and> k \<noteq> b)"
  by (auto simp: bit_simps simp del: push_bit_of_1 dest: bit_imp_le_length)

text \<open>One pass over a word of pending bits wakes the slots of its set bits.\<close>

lemma wake_word_spec:
  assumes "word < 8" "length t = MAX_PROCS" "wake_word word m (bc, t) = (bc', t')"
  shows "length t' = MAX_PROCS \<and>
    (\<forall>i < MAX_PROCS. t' ! i = (if i div 32 = word \<and> bit m (i mod 32) then woken (t ! i) else t ! i)) \<and>
    (bc' = (bc \<or> (\<exists>k < 32. bit m k \<and> wakes_up (t ! (word * 32 + k)))))"
  using assms
proof (induction word m "(bc, t)" arbitrary: bc t rule: wake_word.induct)
  case (1 word m bc t)
  show ?case
  proof (cases "m = 0")
    case True
    then show ?thesis using "1.prems" by auto
  next
    case False
    let ?b = "trailing_zeros m"
    let ?i = "word * 32 + ?b"
    let ?m = "m AND NOT (push_bit ?b 1)"
    have b: "bit m ?b" "?b < 32" using trailing_zeros_bit(1,2) [OF False] by simp_all
    have i: "?i < MAX_PROCS" "?i div 32 = word" "?i mod 32 = ?b"
      using b(2) "1.prems"(1) by (simp_all add: MAX_PROCS_def)
    define t1 where "t1 = t[?i := woken (t ! ?i)]"
    define bc1 where "bc1 = (bc \<or> wakes_up (t ! ?i))"
    have st: "(if p_pid (t ! ?i) \<noteq> 0 \<and> p_state (t ! ?i) = Blocked
        then (True, t[?i := (t ! ?i)\<lparr>p_state := Running\<rparr>]) else (bc, t)) = (bc1, t1)"
      by (auto simp: t1_def bc1_def woken_def wakes_up_def)
    have call: "wake_word word ?m (bc1, t1) = (bc', t')"
      using "1.prems"(3) False st by (subst (asm) wake_word.simps) (simp add: Let_def del: push_bit_of_1)
    have len: "length t1 = MAX_PROCS" using "1.prems"(2) by (simp add: t1_def)
    note IH = "1.hyps" [OF False refl refl refl st "1.prems"(1) len call]
    have t1: "t1 ! j = (if j = ?i then woken (t ! j) else t ! j)" for j
      using i(1) "1.prems"(2) by (simp add: t1_def nth_list_update)
    have "t' ! j = (if j div 32 = word \<and> bit m (j mod 32) then woken (t ! j) else t ! j)" if j: "j < MAX_PROCS" for j
    proof -
      have "j = ?i \<longleftrightarrow> j div 32 = word \<and> j mod 32 = ?b" using i by (metis mult.commute mult_div_mod_eq)
      moreover have "t' ! j = (if j div 32 = word \<and> bit ?m (j mod 32) then woken (t1 ! j) else t1 ! j)"
        using IH j by blast
      ultimately show ?thesis using b by (auto simp: t1 bit_clear_lowest simp del: push_bit_of_1)
    qed
    moreover have "bc' = (bc \<or> (\<exists>k < 32. bit m k \<and> wakes_up (t ! (word * 32 + k))))"
    proof -
      have "bc' = (bc1 \<or> (\<exists>k < 32. bit ?m k \<and> wakes_up (t1 ! (word * 32 + k))))" using IH by blast
      also have "\<dots> = (bc1 \<or> (\<exists>k < 32. bit m k \<and> k \<noteq> ?b \<and> wakes_up (t ! (word * 32 + k))))"
        by (auto simp: t1 bit_clear_lowest simp del: push_bit_of_1)
      finally show ?thesis using b by (auto simp: bc1_def)
    qed
    ultimately show ?thesis using IH by blast
  qed
qed

definition pending_bit :: "u32 list \<Rightarrow> nat \<Rightarrow> bool" where
  "pending_bit wakes i = bit (wakes ! (i div 32)) (i mod 32)"

lemma ex_less_block:
  fixes n :: nat
  shows "(\<exists>i < Suc n * 32. P i) = ((\<exists>i < n * 32. P i) \<or> (\<exists>k < 32. P (n * 32 + k)))"
proof
  assume "\<exists>i < Suc n * 32. P i"
  then obtain i where i: "i < Suc n * 32" "P i" by blast
  show "(\<exists>i < n * 32. P i) \<or> (\<exists>k < 32. P (n * 32 + k))"
  proof (cases "i < n * 32")
    case False
    then have "i - n * 32 < 32" "P (n * 32 + (i - n * 32))" using i by simp_all
    then show ?thesis by blast
  qed (use i in blast)
next
  assume "(\<exists>i < n * 32. P i) \<or> (\<exists>k < 32. P (n * 32 + k))"
  moreover have "i < n * 32 \<Longrightarrow> i < Suc n * 32" "k < 32 \<Longrightarrow> n * 32 + k < Suc n * 32" for i k by simp_all
  ultimately show "\<exists>i < Suc n * 32. P i" by blast
qed

lemma wake_words_spec:
  assumes "n \<le> 8" "length t = MAX_PROCS"
    "fold (\<lambda>word. wake_word word (wakes ! word)) [0..<n] (False, t) = (bc, t')"
  shows "length t' = MAX_PROCS \<and>
    (\<forall>i < MAX_PROCS. t' ! i = (if i div 32 < n \<and> pending_bit wakes i then woken (t ! i) else t ! i)) \<and>
    (bc = (\<exists>i < n * 32. pending_bit wakes i \<and> wakes_up (t ! i)))"
  using assms
proof (induction n arbitrary: bc t')
  case (Suc n)
  obtain bc1 t1 where f: "fold (\<lambda>word. wake_word word (wakes ! word)) [0..<n] (False, t) = (bc1, t1)"
    by fastforce
  have IH: "length t1 = MAX_PROCS"
    "\<And>i. i < MAX_PROCS \<Longrightarrow> t1 ! i = (if i div 32 < n \<and> pending_bit wakes i then woken (t ! i) else t ! i)"
    "bc1 = (\<exists>i < n * 32. pending_bit wakes i \<and> wakes_up (t ! i))"
    using Suc.IH [OF _ Suc.prems(2) f] Suc.prems(1) by simp_all
  have w: "wake_word n (wakes ! n) (bc1, t1) = (bc, t')" using Suc.prems(3) f by simp
  have n8: "n < 8" using Suc.prems(1) by simp
  note W = wake_word_spec [OF n8 IH(1) w]
  have "t' ! i = (if i div 32 < Suc n \<and> pending_bit wakes i then woken (t ! i) else t ! i)" if "i < MAX_PROCS" for i
    using W that IH(2) [OF that] by (auto simp: pending_bit_def less_Suc_eq)
  moreover have "bc = (\<exists>i < Suc n * 32. pending_bit wakes i \<and> wakes_up (t ! i))"
  proof -
    have t1: "t1 ! (n * 32 + k) = t ! (n * 32 + k)" if "k < 32" for k
      using IH(2) [of "n * 32 + k"] that n8 by (simp add: MAX_PROCS_def)
    have "(\<exists>k < 32. bit (wakes ! n) k \<and> wakes_up (t1 ! (n * 32 + k))) =
        (\<exists>k < 32. pending_bit wakes (n * 32 + k) \<and> wakes_up (t ! (n * 32 + k)))"
      using t1 by (auto simp: pending_bit_def)
    then show ?thesis unfolding ex_less_block using W IH(3) by blast
  qed
  ultimately show ?case using W by blast
qed simp

lemma handle_wakes_locked:
  assumes "length wakes = 8" "length t = MAX_PROCS" "handle_pending_wakes_try True (wakes, t) = (bc, wakes', t')"
  shows "length wakes' = 8" "length t' = MAX_PROCS" "\<And>i. i < MAX_PROCS \<Longrightarrow> \<not> pending_bit wakes' i"
    "\<And>i. i < MAX_PROCS \<Longrightarrow> t' ! i = (if pending_bit wakes i then woken (t ! i) else t ! i)"
    "bc = (\<exists>i < MAX_PROCS. pending_bit wakes i \<and> wakes_up (t ! i))"
proof -
  have div: "i div 32 < 8" if "i < MAX_PROCS" for i
    using that by (simp add: MAX_PROCS_def less_mult_imp_div_less)
  have "length wakes' = 8 \<and> length t' = MAX_PROCS \<and> (\<forall>i < MAX_PROCS. \<not> pending_bit wakes' i) \<and>
    (\<forall>i < MAX_PROCS. t' ! i = (if pending_bit wakes i then woken (t ! i) else t ! i)) \<and>
    bc = (\<exists>i < MAX_PROCS. pending_bit wakes i \<and> wakes_up (t ! i))"
  proof (cases "\<exists>w \<in> set wakes. w \<noteq> 0")
    case False
    then have "\<not> pending_bit wakes i" if "i < MAX_PROCS" for i
    proof -
      have "wakes ! (i div 32) \<in> set wakes" using div [OF that] assms(1) by simp
      then have "wakes ! (i div 32) = 0" using False by blast
      then show ?thesis by (simp add: pending_bit_def)
    qed
    then show ?thesis using False assms by (auto simp: handle_pending_wakes_try_def)
  next
    case True
    obtain bc1 t1 where f: "fold (\<lambda>word. wake_word word (wakes ! word)) [0..<8] (False, t) = (bc1, t1)" by fastforce
    note W = wake_words_spec [OF order.refl assms(2) f]
    have "(bc, wakes', t') = (bc1, replicate 8 0, t1)"
      using assms(3) True f by (simp only: handle_pending_wakes_try_def prod.case Let_def) simp
    then show ?thesis using W div by (auto simp: pending_bit_def MAX_PROCS_def)
  qed
  then show "length wakes' = 8" "length t' = MAX_PROCS" "\<And>i. i < MAX_PROCS \<Longrightarrow> \<not> pending_bit wakes' i"
    "\<And>i. i < MAX_PROCS \<Longrightarrow> t' ! i = (if pending_bit wakes i then woken (t ! i) else t ! i)"
    "bc = (\<exists>i < MAX_PROCS. pending_bit wakes i \<and> wakes_up (t ! i))" by blast+
qed

lemma pending_bit_set:
  assumes "length wakes = 8" "k < MAX_PROCS" "i < MAX_PROCS"
  shows "pending_bit (wakes[k div 32 := wakes ! (k div 32) OR push_bit (k mod 32) 1]) i
    = (i = k \<or> pending_bit wakes i)"
proof -
  have "i div 32 < 8" "k div 32 < 8" using assms by (simp_all add: MAX_PROCS_def less_mult_imp_div_less)
  moreover have "i = k \<longleftrightarrow> i div 32 = k div 32 \<and> i mod 32 = k mod 32" by (metis div_mod_decomp)
  ultimately show ?thesis using assms(1)
    by (auto simp: pending_bit_def nth_list_update bit_simps simp del: push_bit_of_1)
qed

text \<open>C11.  A wake-up is never lost.  \<^verbatim>\<open>wake_process\<close> marks the slot of the pid; if the table lock is free,
  every slot that was marked, by this or by earlier calls, is woken (a blocked process becomes runnable,
  anything else is left alone), all marks are cleared, and the reschedule interrupt is broadcast exactly
  if a process became runnable; if the lock is busy the table is unchanged and the mark stays set for the
  next handler.\<close>

theorem wake_process_not_lost:
  assumes len: "length wakes = 8" "length t = MAX_PROCS"
    and call: "wake_process locked pid (wakes, t) = (bc, wakes', t')"
  shows "if locked
    then (\<forall>i < MAX_PROCS. \<not> pending_bit wakes' i \<and>
            t' ! i = (if i = idx_of pid \<or> pending_bit wakes i then woken (t ! i) else t ! i))
         \<and> bc = (\<exists>i < MAX_PROCS. (i = idx_of pid \<or> pending_bit wakes i) \<and> wakes_up (t ! i))
    else t' = t \<and> \<not> bc \<and> (\<forall>i < MAX_PROCS. pending_bit wakes' i = (i = idx_of pid \<or> pending_bit wakes i))"
proof -
  define w where "w = wakes[idx_of pid div 32 := wakes ! (idx_of pid div 32) OR push_bit (idx_of pid mod 32) 1]"
  have word: "idx_of pid div 32 < 8" by (simp add: less_mult_imp_div_less)
  then have call': "handle_pending_wakes_try locked (w, t) = (bc, wakes', t')"
    using call by (simp add: wake_process_def w_def Let_def del: push_bit_of_1)
  have w: "pending_bit w i = (i = idx_of pid \<or> pending_bit wakes i)" if "i < MAX_PROCS" for i
    unfolding w_def by (rule pending_bit_set [OF len(1) idx_of_less(1) that])
  show ?thesis
  proof (cases locked)
    case False
    then show ?thesis using call' w by (simp add: handle_pending_wakes_try_def)
  next
    case True
    have lw: "length w = 8" using len(1) by (simp add: w_def)
    have "handle_pending_wakes_try True (w, t) = (bc, wakes', t')" using call' True by simp
    note H = handle_wakes_locked [OF lw len(2) this]
    show ?thesis using True H(3-5) w by auto
  qed
qed

theorem wake_process_not_lost_witness:
  "\<exists>bc wakes' t'. wake_process False 5 (replicate 8 0, ptable_new) = (bc, wakes', t')
     \<and> t' = ptable_new \<and> pending_bit wakes' 5 \<and> \<not> pending_bit wakes' 6"
proof -
  obtain bc wakes' t' where c: "wake_process False 5 (replicate 8 0, ptable_new) = (bc, wakes', t')"
    by (metis prod_cases3)
  have "length (replicate 8 (0::u32)) = 8" "length ptable_new = MAX_PROCS" by (simp_all add: ptable_new_def)
  from wake_process_not_lost [OF this c] have r: "t' = ptable_new"
    "\<And>i. i < MAX_PROCS \<Longrightarrow> pending_bit wakes' i = (i = idx_of 5 \<or> pending_bit (replicate 8 0) i)" by simp_all
  have "pending_bit wakes' 5" "\<not> pending_bit wakes' 6"
    by (simp_all add: r(2) idx_of_def MAX_PROCS_def) (simp add: pending_bit_def)
  then show ?thesis using c r(1) by blast
qed

section \<open>Signals\<close>

text \<open>Signal delivery takes the lowest-numbered pending signal that is not masked, returns its number
  and registered handler, clears exactly that signal, and delivers nothing exactly when every pending
  signal is masked or none is pending.\<close>

lemma dequeue_signal_lowest:
  assumes "length t = MAX_PROCS" "p_pid (proc_at t pid) = pid"
  shows "case dequeue_signal pid t of
      (None, t') \<Rightarrow> t' = t \<and> (\<forall>b. bit (p_pending_sigs (proc_at t pid)) b \<longrightarrow> bit (p_sig_mask (proc_at t pid)) b)
    | (Some (sig, handler), t') \<Rightarrow>
        \<exists>b < 32. sig = of_nat b + 1 \<and> handler = p_sig_handlers (proc_at t pid) ! b \<and>
          bit (p_pending_sigs (proc_at t pid)) b \<and> \<not> bit (p_sig_mask (proc_at t pid)) b \<and>
          (\<forall>c < b. bit (p_pending_sigs (proc_at t pid)) c \<longrightarrow> bit (p_sig_mask (proc_at t pid)) c) \<and>
          (\<forall>c. bit (p_pending_sigs (proc_at t' pid)) c = (bit (p_pending_sigs (proc_at t pid)) c \<and> c \<noteq> b))"
proof -
  let ?p = "proc_at t pid"
  let ?d = "p_pending_sigs ?p AND NOT (p_sig_mask ?p)"
  have bit_d: "bit ?d c = (bit (p_pending_sigs ?p) c \<and> \<not> bit (p_sig_mask ?p) c)" for c
    by (auto simp: bit_simps dest: bit_imp_le_length)
  show ?thesis
  proof (cases "?d = 0")
    case True
    then have "\<not> bit ?d c" for c by simp
    then show ?thesis using True assms bit_d by (auto simp: dequeue_signal_def Let_def)
  next
    case False
    let ?b = "trailing_zeros ?d"
    note b = trailing_zeros_bit [OF False]
    have "dequeue_signal pid t = (Some (of_nat ?b + 1, p_sig_handlers ?p ! ?b),
        t[idx_of pid := ?p\<lparr>p_pending_sigs := p_pending_sigs ?p AND NOT (push_bit ?b 1)\<rparr>])"
      using False assms by (simp add: dequeue_signal_def Let_def del: push_bit_of_1)
    moreover have "bit (p_pending_sigs ?p) ?b" "\<not> bit (p_sig_mask ?p) ?b" "?b < 32"
      using b(1,2) bit_d by simp_all
    moreover have "\<forall>c < ?b. bit (p_pending_sigs ?p) c \<longrightarrow> bit (p_sig_mask ?p) c" using b(3) bit_d by blast
    ultimately show ?thesis using assms(1) by (auto simp: bit_clear_lowest simp del: push_bit_of_1)
  qed
qed

lemma witness_dead [simp]: "length ptable_new = MAX_PROCS" "i < MAX_PROCS \<Longrightarrow> ptable_new ! i = process_empty"
  by (simp_all add: ptable_new_def)

definition witness_signals :: ptable where
  "witness_signals = ptable_new[7 := process_empty\<lparr>p_pid := 7, p_state := Running, p_pending_sigs := 12, p_sig_mask := 4,
     p_sig_handlers := (replicate 32 0)[3 := 4096]\<rparr>]"

lemma dequeue_signal_lowest_witness:
  "\<exists>sig handler t'. dequeue_signal 7 witness_signals = (Some (sig, handler), t') \<and> sig = 4 \<and> handler = 4096
     \<and> \<not> bit (p_pending_sigs (proc_at t' 7)) 3"
proof -
  have at: "proc_at witness_signals 7 = process_empty\<lparr>p_pid := 7, p_state := Running, p_pending_sigs := 12, p_sig_mask := 4,
     p_sig_handlers := (replicate 32 0)[3 := 4096]\<rparr>"
    by (simp add: witness_signals_def proc_at_def idx_of_def MAX_PROCS_def)
  have len: "length witness_signals = MAX_PROCS" by (simp add: witness_signals_def)
  have b3: "b = 3" if "bit (12 :: u32) b" "\<not> bit (4 :: u32) b" "b < 32" for b
  proof -
    have "b \<in> {0..<32}" using that(3) by simp
    then show ?thesis using that(1,2) by (auto simp: atLeast0LessThan lessThan_nat_numeral lessThan_Suc)
  qed
  have b12: "bit (12 :: u32) 3" "\<not> bit (4 :: u32) 3" by simp_all
  have pid: "p_pid (proc_at witness_signals 7) = 7" by (simp add: at)
  obtain r t' where d: "dequeue_signal 7 witness_signals = (r, t')" by fastforce
  have fields: "p_pending_sigs (proc_at witness_signals 7) = 12" "p_sig_mask (proc_at witness_signals 7) = 4"
    "p_sig_handlers (proc_at witness_signals 7) = (replicate 32 0)[3 := 4096]"
    by (simp_all add: at)
  note low = dequeue_signal_lowest [OF len pid, unfolded d prod.case fields]
  show ?thesis
  proof (cases r)
    case None
    have "\<forall>b. bit (12 :: u32) b \<longrightarrow> bit (4 :: u32) b" using low unfolding None option.case by blast
    then show ?thesis using b12 by blast
  next
    case (Some x)
    obtain sig handler where x: "x = (sig, handler)" by fastforce
    obtain b where b: "b < 32" "sig = of_nat b + 1" "handler = (replicate 32 0)[3 := 4096] ! b" "bit (12 :: u32) b"
      "\<not> bit (4 :: u32) b" "\<forall>c. bit (p_pending_sigs (proc_at t' 7)) c = (bit (12 :: u32) c \<and> c \<noteq> b)"
      using low unfolding Some x option.case prod.case by blast
    have "b = 3" by (rule b3 [OF b(4,5,1)])
    then show ?thesis using d Some x b by simp
  qed
qed

section \<open>Time slices\<close>

primrec tick_run :: "nat \<Rightarrow> u32 \<Rightarrow> ptable \<Rightarrow> bool list \<times> ptable" where
  "tick_run 0 pid t = ([], t)"
| "tick_run (Suc n) pid t =
     (let (bs, t1) = tick_run n pid t; (b, t2) = account_tick pid t1 in (bs @ [b], t2))"

lemma slice_cases: "n mod 10 \<in> {0, 1, 2, 3, 4, 5, 6, 7, 8, 9 :: nat}"
  using mod_less_divisor [of 10 n] by (simp; presburger)

text \<open>A running process that starts a quantum is asked to yield on every tenth timer tick, never
  earlier, however long it runs; each tick is added to its CPU time.\<close>

lemma quantum_every_tenth_tick:
  assumes "length t = MAX_PROCS" "p_pid (proc_at t pid) = pid" "p_state (proc_at t pid) = Running"
    "p_slice_left (proc_at t pid) = 10"
  shows "fst (tick_run n pid t) = map (\<lambda>i. Suc i mod 10 = 0) [0..<n]
    \<and> get_cpu_ticks pid (snd (tick_run n pid t)) = p_cpu_ticks (proc_at t pid) + of_nat n"
proof -
  have "fst (tick_run n pid t) = map (\<lambda>i. Suc i mod 10 = 0) [0..<n] \<and>
    (\<exists>t'. snd (tick_run n pid t) = t' \<and> length t' = MAX_PROCS \<and> p_pid (proc_at t' pid) = pid
      \<and> p_state (proc_at t' pid) = Running \<and> p_slice_left (proc_at t' pid) = of_nat (10 - n mod 10)
      \<and> p_cpu_ticks (proc_at t' pid) = p_cpu_ticks (proc_at t pid) + of_nat n)"
  proof (induction n)
    case 0
    then show ?case using assms by simp
  next
    case (Suc n)
    obtain bs t1 where r: "tick_run n pid t = (bs, t1)" by fastforce
    have t1: "length t1 = MAX_PROCS" "p_pid (proc_at t1 pid) = pid" "p_state (proc_at t1 pid) = Running"
      "p_slice_left (proc_at t1 pid) = of_nat (10 - n mod 10)"
      "p_cpu_ticks (proc_at t1 pid) = p_cpu_ticks (proc_at t pid) + of_nat n"
      "bs = map (\<lambda>i. Suc i mod 10 = 0) [0..<n]"
      using Suc.IH r by simp_all
    show ?case using slice_cases [of n] t1 by (auto simp: r account_tick_def Let_def mod_Suc)
  qed
  then show ?thesis by (auto simp: get_cpu_ticks_def)
qed

definition witness_running :: ptable where
  "witness_running = ptable_new[3 := process_empty\<lparr>p_pid := 3, p_state := Running\<rparr>]"

lemma quantum_every_tenth_tick_witness:
  "fst (tick_run 10 3 witness_running) = replicate 9 False @ [True]
   \<and> get_cpu_ticks 3 (snd (tick_run 10 3 witness_running)) = 10"
proof -
  have at: "proc_at witness_running 3 = process_empty\<lparr>p_pid := 3, p_state := Running\<rparr>"
    by (simp add: witness_running_def proc_at_def idx_of_def MAX_PROCS_def)
  have pre: "length witness_running = MAX_PROCS" "p_pid (proc_at witness_running 3) = 3"
    "p_state (proc_at witness_running 3) = Running" "p_slice_left (proc_at witness_running 3) = 10"
    by (simp add: witness_running_def) (simp_all add: at process_empty_def)
  have l: "map (\<lambda>i. Suc i mod 10 = 0) [0..<10] = replicate 9 False @ [True]"
    by code_simp
  show ?thesis
    using quantum_every_tenth_tick [OF pre, of 10] unfolding l by (simp add: at process_empty_def)
qed

end
