(* ===== verification/Proc_Runs.thy ===== *)
theory Proc_Runs
  imports Proc_Life
begin

text \<open>
  Runs of the process subsystem: sequences of calls from boot keep the invariant of the table and
  always return, and what the exit, kill, fork and spawn paths do with the memory of a process.
\<close>

section \<open>Sequences of operations\<close>

datatype proc_op =
    OpSpawn bytes spawn_bootstrap
  | OpThread u32 u64 u64 nat
  | OpClone bool user_regs u32 u64 u64
  | OpFork bool user_regs u32
  | OpExit u32 i32
  | OpKill u32
  | OpKillGroup u32
  | OpWait u32
  | OpReapOne u32
  | OpReapChildren u32
  | OpReap u32
  | OpWake bool u32
  | OpSetRunning u32
  | OpSetBlocked u32
  | OpTick u32
  | OpRaise u32 u8
  | OpDequeue u32
  | OpClaim u32 u32
  | OpSaveRegs u32 user_regs

definition on_table :: "(ptable \<Rightarrow> ptable) \<Rightarrow> kproc \<Rightarrow> kproc" where
  "on_table f s = s\<lparr>kp_table := f (kp_table s)\<rparr>"

primrec proc_exec :: "paging_ops \<Rightarrow> proc_op \<Rightarrow> kproc \<Rightarrow> kproc option" where
  "proc_exec po (OpSpawn elf bs) s = Some (snd (spawn_with_bootstrap po elf bs s))"
| "proc_exec po (OpThread parent entry arg sz) s = map_option snd (spawn_thread po parent entry arg sz s)"
| "proc_exec po (OpClone captured snap parent rip rsp) s = map_option snd (clone_thread captured snap parent rip rsp s)"
| "proc_exec po (OpFork captured snap parent) s = Some (snd (fork_current po captured snap parent s))"
| "proc_exec po (OpExit pid code) s = proc_exit pid code s"
| "proc_exec po (OpKill pid) s = map_option snd (proc_kill pid s)"
| "proc_exec po (OpKillGroup leader) s = map_option snd (kill_group leader s)"
| "proc_exec po (OpWait pid) s = Some (on_table (\<lambda>t. snd (waitpid pid t)) s)"
| "proc_exec po (OpReapOne parent) s = Some (on_table (\<lambda>t. snd (reap_one_zombie parent t)) s)"
| "proc_exec po (OpReapChildren parent) s = Some (on_table (\<lambda>t. snd (reap_zombie_children parent t)) s)"
| "proc_exec po (OpReap pid) s = Some (on_table (reap_zombie pid) s)"
| "proc_exec po (OpWake locked pid) s =
     Some (case wake_process locked pid (kp_wakes s, kp_table s) of
             (bc, w, t) \<Rightarrow> s\<lparr>kp_wakes := w, kp_table := t\<rparr>)"
| "proc_exec po (OpSetRunning pid) s = Some (on_table (\<lambda>t. snd (set_state pid Running t)) s)"
| "proc_exec po (OpSetBlocked pid) s = Some (on_table (\<lambda>t. snd (set_state pid Blocked t)) s)"
| "proc_exec po (OpTick pid) s = Some (on_table (\<lambda>t. snd (account_tick pid t)) s)"
| "proc_exec po (OpRaise pid sig) s = Some (on_table (raise_signal pid sig) s)"
| "proc_exec po (OpDequeue pid) s = Some (on_table (\<lambda>t. snd (dequeue_signal pid t)) s)"
| "proc_exec po (OpClaim pid cpu) s = Some (on_table (\<lambda>t. snd (try_claim_cpu_for pid cpu t)) s)"
| "proc_exec po (OpSaveRegs pid regs) s = Some (on_table (save_regs pid regs) s)"

text \<open>Threads are created by a user process, whose pid is not 0.\<close>

primrec op_ok :: "proc_op \<Rightarrow> bool" where
  "op_ok (OpSpawn elf bs) = True"
| "op_ok (OpThread parent entry arg sz) = (parent \<noteq> 0)"
| "op_ok (OpClone captured snap parent rip rsp) = (parent \<noteq> 0)"
| "op_ok (OpFork captured snap parent) = True"
| "op_ok (OpExit pid code) = True"
| "op_ok (OpKill pid) = True"
| "op_ok (OpKillGroup leader) = True"
| "op_ok (OpWait pid) = True"
| "op_ok (OpReapOne parent) = True"
| "op_ok (OpReapChildren parent) = True"
| "op_ok (OpReap pid) = True"
| "op_ok (OpWake locked pid) = True"
| "op_ok (OpSetRunning pid) = True"
| "op_ok (OpSetBlocked pid) = True"
| "op_ok (OpTick pid) = True"
| "op_ok (OpRaise pid sig) = True"
| "op_ok (OpDequeue pid) = True"
| "op_ok (OpClaim pid cpu) = True"
| "op_ok (OpSaveRegs pid regs) = True"

primrec proc_run :: "paging_ops \<Rightarrow> proc_op list \<Rightarrow> kproc \<Rightarrow> kproc option" where
  "proc_run po [] s = Some s"
| "proc_run po (c # cs) s = do { s' \<leftarrow> proc_exec po c s; proc_run po cs s' }"

definition proc_boot :: "frame_bitmap \<Rightarrow> u64 \<Rightarrow> u32 \<Rightarrow> kproc" where
  "proc_boot fb hhdm cpus = \<lparr> kp_table = ptable_new, kp_wakes = replicate 8 0, kp_next_pid = 1,
     kp_frames = fb, kp_hhdm = hhdm, kp_cpu_count = cpus, kp_next_app_cpu = 0,
     kp_home_work = replicate MAX_CPUS False, kp_calls = [] \<rparr>"

lemma proc_boot_inv: "proc_inv (proc_boot fb hhdm cpus)"
  by (simp add: proc_inv_def proc_boot_def table_inv_new)

lemma on_table_ok:
  assumes inv: "proc_inv s" and f: "\<And>n. table_inv n (kp_table s) \<Longrightarrow> 0 < n \<Longrightarrow> table_inv n (f (kp_table s))"
  shows "proc_ok s (on_table f s)"
  using inv f [of "unat (kp_next_pid s)"] by (simp add: proc_ok_def proc_inv_def on_table_def unat_gt_0)

lemma waitpid_inv: "table_inv n t \<Longrightarrow> table_inv n (snd (waitpid pid t))"
  by (simp add: waitpid_def Let_def table_inv_empty split: proc_state.split)

lemma reap_one_inv: "table_inv n t \<Longrightarrow> table_inv n (snd (reap_one_zombie parent t))"
  by (auto simp: reap_one_zombie_def table_inv_length dest: position_Some intro!: table_inv_empty split: option.split)

lemma reap_children_inv: "table_inv n t \<Longrightarrow> table_inv n (snd (reap_zombie_children parent t))"
  by (auto simp: reap_zombie_children_def table_inv_def flat_groups_def process_empty_def [THEN arg_cong, of p_is_thread])

lemma reap_inv: "table_inv n t \<Longrightarrow> table_inv n (reap_zombie pid t)"
  by (simp add: reap_zombie_def table_inv_empty)

lemma set_state_inv:
  assumes "table_inv n t" "0 < n" "st = Running \<or> st = Blocked"
  shows "table_inv n (snd (set_state pid st t))"
proof (cases "p_pid (proc_at t pid) = pid")
  case True
  have dead: "p_state (t ! idx_of pid) = Dead \<Longrightarrow> idx_of pid = 0"
    using table_inv_slot [OF assms(1), of "idx_of pid"] True
    by (simp add: slot_ok_def proc_at_def) (simp add: idx_of_def)
  have "table_inv n (t[idx_of pid := (t ! idx_of pid)\<lparr>p_state := st\<rparr>])"
    by (rule table_inv_same [OF assms(1)]) (use assms dead in auto)
  then show ?thesis using True by (simp add: set_state_def update_pid_def Let_def proc_at_def)
qed (use assms in \<open>simp add: set_state_def update_pid_def Let_def\<close>)

lemma woken_fields [simp]:
  "p_pid (woken p) = p_pid p" "p_is_thread (woken p) = p_is_thread p" "p_parent_pid (woken p) = p_parent_pid p"
  "p_xstate (woken p) = p_xstate p" "(p_state (woken p) = Dead) = (p_state p = Dead)"
  by (simp_all add: woken_def)

lemma table_inv_woken:
  assumes inv: "table_inv n t" and t': "length t' = MAX_PROCS"
    "\<And>i. i < MAX_PROCS \<Longrightarrow> t' ! i = (if P i then woken (t ! i) else t ! i)"
  shows "table_inv n t'"
  using inv unfolding table_inv_def flat_groups_def slot_ok_def by (simp add: t')

lemma wake_process_inv:
  assumes inv: "table_inv n t" and len: "length wakes = 8" and call: "wake_process locked pid (wakes, t) = (bc, w', t')"
  shows "table_inv n t'" "length w' = 8"
proof -
  define w where "w = (if idx_of pid div 32 < 8
    then wakes[idx_of pid div 32 := wakes ! (idx_of pid div 32) OR push_bit (idx_of pid mod 32) 1] else wakes)"
  have w: "length w = 8" "handle_pending_wakes_try locked (w, t) = (bc, w', t')"
    using call len by (simp_all add: w_def wake_process_def Let_def del: push_bit_of_1)
  have "table_inv n t' \<and> length w' = 8"
  proof (cases locked)
    case True
    then have h: "handle_pending_wakes_try True (w, t) = (bc, w', t')" using w by simp
    note H = handle_wakes_locked [OF w(1) table_inv_length [OF inv] h]
    show ?thesis using table_inv_woken [OF inv H(2) H(4)] H(1) by simp
  qed (use w inv in \<open>simp add: handle_pending_wakes_try_def\<close>)
  then show "table_inv n t'" "length w' = 8" by simp_all
qed

lemma table_inv_at:
  assumes "table_inv n t" "p_pid p = p_pid (proc_at t pid)" "p_is_thread p = p_is_thread (proc_at t pid)"
    "p_parent_pid p = p_parent_pid (proc_at t pid)" "p_xstate p = p_xstate (proc_at t pid)"
    "p_state p = p_state (proc_at t pid)"
  shows "table_inv n (t[idx_of pid := p])"
  by (rule table_inv_same [OF assms(1)]) (use assms in \<open>simp_all add: proc_at_def\<close>)

lemma descriptor_ops_inv:
  assumes "table_inv n t"
  shows "table_inv n (snd (account_tick pid t))" "table_inv n (raise_signal pid sig t)"
    "table_inv n (snd (dequeue_signal pid t))" "table_inv n (snd (try_claim_cpu_for pid cpu t))"
    "table_inv n (save_regs pid regs t)" "table_inv n (snd (save_full_user_gprs snap pid (captured, t)))"
  by (simp_all add: account_tick_def dequeue_signal_def try_claim_cpu_for_def Let_def assms table_inv_at
        raise_signal_def save_regs_def save_full_user_gprs_def table_inv_update_pid keeps_identity_def del: push_bit_of_1)

lemma thread_op_ok:
  assumes inv: "proc_inv s" and b: "next_bound s" and parent: "parent \<noteq> 0"
  shows "\<exists>r s'. spawn_thread po parent entry arg sz s = Some (r, s') \<and> proc_ok s s'"
proof (cases "live_pid (kp_table s) parent")
  case False
  then show ?thesis using inv by (auto simp: spawn_thread_def live_pid_def Let_def proc_ok_refl)
next
  case True
  then have alive: "p_pid (proc_at (kp_table s) parent) = parent" "p_state (proc_at (kp_table s) parent) \<noteq> Dead"
    by (simp_all add: live_pid_def)
  have t: "table_inv (unat (kp_next_pid s)) (kp_table s)" using inv by (simp add: proc_inv_def)
  obtain owner where o: "get_group_leader (kp_table s) parent = Some owner" using get_group_leader_eq [OF t] by blast
  obtain q s1 where a: "alloc_pid s = (q, s1)" by fastforce
  from spawn_thread_result [OF alive o a] obtain r s' where
    "spawn_thread po parent entry arg sz s = Some (r, s')" "thread_result owner s q s1 r s'" by blast
  then show ?thesis using thread_ok [OF inv b a o alive parent] by blast
qed

lemma clone_op_ok:
  assumes inv0: "proc_inv s0" and b0: "next_bound s0" and parent: "parent \<noteq> 0"
  shows "\<exists>r s'. clone_thread captured snap parent rip rsp s0 = Some (r, s') \<and> proc_ok s0 s'"
proof -
  define s where "s = s0\<lparr>kp_table := snd (save_full_user_gprs snap parent (captured, kp_table s0))\<rparr>"
  have inv: "proc_inv s" using inv0 by (simp add: s_def proc_inv_def descriptor_ops_inv(6))
  have b: "next_bound s" and same: "\<And>s'. proc_ok s0 s' = proc_ok s s'"
    using b0 by (simp_all add: next_bound_def s_def proc_ok_def)
  show ?thesis
  proof (cases "live_pid (kp_table s) parent")
    case False
    then have "clone_thread captured snap parent rip rsp s0 = Some (Inl ''parent not found'', s)"
      by (auto simp: clone_thread_def live_pid_def s_def [symmetric])
    then show ?thesis using inv same by (auto simp: proc_ok_refl)
  next
    case True
    then have alive: "p_pid (proc_at (kp_table s) parent) = parent" "p_state (proc_at (kp_table s) parent) \<noteq> Dead"
      by (simp_all add: live_pid_def)
    have t: "table_inv (unat (kp_next_pid s)) (kp_table s)" using inv by (simp add: proc_inv_def)
    obtain owner where o: "get_group_leader (kp_table s) parent = Some owner" using get_group_leader_eq [OF t] by blast
    obtain q s1 where a: "alloc_pid s = (q, s1)" by fastforce
    from clone_thread_result [OF alive o a s_def] obtain r s' where
      "clone_thread captured snap parent rip rsp s0 = Some (r, s')" "thread_result owner s q s1 r s'" by blast
    then show ?thesis using thread_ok [OF inv b a o alive parent] same by blast
  qed
qed

lemma kill_ops_ok:
  assumes inv: "proc_inv s"
  shows "\<exists>r s'. proc_kill pid s = Some (r, s') \<and> proc_ok s s'" "\<exists>r s'. kill_group leader s = Some (r, s') \<and> proc_ok s s'"
proof -
  show "\<exists>r s'. proc_kill pid s = Some (r, s') \<and> proc_ok s s'"
    using proc_exit_ok [OF inv, of pid SIGKILL_CODE] proc_ok_refl [OF inv] by (auto simp: proc_kill_def Let_def)
  have t: "table_inv (unat (kp_next_pid s)) (kp_table s)" using inv by (simp add: proc_inv_def)
  obtain vs where "group_victims leader (kp_table s) (kp_table s) = Some vs" using group_victims_eq [OF t] by blast
  then show "\<exists>r s'. kill_group leader s = Some (r, s') \<and> proc_ok s s'"
    using exit_all_table [OF inv, of vs] by (auto simp: kill_group_def proc_ok_def)
qed

lemma wake_op_ok:
  assumes inv: "proc_inv s"
  shows "proc_ok s (case wake_process locked pid (kp_wakes s, kp_table s) of
           (bc, w, t) \<Rightarrow> s\<lparr>kp_wakes := w, kp_table := t\<rparr>)"
proof -
  obtain bc w t where c: "wake_process locked pid (kp_wakes s, kp_table s) = (bc, w, t)" by (metis prod_cases3)
  have t: "table_inv (unat (kp_next_pid s)) (kp_table s)" "length (kp_wakes s) = 8"
    using inv by (simp_all add: proc_inv_def)
  show ?thesis using inv wake_process_inv [OF t c] by (simp add: c proc_ok_def proc_inv_def)
qed

lemma proc_exec_ok:
  assumes inv: "proc_inv s" and b: "next_bound s" and ok: "op_ok c"
  shows "\<exists>s'. proc_exec po c s = Some s' \<and> proc_ok s s'"
proof (cases c)
  case (OpSpawn elf bs)
  then show ?thesis using spawn_ok [OF inv b] by (metis proc_exec.simps(1) prod.collapse)
next
  case (OpThread parent entry arg sz)
  then show ?thesis using thread_op_ok [OF inv b, of parent] ok by fastforce
next
  case (OpClone captured snap parent rip rsp)
  then show ?thesis using clone_op_ok [OF inv b, of parent] ok by fastforce
next
  case (OpFork captured snap parent)
  then show ?thesis using fork_ok [OF inv b] by (metis proc_exec.simps(4) prod.collapse)
next
  case (OpExit pid code)
  then show ?thesis using proc_exit_ok [OF inv] by simp
next
  case (OpKill pid)
  then show ?thesis using kill_ops_ok(1) [OF inv, of pid] by fastforce
next
  case (OpKillGroup leader)
  then show ?thesis using kill_ops_ok(2) [OF inv, of leader] by fastforce
qed (simp_all add: on_table_ok [OF inv] wake_op_ok [OF inv] waitpid_inv reap_one_inv reap_children_inv reap_inv
       set_state_inv descriptor_ops_inv del: case_prod_conv)

lemma proc_run_ok:
  assumes "proc_inv s" "\<forall>c \<in> set cs. op_ok c" "unat (kp_next_pid s) + MAX_PROCS * Suc (length cs) < 2 ^ 32"
  shows "\<exists>s'. proc_run po cs s = Some s' \<and> proc_inv s'"
  using assms
proof (induction cs arbitrary: s)
  case (Cons c cs)
  have "next_bound s" using Cons.prems(3) by (simp add: next_bound_def)
  then obtain s1 where s1: "proc_exec po c s = Some s1" "proc_ok s s1"
    using proc_exec_ok [OF Cons.prems(1)] Cons.prems(2) by fastforce
  have "proc_inv s1" "unat (kp_next_pid s1) + MAX_PROCS * Suc (length cs) < 2 ^ 32"
    using s1(2) Cons.prems(3) by (simp_all add: proc_ok_def)
  from Cons.IH [OF this(1) _ this(2)] show ?case using s1 Cons.prems(2) by simp
qed simp


text \<open>Paging routines that always succeed.\<close>

definition witness_paging :: paging_ops where
  "witness_paging = \<lparr> po_alloc_user_pml4 = frame_alloc, po_elf_load = (\<lambda>_ _ fb. (Inr 0x400000, fb)),
     po_map_user_page = (\<lambda>_ _ _ fb. (None, fb)), po_map_system_pages = (\<lambda>_ fb. (None, fb)),
     po_mmap_anon = (\<lambda>_ _ _ fb. (0x300000000, fb)),
     po_clone_address_space = (\<lambda>_ fb. (Inr 0x200000, fb)), po_thread_return_va = 0 \<rparr>"


section \<open>Exit, kill and fork\<close>

lemma fold_kcall: "fold kcall cs s = s\<lparr>kp_calls := kp_calls s @ cs\<rparr>"
  by (induction cs arbitrary: s) (simp_all add: kcall_def)

lemma free_syscall_stack_calls [simp]:
  "kp_calls (free_syscall_stack ptr s) = kp_calls s" "kp_table (free_syscall_stack ptr s) = kp_table s"
  by (simp_all add: free_syscall_stack_def)

lemma exit_process_calls:
  assumes t: "table_inv n (kp_table s)" and live: "live_pid (kp_table s) pid" "\<not> p_is_thread (proc_at (kp_table s) pid)"
  shows "\<exists>s'. proc_exit pid code s = Some s' \<and> kp_table s' = (kp_table s)[idx_of pid := exited code (proc_at (kp_table s) pid)]
    \<and> kp_calls s' = kp_calls s @ [FreeUserPml4 (p_pml4_phys (proc_at (kp_table s) pid)), NoteThreadExit pid pid code]"
proof -
  let ?p = "proc_at (kp_table s) pid"
  have l: "get_group_leader ((kp_table s)[idx_of pid := exited code ?p]) pid = Some pid"
    using get_group_leader_eq [OF exited_inv [OF t live(1)], of code pid] live(2) table_inv_length [OF t]
    by (simp add: is_thread_def exited_def)
  show ?thesis
    using live l by (simp add: proc_exit_def live_pid_def exit_releases_def fold_kcall kcall_def Let_def)
qed

text \<open>C24.  Killing a process that has already exited but has not been reaped releases its page tables a
  second time and replaces its exit code: the guard of \<^verbatim>\<open>exit\<close> only rejects dead slots, and the zombie
  still holds the address of the page-table root.\<close>

theorem kill_zombie_frees_page_tables_twice:
  assumes inv: "proc_inv s" and live: "live_pid (kp_table s) pid" "\<not> p_is_thread (proc_at (kp_table s) pid)"
  shows "\<exists>s1 s2. proc_exit pid code s = Some s1 \<and> proc_kill pid s1 = Some (True, s2)
    \<and> kp_calls s2 = kp_calls s @
        [FreeUserPml4 (p_pml4_phys (proc_at (kp_table s) pid)), NoteThreadExit pid pid code,
         FreeUserPml4 (p_pml4_phys (proc_at (kp_table s) pid)), NoteThreadExit pid pid SIGKILL_CODE]
    \<and> fst (waitpid pid (kp_table s1)) = Inr code \<and> fst (waitpid pid (kp_table s2)) = Inr SIGKILL_CODE"
proof -
  have t: "table_inv (unat (kp_next_pid s)) (kp_table s)" using inv by (simp add: proc_inv_def)
  note len = table_inv_length [OF t]
  let ?p = "proc_at (kp_table s) pid"
  obtain s1 where s1: "proc_exit pid code s = Some s1"
    "kp_table s1 = (kp_table s)[idx_of pid := exited code ?p]"
    "kp_calls s1 = kp_calls s @ [FreeUserPml4 (p_pml4_phys ?p), NoteThreadExit pid pid code]"
    using exit_process_calls [OF t live] by blast
  have t1: "table_inv (unat (kp_next_pid s)) (kp_table s1)" unfolding s1(2) by (rule exited_inv [OF t live(1)])
  have p1: "proc_at (kp_table s1) pid = exited code ?p" using s1(2) len by simp
  have live1: "live_pid (kp_table s1) pid" "\<not> p_is_thread (proc_at (kp_table s1) pid)"
    using live by (simp_all add: p1 live_pid_def exited_def)
  obtain s2 where s2: "proc_exit pid SIGKILL_CODE s1 = Some s2"
    "kp_table s2 = (kp_table s1)[idx_of pid := exited SIGKILL_CODE (exited code ?p)]"
    "kp_calls s2 = kp_calls s1 @ [FreeUserPml4 (p_pml4_phys (exited code ?p)), NoteThreadExit pid pid SIGKILL_CODE]"
    using exit_process_calls [OF t1 live1] unfolding p1 by blast
  have "proc_at (kp_table s2) pid = exited SIGKILL_CODE (exited code ?p)"
    using s2(2) table_inv_length [OF t1] by simp
  then show ?thesis using s1 s2 p1 live1 live
    by (auto simp: proc_kill_def live_pid_def Let_def waitpid_def exited_def)
qed

text \<open>A table with the single process 1, and a kernel state around it.\<close>

definition witness_proc :: process where
  "witness_proc = process_empty\<lparr>p_pid := 1, p_state := Running, p_pml4_phys := 0x200000\<rparr>"

definition witness_kproc :: kproc where
  "witness_kproc = (proc_boot bitmap_new 0 1)\<lparr>kp_table := ptable_new[1 := witness_proc], kp_next_pid := 2\<rparr>"

lemma witness_at: "proc_at (kp_table witness_kproc) 1 = witness_proc"
  by (simp add: witness_kproc_def proc_at_def idx_of_def MAX_PROCS_def)

lemma witness_inv: "proc_inv witness_kproc"
proof -
  have "table_inv 2 (ptable_new[1 := witness_proc])"
    by (rule table_inv_process [OF table_inv_new])
       (simp_all add: MAX_PROCS_def slot_ok_def witness_proc_def idx_of_def process_empty_def)
  then show ?thesis by (simp add: proc_inv_def witness_kproc_def proc_boot_def)
qed

lemma witness_live: "live_pid (kp_table witness_kproc) 1" "\<not> p_is_thread (proc_at (kp_table witness_kproc) 1)"
  by (simp_all add: live_pid_def witness_at) (simp_all add: witness_proc_def process_empty_def)

theorem kill_zombie_frees_page_tables_twice_witness:
  "\<exists>s1 s2. proc_exit 1 0 witness_kproc = Some s1 \<and> proc_kill 1 s1 = Some (True, s2)
    \<and> kp_calls s2 = [FreeUserPml4 0x200000, NoteThreadExit 1 1 0, FreeUserPml4 0x200000, NoteThreadExit 1 1 SIGKILL_CODE]"
proof -
  have "kp_calls witness_kproc = []" by (simp add: witness_kproc_def proc_boot_def)
  moreover have "p_pml4_phys (proc_at (kp_table witness_kproc) 1) = 0x200000"
    unfolding witness_at by (simp add: witness_proc_def)
  ultimately show ?thesis
    using kill_zombie_frees_page_tables_twice [OF witness_inv witness_live, of 0] by auto
qed

theorem kill_group_complete_witness:
  "\<exists>s'. kill_group 1 witness_kproc = Some (1, s') \<and> p_state (proc_at (kp_table s') 1) = Zombie SIGKILL_CODE"
proof -
  have "is_thread 1 (kp_table witness_kproc) = False"
    using witness_live(2) by (simp add: is_thread_def)
  then have act: "active_member (kp_table witness_kproc) 1 witness_proc"
    by (simp add: active_member_def leader_of_def) (simp add: witness_proc_def)
  have empty: "\<not> active_member (kp_table witness_kproc) 1 process_empty"
    by (simp add: active_member_def process_empty_def)
  have rep: "ptable_new = replicate 1 process_empty @ process_empty # replicate 254 process_empty"
    unfolding ptable_new_def MAX_PROCS_def by (simp add: replicate_add [symmetric] flip: replicate_Suc)
  have "kp_table witness_kproc = process_empty # witness_proc # replicate 254 process_empty"
    unfolding witness_kproc_def kproc.simps rep by simp
  then have n: "length (filter (active_member (kp_table witness_kproc) 1) (kp_table witness_kproc)) = 1"
    using act empty by simp
  have one: "idx_of 1 = 1" by (simp add: idx_of_def MAX_PROCS_def)
  from kill_group_complete [OF witness_inv, of 1] obtain s' where s': "kill_group 1 witness_kproc = Some (1, s')"
    "\<And>i. i < MAX_PROCS \<Longrightarrow> kp_table s' ! i =
        (if active_member (kp_table witness_kproc) 1 (kp_table witness_kproc ! i)
         then exited SIGKILL_CODE (kp_table witness_kproc ! i) else kp_table witness_kproc ! i)"
    unfolding n by blast
  have "kp_table witness_kproc ! 1 = witness_proc" using witness_at by (simp add: proc_at_def one)
  then have "kp_table s' ! 1 = exited SIGKILL_CODE witness_proc" using s'(2) [of 1] act by (simp add: MAX_PROCS_def)
  then show ?thesis using s'(1) by (simp add: proc_at_def one exited_def)
qed

text \<open>C23.  Fork from a system call, whose registers were captured at entry: the child is a process of its own whose registers are those of the parent except that
  \<^verbatim>\<open>rax\<close> is 0, with exactly the capabilities of its parent.  Its floating-point save area however is all
  zeros, the control words with unmasked exceptions that a spawned process or thread is
  explicitly protected from.\<close>

theorem fork_child_descriptor:
  assumes inv: "proc_inv s" and fork: "fork_current po True snap parent s = (Inr child, s')"
  shows "p_pid (proc_at (kp_table s') child) = child
    \<and> p_state (proc_at (kp_table s') child) = Running \<and> \<not> is_thread child (kp_table s')
    \<and> p_regs (proc_at (kp_table s') child) = (p_regs (proc_at (kp_table s) parent))\<lparr>r_rax := 0\<rparr>
    \<and> p_caps (proc_at (kp_table s') child) = p_caps (proc_at (kp_table s) parent)
    \<and> p_xstate (proc_at (kp_table s') child) = xstate_zero \<and> xstate_zero \<noteq> xstate_default"
proof -
  have t: "table_inv (unat (kp_next_pid s)) (kp_table s)" using inv by (simp add: proc_inv_def)
  note len = table_inv_length [OF t]
  have same: "s\<lparr>kp_table := snd (save_full_user_gprs snap parent (True, kp_table s))\<rparr> = s"
    by (simp add: save_full_user_gprs_def)
  have p0: "parent \<noteq> 0" using fork by (auto simp: fork_current_def)
  obtain q s1 where a: "alloc_pid s = (q, s1)" by fastforce
  have q: "q = Some child"
    using fork p0 a unfolding fork_current_def same Let_def
    by (auto split: option.splits prod.splits sum.splits)
  let ?p = "proc_at (kp_table s) parent"
  have tab: "kp_table s1 = kp_table s" by (rule alloc_pid_slot(1) [OF a])
  have "\<exists>pml4 stk. kp_table s' = (kp_table s)[idx_of child :=
      forked child pml4 (p_regs ?p) stk parent (p_caps ?p) (proc_at (kp_table s) child)]"
  proof -
    obtain y fb where y: "po_clone_address_space po (p_pml4_phys ?p) (kp_frames s1) = (y, fb)" by fastforce
    obtain pml4 where pml4: "y = Inr pml4"
      using fork p0 a q y tab unfolding fork_current_def same Let_def by (cases y) auto
    let ?s = "kcall (CloneAsSlot (p_pml4_phys ?p) pml4) (s1\<lparr>kp_frames := fb\<rparr>)"
    obtain x s2 where x: "alloc_syscall_stack ?s = (x, s2)" by fastforce
    have "kp_table s2 = kp_table s" using alloc_syscall_stack_core [OF x] tab by (simp add: core_def kcall_def)
    moreover obtain stk where "x = Some stk"
      using fork p0 a q y tab pml4 x unfolding fork_current_def same Let_def by (cases x) auto
    ultimately have "kp_table s' = (kp_table s)[idx_of child :=
        forked child pml4 (p_regs ?p) stk parent (p_caps ?p) (proc_at (kp_table s) child)]"
      using fork p0 a q y tab pml4 x unfolding fork_current_def same Let_def by auto
    then show ?thesis by blast
  qed
  then obtain pml4 stk where t': "kp_table s' = (kp_table s)[idx_of child :=
      forked child pml4 (p_regs ?p) stk parent (p_caps ?p) (proc_at (kp_table s) child)]" by blast
  have dead: "p_state (proc_at (kp_table s) child) = Dead" by (rule alloc_pid_slot(2) [OF a q])
  have "slot_ok (unat (kp_next_pid s)) (idx_of child) (proc_at (kp_table s) child)"
    unfolding proc_at_def by (rule table_inv_slot [OF t]) simp
  then have x: "p_xstate (proc_at (kp_table s) child) = xstate_zero" using dead by (simp add: slot_ok_def)
  have "xstate_zero ! 0 = 0" "xstate_default ! 0 = 0x7F"
    by (simp_all add: xstate_zero_def xstate_default_def XSTATE_SIZE_def)
  then have "xstate_zero \<noteq> xstate_default" by force
  then show ?thesis using x len by (simp add: t' forked_def is_thread_def)
qed

section \<open>Kernel stacks of spawned processes\<close>

lemma stack_available:
  assumes wf: "bitmap_wf (kp_frames s)" and run: "free_run (kp_frames s) STACK_FRAMES g"
  shows "\<exists>stk s'. alloc_syscall_stack s = (Some stk, s') \<and> bitmap_wf (kp_frames s')
    \<and> fb_used (kp_frames s') = fb_used (kp_frames s) + STACK_FRAMES
    \<and> card (free_frames (kp_frames s')) + STACK_FRAMES = card (free_frames (kp_frames s))
    \<and> kp_table s' = kp_table s \<and> kp_calls s' = kp_calls s"
proof -
  have pos: "0 < STACK_FRAMES" by (simp add: STACK_FRAMES_def SYSCALL_STACK_SIZE_def)
  obtain r fb where a: "alloc_contiguous STACK_FRAMES (kp_frames s) = (r, fb)" by fastforce
  obtain phys where r: "r = Some phys" using alloc_contiguous_spec [OF wf pos a] run by (cases r) auto
  note e = alloc_contiguous_effect [OF wf a [unfolded r] refl]
  let ?R = "{unat (phys div of_nat FRAME_SIZE)..<unat (phys div of_nat FRAME_SIZE) + STACK_FRAMES}"
  have sub: "?R \<subseteq> free_frames (kp_frames s)" and fb: "free_frames fb = free_frames (kp_frames s) - ?R" using e by blast+
  have "card ?R = STACK_FRAMES" by simp
  then have "card (free_frames fb) = card (free_frames (kp_frames s)) - STACK_FRAMES"
    "STACK_FRAMES \<le> card (free_frames (kp_frames s))"
    using card_Diff_subset [OF _ sub] card_mono [OF finite_free_frames sub] unfolding fb by simp_all
  then have "card (free_frames fb) + STACK_FRAMES = card (free_frames (kp_frames s))" by simp
  then show ?thesis using a r e by (simp add: alloc_syscall_stack_def)
qed


text \<open>A bitmap whose frames 256 to 319 are free.\<close>

definition witness_frames :: frame_bitmap where
  "witness_frames = bitmap_new\<lparr>fb_bits := (fb_bits bitmap_new)[4 := - 1]\<rparr>"

lemma witness_frames_run: "bitmap_wf witness_frames" "free_run witness_frames STACK_FRAMES 256"
proof -
  show "bitmap_wf witness_frames" by (simp add: witness_frames_def bitmap_wf_def bitmap_new_def)
  have "f \<in> free_frames witness_frames" if "f \<in> {256..<320}" for f
  proof -
    have "f div 64 = 4" using that by (simp add: div_nat_eqI)
    then show ?thesis using that
      by (simp add: free_frames_def free_bits_def witness_frames_def bitmap_new_def MAX_FRAMES_def)
  qed
  then show "free_run witness_frames STACK_FRAMES 256"
    by (auto simp: free_run_def kernel_defs STACK_FRAMES_def)
qed

definition failing_paging :: paging_ops where
  "failing_paging = witness_paging\<lparr>po_alloc_user_pml4 := \<lambda>fb. (None, fb)\<rparr>"


theorem fork_child_descriptor_witness:
  "\<exists>child s'. fork_current witness_paging True user_regs_default 1 (witness_kproc\<lparr>kp_frames := witness_frames\<rparr>) = (Inr child, s')
    \<and> p_xstate (proc_at (kp_table s') child) = xstate_zero"
proof -
  let ?s = "witness_kproc\<lparr>kp_frames := witness_frames\<rparr>"
  have inv: "proc_inv ?s" using witness_inv by (simp add: proc_inv_def)
  have same: "?s\<lparr>kp_table := snd (save_full_user_gprs user_regs_default 1 (True, kp_table ?s))\<rparr> = ?s"
    by (simp add: save_full_user_gprs_def)
  obtain q s1 where a: "alloc_pid ?s = (q, s1)" by fastforce
  have "p_state (kp_table ?s ! 0) = Dead" by (simp add: witness_kproc_def MAX_PROCS_def process_empty_def)
  then obtain child where q: "q = Some child"
    using alloc_pid_None_iff [of ?s] a by (metis MAX_PROCS_def fst_conv option.exhaust zero_less_numeral)
  have s1: "kp_frames s1 = witness_frames" using a by (auto simp: alloc_pid_def split: prod.splits)
  let ?s1 = "kcall (CloneAsSlot (p_pml4_phys (proc_at (kp_table s1) 1)) 0x200000) s1"
  obtain stk s2 where st: "alloc_syscall_stack ?s1 = (Some stk, s2)"
    using stack_available [of ?s1 256] witness_frames_run s1 by (auto simp: kcall_def)
  have "s1\<lparr>kp_frames := witness_frames\<rparr> = s1" using s1 by simp
  then obtain s' where f: "fork_current witness_paging True user_regs_default 1 ?s = (Inr child, s')"
    using a q s1 st unfolding fork_current_def same Let_def by (simp add: witness_paging_def)
  then show ?thesis using fork_child_descriptor [OF inv f] by blast
qed

end
