(* ===== verification/Wm_Events.thy ===== *)
theory Wm_Events
  imports Ring_Queues Proc_Life
begin

text \<open>
  The window-manager event bridge (\<^verbatim>\<open>kernel/src/wm/mod.rs\<close>, event layout in
  \<^verbatim>\<open>kernel/src/embedder/abi.rs\<close>): one ring of 256 events with an owner each, coalescing of vsync ticks and
  pointer moves, delivery by priority, focus changes, vsync batons and the routing of pointer, scroll
  and key input.

  The statics of the module are the record \<open>wm\<close>.  An operation that canonicalises a pid reads the
  process table; a call of \<^verbatim>\<open>wake_process\<close> is an entry of the list of pids to wake that the operation
  returns next to the new state.  \<^const>\<open>None\<close> is an operation that does not return because the walk to a
  group leader does not end.
\<close>

section \<open>Events and the ring\<close>

definition EVENT_CAP :: nat where [kernel_defs]: "EVENT_CAP = 256"

definition EV_VSYNC :: u32 where [kernel_defs]: "EV_VSYNC = 1"
definition EV_POINTER :: u32 where [kernel_defs]: "EV_POINTER = 2"
definition EV_KEY :: u32 where [kernel_defs]: "EV_KEY = 3"
definition EV_APP :: u32 where [kernel_defs]: "EV_APP = 4"
definition EV_FOCUS :: u32 where [kernel_defs]: "EV_FOCUS = 5"
definition EV_SCROLL :: u32 where [kernel_defs]: "EV_SCROLL = 9"
definition FOCUS_LOST :: u32 where [kernel_defs]: "FOCUS_LOST = 1"
definition FOCUS_GAINED :: u32 where [kernel_defs]: "FOCUS_GAINED = 2"
definition FOCUS_MIRROR :: u32 where [kernel_defs]: "FOCUS_MIRROR = 3"

record wm_event =
  ev_seq :: u64
  ev_kind :: u32
  ev_flags :: u32
  ev_a :: u64
  ev_b :: u64

definition wm_event_empty :: wm_event where
  "wm_event_empty = \<lparr> ev_seq = 0, ev_kind = 0, ev_flags = 0, ev_a = 0, ev_b = 0 \<rparr>"

definition owner_visible :: "u32 \<Rightarrow> u32 \<Rightarrow> bool" where
  "owner_visible owner_pid consumer_pid \<longleftrightarrow> owner_pid = 0 \<or> owner_pid = consumer_pid"

record event_queue =
  eq_buf :: "wm_event list"
  eq_owner :: "u32 list"
  eq_head :: nat
  eq_tail :: nat
  eq_len :: nat
  eq_next_seq :: u64
  eq_dropped :: u64

definition event_queue_new :: event_queue where
  "event_queue_new = \<lparr> eq_buf = replicate EVENT_CAP wm_event_empty, eq_owner = replicate EVENT_CAP 0,
     eq_head = 0, eq_tail = 0, eq_len = 0, eq_next_seq = 1, eq_dropped = 0 \<rparr>"

text \<open>The loops over the queued entries look for the first offset whose event and owner pass a test.\<close>

definition entry_idx :: "event_queue \<Rightarrow> nat \<Rightarrow> nat" where
  "entry_idx q off = (eq_head q + off) mod EVENT_CAP"

definition find_off :: "(wm_event \<Rightarrow> u32 \<Rightarrow> bool) \<Rightarrow> event_queue \<Rightarrow> nat option" where
  "find_off P q = find (\<lambda>off. P (eq_buf q ! entry_idx q off) (eq_owner q ! entry_idx q off)) [0..<eq_len q]"

definition count_off :: "(wm_event \<Rightarrow> u32 \<Rightarrow> bool) \<Rightarrow> event_queue \<Rightarrow> nat" where
  "count_off P q =
     length (filter (\<lambda>off. P (eq_buf q ! entry_idx q off) (eq_owner q ! entry_idx q off)) [0..<eq_len q])"

definition next_seq_of :: "u64 \<Rightarrow> u64" where
  "next_seq_of s = max (s + 1) 1"

definition tail_idx :: "event_queue \<Rightarrow> nat" where
  "tail_idx q = (eq_tail q + EVENT_CAP - 1) mod EVENT_CAP"

text \<open>The two coalescing rules of \<^verbatim>\<open>push\<close>.\<close>

definition coalesce_vsync :: "wm_event \<Rightarrow> u32 \<Rightarrow> event_queue \<Rightarrow> event_queue option" where
  "coalesce_vsync ev owner q =
     (if ev_kind ev = EV_VSYNC \<and> ev_b ev = 0
      then map_option (\<lambda>off. q\<lparr>eq_buf := (eq_buf q)[entry_idx q off :=
                                (eq_buf q ! entry_idx q off)\<lparr>ev_a := ev_a ev\<rparr>]\<rparr>)
             (find_off (\<lambda>e ow. ev_kind e = EV_VSYNC \<and> ev_b e = 0 \<and> ow = owner) q)
      else None)"

definition coalesce_pointer :: "wm_event \<Rightarrow> u32 \<Rightarrow> event_queue \<Rightarrow> event_queue option" where
  "coalesce_pointer ev owner q =
     (let i = tail_idx q; e = eq_buf q ! i in
      if ev_kind ev = EV_POINTER \<and> 0 < eq_len q \<and> ev_kind e = EV_POINTER \<and> eq_owner q ! i = owner
         \<and> ev_flags e = ev_flags ev
      then Some (q\<lparr>eq_buf := (eq_buf q)[i := e\<lparr>ev_a := ev_a ev, ev_b := ev_b e OR ev_b ev\<rparr>]\<rparr>)
      else None)"

definition drop_oldest :: "event_queue \<Rightarrow> event_queue" where
  "drop_oldest q = (if eq_len q = EVENT_CAP
     then q\<lparr>eq_head := (eq_head q + 1) mod EVENT_CAP, eq_len := eq_len q - 1, eq_dropped := eq_dropped q + 1\<rparr>
     else q)"

definition append_event :: "wm_event \<Rightarrow> u32 \<Rightarrow> event_queue \<Rightarrow> event_queue" where
  "append_event ev owner q = q\<lparr>eq_buf := (eq_buf q)[eq_tail q := ev], eq_owner := (eq_owner q)[eq_tail q := owner],
     eq_tail := (eq_tail q + 1) mod EVENT_CAP, eq_len := eq_len q + 1\<rparr>"

definition queue_push :: "wm_event \<Rightarrow> u32 \<Rightarrow> event_queue \<Rightarrow> event_queue" where
  "queue_push ev0 owner q0 =
     (let ev = ev0\<lparr>ev_seq := eq_next_seq q0\<rparr>;
          q = q0\<lparr>eq_next_seq := next_seq_of (eq_next_seq q0)\<rparr>
      in case coalesce_vsync ev owner q of
           Some q' \<Rightarrow> q'
         | None \<Rightarrow> (case coalesce_pointer ev owner q of
             Some q' \<Rightarrow> q'
           | None \<Rightarrow> append_event ev owner (drop_oldest q)))"

definition queue_push_front :: "wm_event \<Rightarrow> u32 \<Rightarrow> event_queue \<Rightarrow> event_queue" where
  "queue_push_front ev0 owner q0 =
     (let ev = ev0\<lparr>ev_seq := eq_next_seq q0\<rparr>;
          q1 = q0\<lparr>eq_next_seq := next_seq_of (eq_next_seq q0)\<rparr>;
          q = (if eq_len q1 = EVENT_CAP
               then q1\<lparr>eq_tail := tail_idx q1, eq_len := eq_len q1 - 1, eq_dropped := eq_dropped q1 + 1\<rparr>
               else q1);
          h = (eq_head q + EVENT_CAP - 1) mod EVENT_CAP
      in q\<lparr>eq_head := h, eq_buf := (eq_buf q)[h := ev], eq_owner := (eq_owner q)[h := owner], eq_len := eq_len q + 1\<rparr>)"

definition is_baton :: "u32 \<Rightarrow> wm_event \<Rightarrow> u32 \<Rightarrow> bool" where
  "is_baton pid e ow \<longleftrightarrow> owner_visible ow pid \<and> ev_kind e = EV_VSYNC \<and> ev_b e \<noteq> 0"

definition is_input :: "u32 \<Rightarrow> wm_event \<Rightarrow> u32 \<Rightarrow> bool" where
  "is_input pid e ow \<longleftrightarrow> owner_visible ow pid \<and> (ev_kind e = EV_POINTER \<or> ev_kind e = EV_KEY)"

definition is_visible :: "u32 \<Rightarrow> wm_event \<Rightarrow> u32 \<Rightarrow> bool" where
  "is_visible pid e ow \<longleftrightarrow> owner_visible ow pid"

text \<open>The loop that closes the gap at offset \<open>j\<close>, on one of the two arrays.\<close>

function shift_left :: "nat \<Rightarrow> nat \<Rightarrow> nat \<Rightarrow> 'a list \<Rightarrow> 'a list" where
  "shift_left head len j buf =
     (if j + 1 < len
      then shift_left head len (j + 1)
             (buf[(head + j) mod EVENT_CAP := buf ! ((head + j + 1) mod EVENT_CAP)])
      else buf)"
  by pat_completeness auto
termination by (relation "measure (\<lambda>(head, len, j, buf). len - j)") auto

declare shift_left.simps [simp del]

definition queue_pop_for :: "u32 \<Rightarrow> event_queue \<Rightarrow> wm_event option \<times> event_queue" where
  "queue_pop_for pid q =
     (if eq_len q = 0 then (None, q)
      else
        let found = (case find_off (is_baton pid) q of
              Some off \<Rightarrow> Some off
            | None \<Rightarrow> (case find_off (is_input pid) q of
                Some off \<Rightarrow> Some off
              | None \<Rightarrow> find_off (is_visible pid) q))
        in case found of
             None \<Rightarrow> (None, q)
           | Some off \<Rightarrow>
               (Some (eq_buf q ! entry_idx q off),
                q\<lparr>eq_buf := shift_left (eq_head q) (eq_len q) off (eq_buf q),
                  eq_owner := shift_left (eq_head q) (eq_len q) off (eq_owner q),
                  eq_tail := tail_idx q, eq_len := eq_len q - 1\<rparr>))"

definition queue_pending_for :: "u32 \<Rightarrow> event_queue \<Rightarrow> nat" where
  "queue_pending_for pid q = count_off (is_visible pid) q"

definition queue_input_pending_for :: "u32 \<Rightarrow> event_queue \<Rightarrow> nat" where
  "queue_input_pending_for pid q = count_off (is_input pid) q"

definition queue_has_baton_for :: "u32 \<Rightarrow> event_queue \<Rightarrow> bool" where
  "queue_has_baton_for pid q \<longleftrightarrow> find_off (is_baton pid) q \<noteq> None"

section \<open>The module state and its operations\<close>

record wm =
  wm_q :: event_queue
  wm_waiter :: u32
  wm_focus :: u32
  wm_mirror :: bool
  wm_vsync_baton :: u64
  wm_baton_queued :: bool
  wm_last_buttons :: u32
  wm_cursor_x :: i32
  wm_cursor_y :: i32
  wm_cursor_buttons :: u32
  wm_cursor_seen :: bool
  wm_ptr_count :: u32
  wm_key_count :: u32
  wm_scroll_count :: u32
  wm_last_key :: u32
  wm_last_act_ns :: u64
  wm_input_source :: u8
  wm_flutter_ready :: bool
  wm_verbose :: bool

definition wm_new :: wm where
  "wm_new = \<lparr> wm_q = event_queue_new, wm_waiter = 0, wm_focus = 0, wm_mirror = False, wm_vsync_baton = 0,
     wm_baton_queued = False, wm_last_buttons = 0, wm_cursor_x = 32, wm_cursor_y = 32, wm_cursor_buttons = 0,
     wm_cursor_seen = False, wm_ptr_count = 0, wm_key_count = 0, wm_scroll_count = 0, wm_last_key = 0,
     wm_last_act_ns = 0, wm_input_source = 0, wm_flutter_ready = False, wm_verbose = False \<rparr>"

text \<open>The registers of the module that other components set and read.\<close>

definition set_wm_waiter :: "u32 \<Rightarrow> wm \<Rightarrow> wm" where
  "set_wm_waiter pid w = w\<lparr>wm_waiter := pid\<rparr>"

definition set_focus_mirror_enabled :: "bool \<Rightarrow> wm \<Rightarrow> wm" where
  "set_focus_mirror_enabled enabled w = w\<lparr>wm_mirror := enabled\<rparr>"

definition set_flutter_init_ready :: "wm \<Rightarrow> wm" where
  "set_flutter_init_ready w = w\<lparr>wm_flutter_ready := True\<rparr>"

definition flutter_bootstrap_spin_active :: "wm \<Rightarrow> bool" where
  "flutter_bootstrap_spin_active w \<longleftrightarrow> \<not> wm_flutter_ready w"

definition set_input_source :: "u8 \<Rightarrow> wm \<Rightarrow> wm" where
  "set_input_source src w = w\<lparr>wm_input_source := src\<rparr>"

definition input_source_name :: "wm \<Rightarrow> string" where
  "input_source_name w =
     (if wm_input_source w = 1 then ''virtio'' else if wm_input_source w = 2 then ''xhci''
      else if wm_input_source w = 3 then ''ps2'' else ''none'')"

definition input_counts :: "wm \<Rightarrow> u32 \<times> u32 \<times> u32" where
  "input_counts w = (wm_ptr_count w, wm_key_count w, wm_scroll_count w)"

definition last_key :: "wm \<Rightarrow> u32 \<times> bool" where
  "last_key w = (drop_bit 1 (wm_last_key w), wm_last_key w AND 1 \<noteq> 0)"

definition canonical_pid :: "ptable \<Rightarrow> u32 \<Rightarrow> u32 option" where
  "canonical_pid t pid = (if pid \<le> 1 then Some pid else get_group_leader t pid)"

definition wm_pending_count_for :: "ptable \<Rightarrow> u32 \<Rightarrow> wm \<Rightarrow> nat option" where
  "wm_pending_count_for t pid w = map_option (\<lambda>c. queue_pending_for c (wm_q w)) (canonical_pid t pid)"

definition wm_input_pending_for :: "ptable \<Rightarrow> u32 \<Rightarrow> wm \<Rightarrow> nat option" where
  "wm_input_pending_for t pid w = map_option (\<lambda>c. queue_input_pending_for c (wm_q w)) (canonical_pid t pid)"

definition high_priority_input_pending_for :: "ptable \<Rightarrow> u32 \<Rightarrow> wm \<Rightarrow> bool option" where
  "high_priority_input_pending_for t pid w =
     map_option (\<lambda>c. find_off (\<lambda>e ow. owner_visible ow c \<and>
         (ev_kind e = EV_KEY \<or> (ev_kind e = EV_POINTER \<and> (ev_flags e \<noteq> 0 \<or> ev_b e \<noteq> 0)))) (wm_q w) \<noteq> None)
       (canonical_pid t pid)"

definition baton_vsync_queued_for :: "ptable \<Rightarrow> u32 \<Rightarrow> wm \<Rightarrow> bool option" where
  "baton_vsync_queued_for t pid w = map_option (\<lambda>c. queue_has_baton_for c (wm_q w)) (canonical_pid t pid)"

definition pop_event_for :: "ptable \<Rightarrow> u32 \<Rightarrow> wm \<Rightarrow> (wm_event option \<times> wm) option" where
  "pop_event_for t pid w = do {
     c \<leftarrow> canonical_pid t pid;
     Some (case queue_pop_for c (wm_q w) of
       (None, q) \<Rightarrow> (None, w\<lparr>wm_q := q\<rparr>)
     | (Some ev, q) \<Rightarrow>
         (Some ev, if ev_kind ev = EV_VSYNC \<and> ev_b ev \<noteq> 0 then w\<lparr>wm_q := q, wm_baton_queued := False\<rparr>
                   else w\<lparr>wm_q := q\<rparr>)) }"

definition push_event_for :: "ptable \<Rightarrow> u32 \<Rightarrow> u32 \<Rightarrow> u32 \<Rightarrow> u64 \<Rightarrow> u64 \<Rightarrow> wm \<Rightarrow> (u32 list \<times> wm) option" where
  "push_event_for t owner_pid kind flags a b w = do {
     owner \<leftarrow> canonical_pid t owner_pid;
     let w1 = w\<lparr>wm_q := queue_push \<lparr> ev_seq = 0, ev_kind = kind, ev_flags = flags, ev_a = a, ev_b = b \<rparr> owner (wm_q w)\<rparr>;
     let waiter = wm_waiter w1;
     waiter_c \<leftarrow> (if waiter \<noteq> 0 then canonical_pid t waiter else Some 0);
     let hit = (waiter \<noteq> 0 \<and> owner_visible owner waiter_c);
     let w2 = (if hit then w1\<lparr>wm_waiter := 0\<rparr> else w1);
     let target = (if owner \<noteq> 0 then owner else wm_focus w2);
     Some ((if hit then [waiter] else [])
           @ (if (kind = EV_POINTER \<or> kind = EV_KEY) \<and> target \<noteq> 0 then [target] else []), w2) }"

definition push_event :: "ptable \<Rightarrow> u32 \<Rightarrow> u32 \<Rightarrow> u64 \<Rightarrow> u64 \<Rightarrow> wm \<Rightarrow> (u32 list \<times> wm) option" where
  "push_event t = push_event_for t 0"

definition push_app_event :: "ptable \<Rightarrow> u32 \<Rightarrow> u32 \<Rightarrow> u32 \<Rightarrow> wm \<Rightarrow> (u32 list \<times> wm) option" where
  "push_app_event t target_pid subkind surface_id = push_event_for t target_pid EV_APP subkind (ucast surface_id) 0"

definition set_focus_pid :: "ptable \<Rightarrow> u32 \<Rightarrow> wm \<Rightarrow> (u32 list \<times> wm) option" where
  "set_focus_pid t pid0 w0 = do {
     pid \<leftarrow> canonical_pid t pid0;
     let old = wm_focus w0;
     let w = w0\<lparr>wm_focus := pid\<rparr>;
     if old = pid then Some ([], w)
     else do {
       (k1, w1) \<leftarrow> (if old \<noteq> 0 then push_event_for t old EV_FOCUS FOCUS_LOST (ucast pid) 0 w else Some ([], w));
       (k2, w2) \<leftarrow> (if pid \<noteq> 0 then push_event_for t pid EV_FOCUS FOCUS_GAINED (ucast old) 0 w1 else Some ([], w1));
       (k3, w3) \<leftarrow> (if wm_mirror w2 then push_event t EV_FOCUS FOCUS_MIRROR (ucast old) (ucast pid) w2 else Some ([], w2));
       Some (k1 @ k2 @ k3, w3) } }"

definition vsync_baton_pending :: "wm \<Rightarrow> bool" where
  "vsync_baton_pending w \<longleftrightarrow> wm_vsync_baton w \<noteq> 0 \<or> wm_baton_queued w"

text \<open>Waking the registered waiter, whoever the event is for.\<close>

definition take_waiter :: "wm \<Rightarrow> u32 list \<times> wm" where
  "take_waiter w = (if wm_waiter w \<noteq> 0 then ([wm_waiter w], w\<lparr>wm_waiter := 0\<rparr>) else ([], w))"

definition push_vsync :: "ptable \<Rightarrow> u64 \<Rightarrow> wm \<Rightarrow> (u32 list \<times> wm) option" where
  "push_vsync t frame w0 =
     (let baton = wm_vsync_baton w0; w = w0\<lparr>wm_vsync_baton := 0\<rparr> in
      if baton \<noteq> 0 then
        let w1 = w\<lparr>wm_q := queue_push_front (wm_event_empty\<lparr>ev_kind := EV_VSYNC, ev_a := frame, ev_b := baton\<rparr>) 0 (wm_q w),
                   wm_baton_queued := True\<rparr>;
            (ks, w2) = take_waiter w1
        in Some (1 # ks, w2)
      else push_event t EV_VSYNC 0 frame baton w)"

definition set_vsync_baton :: "ptable \<Rightarrow> u32 \<Rightarrow> u64 \<Rightarrow> wm \<Rightarrow> (u32 list \<times> wm) option" where
  "set_vsync_baton t pid baton w0 =
     (let w = w0\<lparr>wm_vsync_baton := 0\<rparr> in
      if baton = 0 then Some ([], w)
      else do {
        owner \<leftarrow> canonical_pid t pid;
        let w1 = w\<lparr>wm_q := queue_push_front (wm_event_empty\<lparr>ev_kind := EV_VSYNC, ev_a := 0, ev_b := baton\<rparr>) owner (wm_q w),
                   wm_baton_queued := True\<rparr>;
        let (ks, w2) = take_waiter w1;
        Some (owner # ks, w2) })"

definition pack_xy :: "i32 \<Rightarrow> i32 \<Rightarrow> u64" where
  "pack_xy x y = push_bit 32 (ucast x) OR ucast y"

text \<open>The target of an input event: the focused process, else the owner of the surface under the pointer
(\<open>hit\<close> is the answer of the compositor, \<open>bypass\<close> whether a process owns the frame buffer), else process 1.\<close>

definition input_target :: "bool \<Rightarrow> (u32 \<times> u32) option \<Rightarrow> wm \<Rightarrow> u32" where
  "input_target bypass hit w =
     (if wm_focus w \<noteq> 0 then wm_focus w
      else case (if bypass then None else hit) of Some (surf_id, owner_pid) \<Rightarrow> owner_pid | None \<Rightarrow> 1)"

definition push_pointer ::
    "u64 \<Rightarrow> ptable \<Rightarrow> bool \<Rightarrow> (u32 \<times> u32) option \<Rightarrow> i32 \<Rightarrow> i32 \<Rightarrow> u32 \<Rightarrow> wm \<Rightarrow> (u32 list \<times> wm) option" where
  "push_pointer now t bypass hit x y buttons w0 =
     (let b_val = (if buttons \<noteq> wm_last_buttons w0 then 1 else 0);
          w = w0\<lparr>wm_cursor_x := x, wm_cursor_y := y, wm_cursor_buttons := buttons, wm_cursor_seen := True,
                 wm_last_act_ns := now, wm_ptr_count := wm_ptr_count w0 + 1, wm_last_buttons := buttons\<rparr>
      in push_event_for t (input_target bypass hit w) EV_POINTER buttons (pack_xy x y) b_val w)"

definition push_scroll ::
    "ptable \<Rightarrow> bool \<Rightarrow> (u32 \<times> u32) option \<Rightarrow> i32 \<Rightarrow> i32 \<Rightarrow> i32 \<Rightarrow> wm \<Rightarrow> (u32 list \<times> wm) option" where
  "push_scroll t bypass hit x y dz w0 =
     (let w = w0\<lparr>wm_scroll_count := wm_scroll_count w0 + 1\<rparr>
      in push_event_for t (input_target bypass hit w) EV_SCROLL 0 (pack_xy x y) (ucast dz) w)"

text \<open>F2 flips the verbose overlay of the boot screen (the log level it sets along is not in the state).\<close>

definition toggle_verbose :: "wm \<Rightarrow> wm" where
  "toggle_verbose w = w\<lparr>wm_verbose := \<not> wm_verbose w\<rparr>"

definition push_key :: "ptable \<Rightarrow> u32 \<Rightarrow> bool \<Rightarrow> wm \<Rightarrow> (u32 list \<times> wm) option" where
  "push_key t scancode pressed w0 =
     (let w1 = w0\<lparr>wm_key_count := wm_key_count w0 + 1, wm_last_key := push_bit 1 scancode OR of_bool pressed\<rparr>;
          w = (if pressed \<and> scancode = 0x3C then toggle_verbose w1 else w1)
      in push_event_for t (wm_focus w) EV_KEY (of_bool pressed) (ucast scancode) 0 w)"

end
