(* ===== verification/Wm_Delivery.thy ===== *)
theory Wm_Delivery
  imports Wm_Events
begin

text \<open>
  What the event bridge delivers.  The ring of events is abstracted to a list of events with their
  owners; pushing, pushing in front and delivery refine operations on that list, and on top of it
  the routing of input wakes a process that finds its event in the queue.
\<close>

section \<open>The queue as a list\<close>

definition queue_inv :: "event_queue \<Rightarrow> bool" where
  "queue_inv q \<longleftrightarrow> length (eq_buf q) = EVENT_CAP \<and> length (eq_owner q) = EVENT_CAP \<and> eq_head q < EVENT_CAP \<and>
     eq_len q \<le> EVENT_CAP \<and> eq_tail q = (eq_head q + eq_len q) mod EVENT_CAP"

definition entries :: "event_queue \<Rightarrow> (wm_event \<times> u32) list" where
  "entries q = zip (ring_list (eq_buf q) (eq_head q) (eq_len q)) (ring_list (eq_owner q) (eq_head q) (eq_len q))"

definition same_vsync :: "u32 \<Rightarrow> wm_event \<times> u32 \<Rightarrow> bool" where
  "same_vsync owner x \<longleftrightarrow> ev_kind (fst x) = EV_VSYNC \<and> ev_b (fst x) = 0 \<and> snd x = owner"

definition same_pointer :: "wm_event \<Rightarrow> u32 \<Rightarrow> wm_event \<times> u32 \<Rightarrow> bool" where
  "same_pointer ev owner x \<longleftrightarrow> ev_kind (fst x) = EV_POINTER \<and> snd x = owner \<and> ev_flags (fst x) = ev_flags ev"

text \<open>Pushing an event whose sequence number has been assigned.\<close>

definition list_push :: "wm_event \<Rightarrow> u32 \<Rightarrow> (wm_event \<times> u32) list \<Rightarrow> (wm_event \<times> u32) list" where
  "list_push ev owner es =
     (if ev_kind ev = EV_VSYNC \<and> ev_b ev = 0 \<and> (\<exists>x \<in> set es. same_vsync owner x)
      then modify_first (same_vsync owner) (\<lambda>(e, ow). (e\<lparr>ev_a := ev_a ev\<rparr>, ow)) es
      else if ev_kind ev = EV_POINTER \<and> es \<noteq> [] \<and> same_pointer ev owner (last es)
      then butlast es @ [(\<lambda>(e, ow). (e\<lparr>ev_a := ev_a ev, ev_b := ev_b e OR ev_b ev\<rparr>, ow)) (last es)]
      else (if length es = EVENT_CAP then tl es else es) @ [(ev, owner)])"

definition list_push_front :: "wm_event \<Rightarrow> u32 \<Rightarrow> (wm_event \<times> u32) list \<Rightarrow> (wm_event \<times> u32) list" where
  "list_push_front ev owner es = (ev, owner) # (if length es = EVENT_CAP then butlast es else es)"

definition delivery_index :: "u32 \<Rightarrow> (wm_event \<times> u32) list \<Rightarrow> nat option" where
  "delivery_index pid es =
     (case position (case_prod (is_baton pid)) es of Some i \<Rightarrow> Some i
      | None \<Rightarrow> (case position (case_prod (is_input pid)) es of Some i \<Rightarrow> Some i
        | None \<Rightarrow> position (case_prod (is_visible pid)) es))"

definition list_pop :: "u32 \<Rightarrow> (wm_event \<times> u32) list \<Rightarrow> wm_event option \<times> (wm_event \<times> u32) list" where
  "list_pop pid es =
     (case delivery_index pid es of None \<Rightarrow> (None, es) | Some i \<Rightarrow> (Some (fst (es ! i)), remove_at i es))"

lemma queue_new_inv: "queue_inv event_queue_new" "entries event_queue_new = []"
  by (simp_all add: queue_inv_def event_queue_new_def entries_def kernel_defs)

lemma length_entries [simp]: "length (entries q) = eq_len q"
  by (simp add: entries_def)

lemma entries_eq_Nil [simp]: "entries q = [] \<longleftrightarrow> eq_len q = 0"
  using length_entries [of q] by (metis length_0_conv)

lemma entries_nth:
  "queue_inv q \<Longrightarrow> i < eq_len q \<Longrightarrow> entries q ! i = (eq_buf q ! entry_idx q i, eq_owner q ! entry_idx q i)"
  by (simp add: entries_def ring_list_nth entry_idx_def queue_inv_def)

lemma entries_map:
  "queue_inv q \<Longrightarrow> entries q = map (\<lambda>i. (eq_buf q ! entry_idx q i, eq_owner q ! entry_idx q i)) [0..<eq_len q]"
  by (rule nth_equalityI) (simp_all add: entries_nth)

lemma find_upt_position: "find (\<lambda>i. P (xs ! i)) [0..<length xs] = position P xs"
proof (induction xs)
  case (Cons x xs)
  have "find (\<lambda>i. P ((x # xs) ! i)) (map Suc ys) = map_option Suc (find (\<lambda>i. P (xs ! i)) ys)" for ys
    by (induction ys) auto
  moreover have "[0..<length (x # xs)] = 0 # map Suc [0..<length xs]"
    by (simp add: upt_conv_Cons map_Suc_upt del: upt_Suc)
  ultimately show ?case using Cons.IH by (simp del: upt_Suc)
qed simp

lemma find_off_position: "queue_inv q \<Longrightarrow> find_off P q = position (case_prod P) (entries q)"
proof -
  assume inv: "queue_inv q"
  have "find_off P q = find (\<lambda>i. case_prod P (entries q ! i)) [0..<length (entries q)]"
    unfolding find_off_def by (rule find_cong) (simp_all add: entries_nth [OF inv])
  then show ?thesis by (simp only: find_upt_position)
qed

lemma count_off_filter: "queue_inv q \<Longrightarrow> count_off P q = length (filter (case_prod P) (entries q))"
  by (simp add: count_off_def entries_map filter_map comp_def)

lemma entry_idx_less: "entry_idx q off < EVENT_CAP"
  by (simp add: entry_idx_def EVENT_CAP_def)

lemma zip_update_left: "length xs = length ys \<Longrightarrow> zip (xs[i := x]) ys = (zip xs ys)[i := (x, ys ! i)]"
  by (metis list_update_id zip_update)

lemma zip_tl: "zip (tl xs) (tl ys) = tl (zip xs ys)"
  by (cases xs; cases ys) auto

lemma update_last: "xs \<noteq> [] \<Longrightarrow> xs[length xs - 1 := y] = butlast xs @ [y]"
  by (cases xs rule: rev_cases) auto

lemma modify_first_position:
  "modify_first P f xs = (case position P xs of None \<Rightarrow> xs | Some i \<Rightarrow> xs[i := f (xs ! i)])"
  by (induction xs) (auto split: option.splits)

lemma entries_set_buf:
  assumes "queue_inv q" "off < eq_len q"
  shows "queue_inv (q\<lparr>eq_buf := (eq_buf q)[entry_idx q off := e]\<rparr>)"
    "entries (q\<lparr>eq_buf := (eq_buf q)[entry_idx q off := e]\<rparr>) = (entries q)[off := (e, snd (entries q ! off))]"
proof -
  show "queue_inv (q\<lparr>eq_buf := (eq_buf q)[entry_idx q off := e]\<rparr>)" using assms by (simp add: queue_inv_def)
  have "ring_list ((eq_buf q)[entry_idx q off := e]) (eq_head q) (eq_len q) = (ring_list (eq_buf q) (eq_head q) (eq_len q))[off := e]"
    using assms ring_list_set [of off "eq_len q" "eq_buf q" "eq_head q" e] by (simp add: queue_inv_def entry_idx_def)
  then show "entries (q\<lparr>eq_buf := (eq_buf q)[entry_idx q off := e]\<rparr>) = (entries q)[off := (e, snd (entries q ! off))]"
    using assms(2) by (simp add: entries_def zip_update_left)
qed

lemma last_entry:
  assumes "queue_inv q" "0 < eq_len q"
  shows "tail_idx q = entry_idx q (eq_len q - 1)" "last (entries q) = (eq_buf q ! tail_idx q, eq_owner q ! tail_idx q)"
proof -
  have "tail_idx q = ((eq_head q + eq_len q) mod EVENT_CAP + (EVENT_CAP - 1)) mod EVENT_CAP"
    using assms by (simp add: tail_idx_def queue_inv_def EVENT_CAP_def add.commute)
  also have "\<dots> = (eq_head q + eq_len q + (EVENT_CAP - 1)) mod EVENT_CAP" by (rule mod_add_left_eq)
  also have "eq_head q + eq_len q + (EVENT_CAP - 1) = eq_head q + (eq_len q - 1) + EVENT_CAP"
    using assms(2) by (simp add: EVENT_CAP_def)
  finally show t: "tail_idx q = entry_idx q (eq_len q - 1)" by (simp add: entry_idx_def)
  show "last (entries q) = (eq_buf q ! tail_idx q, eq_owner q ! tail_idx q)"
    using assms by (simp add: last_conv_nth entries_nth t)
qed

lemma drop_oldest_entries:
  assumes "queue_inv q"
  shows "queue_inv (drop_oldest q)" "eq_len (drop_oldest q) < EVENT_CAP"
    "entries (drop_oldest q) = (if length (entries q) = EVENT_CAP then tl (entries q) else entries q)"
proof -
  have "(eq_head q + EVENT_CAP) mod EVENT_CAP = ((eq_head q + 1) mod EVENT_CAP + (EVENT_CAP - 1)) mod EVENT_CAP"
    by (subst mod_add_left_eq) (simp add: EVENT_CAP_def)
  then show "queue_inv (drop_oldest q)" "eq_len (drop_oldest q) < EVENT_CAP"
    using assms by (auto simp: drop_oldest_def queue_inv_def EVENT_CAP_def)
  show "entries (drop_oldest q) = (if length (entries q) = EVENT_CAP then tl (entries q) else entries q)"
    using assms ring_list_tl [of "eq_head q" "eq_buf q" "eq_len q"] ring_list_tl [of "eq_head q" "eq_owner q" "eq_len q"]
    by (auto simp: drop_oldest_def entries_def queue_inv_def zip_tl)
qed

lemma append_event_entries:
  assumes "queue_inv q" "eq_len q < EVENT_CAP"
  shows "queue_inv (append_event ev owner q)" "entries (append_event ev owner q) = entries q @ [(ev, owner)]"
  using assms ring_list_push [of "eq_len q" "eq_buf q" "eq_head q" ev] ring_list_push [of "eq_len q" "eq_owner q" "eq_head q" owner]
  by (auto simp: append_event_def entries_def queue_inv_def mod_simps)

lemma coalesce_vsync_entries:
  assumes "queue_inv q"
  shows "case coalesce_vsync ev owner q of
      Some q' \<Rightarrow> queue_inv q' \<and> ev_kind ev = EV_VSYNC \<and> ev_b ev = 0 \<and> (\<exists>x \<in> set (entries q). same_vsync owner x)
        \<and> entries q' = modify_first (same_vsync owner) (\<lambda>(e, ow). (e\<lparr>ev_a := ev_a ev\<rparr>, ow)) (entries q)
    | None \<Rightarrow> \<not> (ev_kind ev = EV_VSYNC \<and> ev_b ev = 0 \<and> (\<exists>x \<in> set (entries q). same_vsync owner x))"
proof -
  have P: "case_prod (\<lambda>e ow. ev_kind e = EV_VSYNC \<and> ev_b e = 0 \<and> ow = owner) = same_vsync owner"
    by (auto simp: same_vsync_def fun_eq_iff)
  show ?thesis
  proof (cases "position (same_vsync owner) (entries q)")
    case None
    then show ?thesis using position_None [of "same_vsync owner" "entries q"]
      by (auto simp: coalesce_vsync_def find_off_position [OF assms] P)
  next
    case (Some off)
    then have off: "off < eq_len q" "same_vsync owner (entries q ! off)"
      using position_Some [OF Some] by simp_all
    then have "\<exists>x \<in> set (entries q). same_vsync owner x" by (metis length_entries nth_mem)
    then show ?thesis using Some off entries_set_buf [OF assms off(1)]
      by (auto simp: coalesce_vsync_def find_off_position [OF assms] P modify_first_position entries_nth [OF assms])
  qed
qed

lemma coalesce_pointer_entries:
  assumes inv: "queue_inv q"
  shows "case coalesce_pointer ev owner q of
      Some q' \<Rightarrow> queue_inv q' \<and> ev_kind ev = EV_POINTER \<and> entries q \<noteq> [] \<and> same_pointer ev owner (last (entries q))
        \<and> entries q' = butlast (entries q) @
            [(\<lambda>(e, ow). (e\<lparr>ev_a := ev_a ev, ev_b := ev_b e OR ev_b ev\<rparr>, ow)) (last (entries q))]
    | None \<Rightarrow> \<not> (ev_kind ev = EV_POINTER \<and> entries q \<noteq> [] \<and> same_pointer ev owner (last (entries q)))"
proof (cases "coalesce_pointer ev owner q")
  case None
  then show ?thesis using last_entry(2) [OF inv]
    by (auto simp: coalesce_pointer_def Let_def same_pointer_def split: if_splits)
next
  case (Some q')
  let ?e = "(eq_buf q ! tail_idx q)\<lparr>ev_a := ev_a ev, ev_b := ev_b (eq_buf q ! tail_idx q) OR ev_b ev\<rparr>"
  have len: "0 < eq_len q" and q': "q' = q\<lparr>eq_buf := (eq_buf q)[tail_idx q := ?e]\<rparr>"
    and cond: "ev_kind ev = EV_POINTER" "ev_kind (eq_buf q ! tail_idx q) = EV_POINTER"
      "eq_owner q ! tail_idx q = owner" "ev_flags (eq_buf q ! tail_idx q) = ev_flags ev"
    using Some by (auto simp: coalesce_pointer_def Let_def split: if_splits)
  have off: "eq_len q - 1 < eq_len q" using len by simp
  note l = last_entry [OF inv len]
  have "(entries q)[eq_len q - 1 := y] = butlast (entries q) @ [y]" for y
    using len update_last [of "entries q" y] by simp
  moreover have "entries q ! (eq_len q - 1) = last (entries q)" using len by (simp add: last_conv_nth)
  ultimately show ?thesis
    using Some cond len l entries_set_buf [OF inv off, of ?e] unfolding q' l(1) [symmetric]
    by (auto simp: same_pointer_def)
qed

lemma queue_push_entries:
  assumes inv: "queue_inv q"
  shows "queue_inv (queue_push ev owner q)"
    "entries (queue_push ev owner q) = list_push (ev\<lparr>ev_seq := eq_next_seq q\<rparr>) owner (entries q)"
    "eq_next_seq (queue_push ev owner q) = next_seq_of (eq_next_seq q)"
proof -
  let ?ev = "ev\<lparr>ev_seq := eq_next_seq q\<rparr>"
  let ?q = "q\<lparr>eq_next_seq := next_seq_of (eq_next_seq q)\<rparr>"
  have i: "queue_inv ?q" and e: "entries ?q = entries q" using inv by (simp_all add: queue_inv_def entries_def)
  note v = coalesce_vsync_entries [OF i, of ?ev owner, unfolded e]
  note p = coalesce_pointer_entries [OF i, of ?ev owner, unfolded e]
  note d = drop_oldest_entries [OF i, unfolded e]
  note a = append_event_entries [OF d(1,2), of ?ev owner]
  have "queue_inv (queue_push ev owner q) \<and> entries (queue_push ev owner q) = list_push ?ev owner (entries q)"
  proof (cases "coalesce_vsync ?ev owner ?q")
    case (Some q')
    then show ?thesis using v by (simp add: queue_push_def list_push_def)
  next
    case None
    then show ?thesis using v p a d
      by (cases "coalesce_pointer ?ev owner ?q") (auto simp: queue_push_def list_push_def Let_def)
  qed
  then show "queue_inv (queue_push ev owner q)" "entries (queue_push ev owner q) = list_push ?ev owner (entries q)"
    by simp_all
  show "eq_next_seq (queue_push ev owner q) = next_seq_of (eq_next_seq q)"
    by (auto simp: queue_push_def Let_def coalesce_vsync_def coalesce_pointer_def append_event_def drop_oldest_def
          split: option.splits if_splits)
qed

lemma push_front_entries:
  assumes inv: "queue_inv q"
  shows "queue_inv (queue_push_front ev owner q)"
    "entries (queue_push_front ev owner q) = list_push_front (ev\<lparr>ev_seq := eq_next_seq q\<rparr>) owner (entries q)"
proof -
  define q1 where "q1 = (if eq_len q = EVENT_CAP
    then q\<lparr>eq_next_seq := next_seq_of (eq_next_seq q), eq_tail := tail_idx q, eq_len := eq_len q - 1, eq_dropped := eq_dropped q + 1\<rparr>
    else q\<lparr>eq_next_seq := next_seq_of (eq_next_seq q)\<rparr>)"
  let ?h = "(eq_head q1 + EVENT_CAP - 1) mod EVENT_CAP"
  let ?ev = "ev\<lparr>ev_seq := eq_next_seq q\<rparr>"
  have eq: "queue_push_front ev owner q = q1\<lparr>eq_head := ?h, eq_buf := (eq_buf q1)[?h := ?ev],
      eq_owner := (eq_owner q1)[?h := owner], eq_len := eq_len q1 + 1\<rparr>"
    by (simp add: queue_push_front_def q1_def Let_def tail_idx_def)
  have tail: "tail_idx q = (eq_head q + (EVENT_CAP - 1)) mod EVENT_CAP" if "eq_len q = EVENT_CAP"
    using last_entry(1) [OF inv] that by (simp add: entry_idx_def EVENT_CAP_def)
  have i1: "queue_inv q1" "eq_len q1 < EVENT_CAP" using inv tail
    by (auto simp: q1_def queue_inv_def EVENT_CAP_def)
  have e1: "entries q1 = (if length (entries q) = EVENT_CAP then butlast (entries q) else entries q)"
    using ring_list_butlast [of "eq_buf q" "eq_head q" "eq_len q"] ring_list_butlast [of "eq_owner q" "eq_head q" "eq_len q"]
    by (auto simp: q1_def entries_def butlast_conv_take take_zip)
  have h: "(?h + (eq_len q1 + 1)) mod EVENT_CAP = eq_tail q1"
  proof -
    have "(?h + (eq_len q1 + 1)) mod EVENT_CAP = (eq_head q1 + EVENT_CAP - 1 + (eq_len q1 + 1)) mod EVENT_CAP"
      by (rule mod_add_left_eq)
    also have "eq_head q1 + EVENT_CAP - 1 + (eq_len q1 + 1) = eq_head q1 + eq_len q1 + EVENT_CAP" by (simp add: EVENT_CAP_def)
    finally show ?thesis using i1 by (simp add: queue_inv_def)
  qed
  then show "queue_inv (queue_push_front ev owner q)"
    using i1 unfolding eq queue_inv_def by (simp add: EVENT_CAP_def)
  show "entries (queue_push_front ev owner q) = list_push_front ?ev owner (entries q)"
    using i1 ring_list_push_front [of "eq_len q1" "eq_buf q1" "eq_head q1" ?ev]
      ring_list_push_front [of "eq_len q1" "eq_owner q1" "eq_head q1" owner] e1
    unfolding eq by (simp add: entries_def queue_inv_def list_push_front_def)
qed

lemma length_shift_left [simp]: "length (shift_left head len j buf) = length buf"
  by (induction head len j buf rule: shift_left.induct) (subst shift_left.simps, simp)

lemma shift_left_ring:
  assumes "length buf = EVENT_CAP" "len \<le> EVENT_CAP" "j < len"
  shows "ring_list (shift_left head len j buf) head (len - 1)
    = take j (ring_list buf head len) @ drop (Suc j) (ring_list buf head len)"
  using assms
proof (induction head len j buf rule: shift_left.induct)
  case (1 head len j buf)
  let ?xs = "ring_list buf head len"
  let ?b = "buf[(head + j) mod EVENT_CAP := buf ! ((head + j + 1) mod EVENT_CAP)]"
  show ?case
  proof (cases "j + 1 < len")
    case True
    have nth: "?xs ! Suc j = buf ! ((head + j + 1) mod EVENT_CAP)"
      using True "1.prems"(1) by (simp add: ring_list_nth)
    have upd: "ring_list ?b head len = ?xs[j := ?xs ! Suc j]"
      using ring_list_set [of j len buf head "?xs ! Suc j"] "1.prems" nth by simp
    have "ring_list (shift_left head len j buf) head (len - 1) = ring_list (shift_left head len (j + 1) ?b) head (len - 1)"
      using True by (subst shift_left.simps) simp
    also have "\<dots> = take (j + 1) (ring_list ?b head len) @ drop (Suc (j + 1)) (ring_list ?b head len)"
      using "1.IH" [OF True] "1.prems" True by simp
    also have "\<dots> = take j ?xs @ [?xs ! Suc j] @ drop (Suc (Suc j)) ?xs"
      unfolding upd using True by (simp add: take_Suc_conv_app_nth)
    also have "[?xs ! Suc j] @ drop (Suc (Suc j)) ?xs = drop (Suc j) ?xs" using True by (simp add: Cons_nth_drop_Suc)
    finally show ?thesis .
  next
    case False
    then have "j = len - 1" using "1.prems"(3) by simp
    then show ?thesis using False ring_list_butlast [of buf head len]
      by (subst shift_left.simps) (simp add: butlast_conv_take)
  qed
qed

lemma queue_pop_entries:
  assumes inv: "queue_inv q"
  shows "queue_inv (snd (queue_pop_for pid q))"
    "fst (queue_pop_for pid q) = fst (list_pop pid (entries q))"
    "entries (snd (queue_pop_for pid q)) = snd (list_pop pid (entries q))"
proof -
  have "queue_inv (snd (queue_pop_for pid q)) \<and> fst (queue_pop_for pid q) = fst (list_pop pid (entries q))
    \<and> entries (snd (queue_pop_for pid q)) = snd (list_pop pid (entries q))"
  proof (cases "delivery_index pid (entries q)")
    case None
    then show ?thesis using inv
      by (auto simp: queue_pop_for_def list_pop_def delivery_index_def find_off_position [OF inv] Let_def split: option.splits)
  next
    case (Some off)
    then have off: "off < eq_len q"
      by (auto simp: delivery_index_def dest!: position_Some split: option.splits)
    let ?q = "q\<lparr>eq_buf := shift_left (eq_head q) (eq_len q) off (eq_buf q),
      eq_owner := shift_left (eq_head q) (eq_len q) off (eq_owner q), eq_tail := tail_idx q, eq_len := eq_len q - 1\<rparr>"
    have pop: "queue_pop_for pid q = (Some (eq_buf q ! entry_idx q off), ?q)"
      using Some off by (auto simp: queue_pop_for_def delivery_index_def find_off_position [OF inv] Let_def split: option.splits)
    have i: "queue_inv ?q" using inv off last_entry(1) [OF inv] by (auto simp: queue_inv_def entry_idx_def)
    have "entries ?q = remove_at off (entries q)"
      using inv off shift_left_ring [of "eq_buf q" "eq_len q" off "eq_head q"] shift_left_ring [of "eq_owner q" "eq_len q" off "eq_head q"]
      by (simp add: entries_def queue_inv_def remove_at_def zip_append take_zip drop_zip)
    then show ?thesis using pop i Some off by (simp add: list_pop_def entries_nth [OF inv])
  qed
  then show "queue_inv (snd (queue_pop_for pid q))"
    "fst (queue_pop_for pid q) = fst (list_pop pid (entries q))"
    "entries (snd (queue_pop_for pid q)) = snd (list_pop pid (entries q))" by simp_all
qed

text \<open>C13.  The event ring implements a bounded list of events with owners.  Every queue operation keeps
  the ring consistent and acts on the list it represents: a push coalesces an idle vsync tick with the
  queued tick of the same owner and a pointer move with the newest event when that is a pointer event of
  the same owner with the same buttons, and otherwise appends, dropping the oldest event when 256 are
  queued; a push in front drops the newest; a delivery removes the one event it returns.\<close>

theorem event_queue_refines_list:
  assumes inv: "queue_inv q"
  shows "queue_inv (queue_push ev owner q)
    \<and> entries (queue_push ev owner q) = list_push (ev\<lparr>ev_seq := eq_next_seq q\<rparr>) owner (entries q)
    \<and> queue_inv (queue_push_front ev owner q)
    \<and> entries (queue_push_front ev owner q) = list_push_front (ev\<lparr>ev_seq := eq_next_seq q\<rparr>) owner (entries q)
    \<and> queue_inv (snd (queue_pop_for pid q))
    \<and> fst (queue_pop_for pid q) = fst (list_pop pid (entries q))
    \<and> entries (snd (queue_pop_for pid q)) = snd (list_pop pid (entries q))"
  using queue_push_entries(1,2) [OF inv] push_front_entries [OF inv] queue_pop_entries [OF inv] by simp

definition witness_key :: wm_event where
  "witness_key = \<lparr> ev_seq = 0, ev_kind = EV_KEY, ev_flags = 1, ev_a = 30, ev_b = 0 \<rparr>"

theorem event_queue_refines_list_witness:
  "entries (queue_push witness_key 7 event_queue_new) = [(witness_key\<lparr>ev_seq := 1\<rparr>, 7)]
   \<and> fst (queue_pop_for 7 (queue_push witness_key 7 event_queue_new)) = Some (witness_key\<lparr>ev_seq := 1\<rparr>)
   \<and> fst (queue_pop_for 8 (queue_push witness_key 7 event_queue_new)) = None"
proof -
  let ?q = "queue_push witness_key 7 event_queue_new"
  have e: "entries ?q = [(witness_key\<lparr>ev_seq := 1\<rparr>, 7)]" and i: "queue_inv ?q"
    using event_queue_refines_list [OF queue_new_inv(1), of witness_key 7 0]
    by (simp_all add: queue_new_inv list_push_def witness_key_def kernel_defs) (simp add: event_queue_new_def)
  have "fst (queue_pop_for pid ?q) = fst (list_pop pid [(witness_key\<lparr>ev_seq := 1\<rparr>, 7)])" for pid
    using event_queue_refines_list [OF i, of witness_key 7 pid] e by simp
  then show ?thesis using e
    by (simp add: list_pop_def delivery_index_def is_baton_def is_input_def is_visible_def owner_visible_def witness_key_def kernel_defs)
qed

section \<open>Delivery\<close>

definition invisible :: "u32 \<Rightarrow> wm_event \<times> u32 \<Rightarrow> bool" where
  "invisible pid x \<longleftrightarrow> \<not> owner_visible (snd x) pid"

lemma filter_split_nth:
  assumes "i < length xs"
  shows "filter P xs = filter P (take i xs) @ (if P (xs ! i) then [xs ! i] else []) @ filter P (drop (Suc i) xs)"
proof -
  have "filter P xs = filter P (take i xs @ xs ! i # drop (Suc i) xs)"
    using id_take_nth_drop [OF assms] by (rule arg_cong)
  then show ?thesis by simp
qed

lemma filter_remove_at:
  assumes "i < length xs"
  shows "\<not> P (xs ! i) \<Longrightarrow> filter P (remove_at i xs) = filter P xs"
    "P (xs ! i) \<Longrightarrow> length (filter P (remove_at i xs)) + 1 = length (filter P xs)"
  using filter_split_nth [OF assms, of P] by (simp_all add: remove_at_def)



section \<open>Input\<close>

lemma canonical_pid_total: "table_inv n t \<Longrightarrow> \<exists>c. canonical_pid t pid = Some c"
  by (simp add: canonical_pid_def get_group_leader_eq)

lemma push_event_for_input:
  assumes t: "table_inv n t" and inv: "queue_inv (wm_q w)" and c: "canonical_pid t owner = Some c" "c \<noteq> 0"
    and kind: "kind = EV_POINTER \<or> kind = EV_KEY"
  shows "\<exists>ks w'. push_event_for t owner kind flags a b w = Some (ks, w') \<and> c \<in> set ks \<and> queue_inv (wm_q w')
    \<and> wm_focus w' = wm_focus w
    \<and> entries (wm_q w') = list_push \<lparr> ev_seq = eq_next_seq (wm_q w), ev_kind = kind, ev_flags = flags, ev_a = a, ev_b = b \<rparr> c (entries (wm_q w))"
proof -
  obtain wc where wc: "(if wm_waiter w \<noteq> 0 then canonical_pid t (wm_waiter w) else Some 0) = Some wc"
    using canonical_pid_total [OF t, of "wm_waiter w"] by (cases "wm_waiter w = 0") auto
  let ?ev = "\<lparr> ev_seq = 0, ev_kind = kind, ev_flags = flags, ev_a = a, ev_b = b \<rparr>"
  note q = queue_push_entries(1,2) [OF inv, of ?ev c]
  show ?thesis using c kind wc q
    by (auto simp: push_event_for_def Let_def)
qed

lemma list_push_pointer:
  assumes "ev_kind ev = EV_POINTER"
  shows "\<exists>e. (e, owner) \<in> set (list_push ev owner es) \<and> ev_kind e = EV_POINTER \<and> ev_flags e = ev_flags ev \<and> ev_a e = ev_a ev"
proof (cases "es \<noteq> [] \<and> same_pointer ev owner (last es)")
  case True
  obtain e ow where l: "last es = (e, ow)" by fastforce
  have "list_push ev owner es = butlast es @ [(e\<lparr>ev_a := ev_a ev, ev_b := ev_b e OR ev_b ev\<rparr>, ow)]"
    using True assms by (simp add: list_push_def kernel_defs l)
  then show ?thesis using True l by (auto simp: same_pointer_def)
next
  case False
  then show ?thesis using assms by (auto simp: list_push_def kernel_defs)
qed

lemma push_pointer_delivers:
  assumes t: "table_inv n t" and inv: "queue_inv (wm_q w)"
    and c: "canonical_pid t (input_target bypass hit w) = Some c" "c \<noteq> 0"
  shows "\<exists>ks w'. push_pointer now t bypass hit x y buttons w = Some (ks, w') \<and> c \<in> set ks \<and> queue_inv (wm_q w') \<and> wm_focus w' = wm_focus w
    \<and> 0 < queue_input_pending_for c (wm_q w')
    \<and> (\<exists>e. (e, c) \<in> set (entries (wm_q w')) \<and> ev_kind e = EV_POINTER \<and> ev_flags e = buttons \<and> ev_a e = pack_xy x y)"
proof -
  define w1 where "w1 = w\<lparr>wm_cursor_x := x, wm_cursor_y := y, wm_cursor_buttons := buttons, wm_cursor_seen := True,
    wm_last_act_ns := now, wm_ptr_count := wm_ptr_count w + 1, wm_last_buttons := buttons\<rparr>"
  define b where "b = (if buttons \<noteq> wm_last_buttons w then 1 else (0 :: u64))"
  have tgt: "input_target bypass hit w1 = input_target bypass hit w" and q1: "wm_q w1 = wm_q w"
    by (simp_all add: input_target_def w1_def)
  have eq: "push_pointer now t bypass hit x y buttons w = push_event_for t (input_target bypass hit w) EV_POINTER buttons (pack_xy x y) b w1"
    by (simp add: push_pointer_def b_def w1_def [symmetric] tgt Let_def)
  let ?ev = "\<lparr> ev_seq = eq_next_seq (wm_q w), ev_kind = EV_POINTER, ev_flags = buttons, ev_a = pack_xy x y, ev_b = b \<rparr>"
  have inv1: "queue_inv (wm_q w1)" using inv q1 by simp
  obtain ks w' where p: "push_pointer now t bypass hit x y buttons w = Some (ks, w')" "c \<in> set ks" "queue_inv (wm_q w')" "wm_focus w' = wm_focus w"
    "entries (wm_q w') = list_push ?ev c (entries (wm_q w))"
    using push_event_for_input [OF t inv1 c, of EV_POINTER buttons "pack_xy x y" b] unfolding eq q1 by (auto simp: w1_def)
  obtain e where e: "(e, c) \<in> set (entries (wm_q w'))" "ev_kind e = EV_POINTER" "ev_flags e = buttons" "ev_a e = pack_xy x y"
    using list_push_pointer [of ?ev c "entries (wm_q w)"] p(5) by auto
  then have "filter (case_prod (is_input c)) (entries (wm_q w')) \<noteq> []"
    by (auto simp: filter_empty_conv is_input_def owner_visible_def intro!: bexI [of _ "(e, c)"])
  then have "0 < queue_input_pending_for c (wm_q w')"
    by (simp add: queue_input_pending_for_def count_off_filter [OF p(3)])
  then show ?thesis using p e by blast
qed

text \<open>C19.  Pointer input is not lost: whatever is queued, a pointer report is routed to the focused
  process (else to the owner of the surface under the pointer, else to process 1), the latest position
  and buttons are in the queue for the leader of that process, and that leader is woken.\<close>

theorem pointer_reaches_target:
  assumes t: "table_inv n t" and inv: "queue_inv (wm_q w)"
    and c: "canonical_pid t (input_target bypass hit w) = Some c" "c \<noteq> 0"
  shows "\<exists>ks w'. push_pointer now t bypass hit x y buttons w = Some (ks, w') \<and> c \<in> set ks \<and> queue_inv (wm_q w')
    \<and> 0 < queue_input_pending_for c (wm_q w')
    \<and> (\<exists>e. (e, c) \<in> set (entries (wm_q w')) \<and> ev_kind e = EV_POINTER \<and> ev_flags e = buttons \<and> ev_a e = pack_xy x y)"
  using push_pointer_delivers [OF assms] by blast

theorem pointer_reaches_target_witness:
  "\<exists>ks w'. push_pointer 0 ptable_new False None 10 20 1 wm_new = Some (ks, w') \<and> 1 \<in> set ks
    \<and> 0 < queue_input_pending_for 1 (wm_q w')"
proof -
  have "canonical_pid ptable_new (input_target False None wm_new) = Some 1"
    by (simp add: input_target_def wm_new_def canonical_pid_def)
  moreover have "queue_inv (wm_q wm_new)" by (simp add: wm_new_def queue_new_inv)
  ultimately show ?thesis
    using pointer_reaches_target [OF table_inv_new [of 1], of wm_new False None 1 0 10 20 1] by auto
qed

end
