(* ===== verification/Proc_Sched.thy ===== *)
theory Proc_Sched
  imports Wm_Delivery Proc_Runs
begin

text \<open>
  Choosing the next process (\<^verbatim>\<open>kernel/src/process/mod.rs\<close>): the foreground-exclusive round robin with its
  shortcuts for pending input and for the vsync baton of the shell, the choice among sibling threads,
  and the timer preemption that saves one context and loads another.  The scheduler reads the focus and
  the event queue of the window manager, so it works on the process table together with the state
  \<open>wm\<close>.  \<^const>\<open>None\<close> is a walk to a group leader that does not end.
\<close>

section \<open>The next process\<close>

definition free_for :: "u32 \<Rightarrow> process \<Rightarrow> bool" where
  "free_for my_cpu p \<longleftrightarrow> p_current_cpu p = None \<or> p_current_cpu p = Some my_cpu"

definition claim :: "u32 \<Rightarrow> process \<Rightarrow> process" where
  "claim my_cpu p = p\<lparr>p_current_cpu := Some my_cpu\<rparr>"

text \<open>The foreground group and whether it runs exclusively: only while its leader is alive.\<close>

definition fg_group :: "ptable \<Rightarrow> wm \<Rightarrow> u32 option" where
  "fg_group t w = (if 1 < wm_focus w then get_group_leader t (wm_focus w) else Some 1)"

definition fg_exclusive :: "ptable \<Rightarrow> u32 \<Rightarrow> bool" where
  "fg_exclusive t g \<longleftrightarrow> 1 < g \<and> p_pid (proc_at t g) = g \<and> \<not> is_zombie (p_state (proc_at t g)) \<and> p_state (proc_at t g) \<noteq> Dead"

definition in_group :: "ptable \<Rightarrow> u32 \<Rightarrow> u32 \<Rightarrow> bool option" where
  "in_group t g pid = map_option (\<lambda>l. l = g) (get_group_leader t pid)"

text \<open>A slot can be taken directly when its process runs, is at home on this CPU and is not claimed elsewhere.\<close>

definition takeable :: "bool \<Rightarrow> u32 \<Rightarrow> u32 \<Rightarrow> ptable \<Rightarrow> bool" where
  "takeable smp my_cpu pid t \<longleftrightarrow>
     (let p = proc_at t pid in p_pid p = pid \<and> p_state p = Running \<and> (\<not> smp \<or> p_home_cpu p = my_cpu) \<and> free_for my_cpu p)"

definition take_pid :: "u32 \<Rightarrow> u32 \<Rightarrow> ptable \<Rightarrow> ptable" where
  "take_pid my_cpu pid t = t[idx_of pid := claim my_cpu (proc_at t pid)]"

text \<open>The round-robin scan; \<open>off\<close> counts the slots visited, \<open>n\<close> those left.\<close>

primrec scan_slots :: "nat \<Rightarrow> bool \<Rightarrow> u32 \<Rightarrow> u32 \<Rightarrow> bool \<Rightarrow> u32 \<Rightarrow> nat \<Rightarrow> ptable \<Rightarrow> nat option option" where
  "scan_slots 0 smp my_cpu current exclusive g idx t = Some None"
| "scan_slots (Suc n) smp my_cpu current exclusive g idx t =
     (let p = t ! (idx mod MAX_PROCS); skip = scan_slots n smp my_cpu current exclusive g (Suc idx) t in
      if p_pid p = 0 \<or> p_state p \<noteq> Running \<or> (smp \<and> p_home_cpu p \<noteq> my_cpu) then skip
      else do {
        mine \<leftarrow> (if exclusive then in_group t g (p_pid p) else Some True);
        if mine \<and> free_for my_cpu p \<and> (current = 0 \<or> p_pid p \<noteq> current) then Some (Some (idx mod MAX_PROCS))
        else skip })"

definition pick_round_robin :: "bool \<Rightarrow> u32 \<Rightarrow> u32 \<Rightarrow> bool \<Rightarrow> u32 \<Rightarrow> ptable \<Rightarrow> (u32 option \<times> ptable) option" where
  "pick_round_robin smp current my_cpu exclusive g t = do {
     let start = (if current = 0 then 0 else idx_of (current + 1));
     r \<leftarrow> scan_slots MAX_PROCS smp my_cpu current exclusive g start t;
     case r of
       Some i \<Rightarrow> Some (Some (p_pid (t ! i)), t[i := claim my_cpu (t ! i)])
     | None \<Rightarrow>
         if current = 0 \<or> p_pid (proc_at t current) \<noteq> current \<or> p_state (proc_at t current) \<noteq> Running
            \<or> (smp \<and> p_home_cpu (proc_at t current) \<noteq> my_cpu)
         then Some (None, t)
         else do {
           mine \<leftarrow> (if exclusive then in_group t g current else Some True);
           Some (if mine \<and> free_for my_cpu (proc_at t current) then (Some current, take_pid my_cpu current t)
                 else (None, t)) } }"

definition next_runnable_pid_locked ::
    "u32 \<Rightarrow> wm \<Rightarrow> u32 \<Rightarrow> u32 \<Rightarrow> ptable \<Rightarrow> (u32 option \<times> ptable) option" where
  "next_runnable_pid_locked cpu_count w current my_cpu t = do {
     g \<leftarrow> fg_group t w;
     let exclusive = fg_exclusive t g;
     let smp = (1 < cpu_count);
     let target = (if wm_focus w \<noteq> 0 then wm_focus w else 1);
     input_ok \<leftarrow> (if exclusive then in_group t g target else Some True);
     pending \<leftarrow> (if input_ok \<and> target \<noteq> 0 then wm_input_pending_for t target w else Some 0);
     if 0 < pending \<and> current \<noteq> target \<and> takeable smp my_cpu target t
     then Some (Some target, take_pid my_cpu target t)
     else do {
       baton \<leftarrow> (if \<not> exclusive \<and> current \<noteq> 1 then baton_vsync_queued_for t 1 w else Some False);
       if baton \<and> takeable smp my_cpu 1 t then Some (Some 1, take_pid my_cpu 1 t)
       else pick_round_robin smp current my_cpu exclusive g t } }"

definition next_runnable_pid ::
    "u32 \<Rightarrow> u32 \<Rightarrow> wm \<Rightarrow> u32 \<Rightarrow> u32 \<Rightarrow> ptable \<Rightarrow> (u32 option \<times> ptable) option" where
  "next_runnable_pid pending_init cpu_count w current my_cpu t =
     (if pending_init \<noteq> 0 then Some (None, t) else next_runnable_pid_locked cpu_count w current my_cpu t)"

text \<open>Sibling threads: the next running member of the group of \<open>current\<close>, not its leader.\<close>

primrec scan_siblings :: "nat \<Rightarrow> u32 \<Rightarrow> u32 \<Rightarrow> u32 \<Rightarrow> nat \<Rightarrow> ptable \<Rightarrow> u32 option option" where
  "scan_siblings 0 current g my_cpu idx t = Some None"
| "scan_siblings (Suc n) current g my_cpu idx t =
     (let p = t ! (idx mod MAX_PROCS); skip = scan_siblings n current g my_cpu (Suc idx) t in
      if p_pid p = 0 \<or> p_pid p = current \<or> p_state p \<noteq> Running \<or> \<not> free_for my_cpu p then skip
      else do {
        mine \<leftarrow> in_group t g (p_pid p);
        if \<not> mine \<or> p_pid p = g then skip else Some (Some (p_pid p)) })"

definition next_runnable_sibling_thread_locked :: "u32 \<Rightarrow> u32 \<Rightarrow> ptable \<Rightarrow> u32 option option" where
  "next_runnable_sibling_thread_locked current my_cpu t =
     (if p_pid (proc_at t current) \<noteq> current then Some None
      else do {
        g \<leftarrow> get_group_leader t current;
        scan_siblings MAX_PROCS current g my_cpu (idx_of (current + 1)) t })"

definition next_runnable_sibling_thread :: "u32 \<Rightarrow> u32 \<Rightarrow> ptable \<Rightarrow> (u32 option \<times> ptable) option" where
  "next_runnable_sibling_thread current my_cpu t = do {
     r \<leftarrow> next_runnable_sibling_thread_locked current my_cpu t;
     Some (case r of
       None \<Rightarrow> (None, t)
     | Some sib \<Rightarrow> if free_for my_cpu (proc_at t sib) then (Some sib, take_pid my_cpu sib t) else (None, t)) }"

section \<open>Timer preemption\<close>

text \<open>The floating-point image and the FS base of the CPU are \<open>cpu_xstate\<close> and \<open>cpu_fs\<close>; the new values,
the active kernel stack and the current pid are returned in a \<open>cpu_switch\<close>.\<close>

record cpu_switch =
  cs_pid :: u32
  cs_regs :: user_regs
  cs_pml4 :: u64
  cs_xstate :: bytes
  cs_fs_base :: u64
  cs_stack_top :: u64

definition preempted :: "user_regs \<Rightarrow> u64 \<Rightarrow> process \<Rightarrow> process" where
  "preempted regs fs p = p\<lparr>p_regs := regs\<lparr>r_rflags := r_rflags regs OR 0x200\<rparr>, p_preempted_by_timer := True,
     p_fs_base := fs, p_current_cpu := None\<rparr>"

definition timer_preempt_switch ::
    "bool \<Rightarrow> u32 \<Rightarrow> wm \<Rightarrow> u32 \<Rightarrow> u32 \<Rightarrow> user_regs \<Rightarrow> bytes \<Rightarrow> u64 \<Rightarrow> ptable \<Rightarrow> (cpu_switch option \<times> ptable) option" where
  "timer_preempt_switch preempt_disabled cpu_count w my_cpu cur_pid cur_regs cpu_xstate cpu_fs t =
     (if preempt_disabled then Some (None, t)
      else do {
        (r, t1) \<leftarrow> next_runnable_pid_locked cpu_count w cur_pid my_cpu t;
        case r of
          None \<Rightarrow> Some (None, t1)
        | Some next_pid \<Rightarrow>
            if next_pid = cur_pid then Some (None, t1)
            else
              let t2 = (if p_state (proc_at t1 cur_pid) = Running then update_pid cur_pid (preempted cur_regs cpu_fs) t1 else t1);
                  t3 = update_pid cur_pid (\<lambda>p. p\<lparr>p_xstate := cpu_xstate\<rparr>) t2;
                  nx = proc_at t3 next_pid
              in if p_pid nx \<noteq> next_pid \<or> p_state nx \<noteq> Running
                 then Some (None, t3[idx_of cur_pid := claim my_cpu (proc_at t3 cur_pid)])
                 else Some (Some \<lparr> cs_pid = next_pid, cs_regs = p_regs nx, cs_pml4 = p_pml4_phys nx,
                                  cs_xstate = p_xstate nx, cs_fs_base = p_fs_base nx, cs_stack_top = p_syscall_stack_top nx \<rparr>,
                            t3[idx_of next_pid := claim my_cpu nx]) })"

definition timer_preempt_switch_try ::
    "bool \<Rightarrow> bool \<Rightarrow> u32 \<Rightarrow> wm \<Rightarrow> u32 \<Rightarrow> u32 \<Rightarrow> user_regs \<Rightarrow> bytes \<Rightarrow> u64 \<Rightarrow> ptable \<Rightarrow> (cpu_switch option \<times> ptable) option" where
  "timer_preempt_switch_try locked preempt_disabled cpu_count w my_cpu cur_pid cur_regs cpu_xstate cpu_fs t =
     (if preempt_disabled \<or> \<not> locked then Some (None, t)
      else timer_preempt_switch False cpu_count w my_cpu cur_pid cur_regs cpu_xstate cpu_fs t)"

section \<open>The choice is sound and complete\<close>

definition runs_here :: "bool \<Rightarrow> u32 \<Rightarrow> bool \<Rightarrow> u32 \<Rightarrow> ptable \<Rightarrow> process \<Rightarrow> bool" where
  "runs_here smp my_cpu exclusive g t p \<longleftrightarrow>
     p_pid p \<noteq> 0 \<and> p_state p = Running \<and> (smp \<longrightarrow> p_home_cpu p = my_cpu) \<and>
     (exclusive \<longrightarrow> leader_of t (p_pid p) = g) \<and> free_for my_cpu p"

definition focus_leader :: "ptable \<Rightarrow> wm \<Rightarrow> u32" where
  "focus_leader t w = (if 1 < wm_focus w then leader_of t (wm_focus w) else 1)"

definition eligible :: "u32 \<Rightarrow> wm \<Rightarrow> u32 \<Rightarrow> ptable \<Rightarrow> process \<Rightarrow> bool" where
  "eligible cpu_count w my_cpu t p =
     runs_here (1 < cpu_count) my_cpu (fg_exclusive t (focus_leader t w)) (focus_leader t w) t p"

lemma leader_eq: "table_inv n t \<Longrightarrow> get_group_leader t pid = Some (leader_of t pid)"
  by (simp add: get_group_leader_eq leader_of_def)

lemma in_group_eq: "table_inv n t \<Longrightarrow> in_group t g pid = Some (leader_of t pid = g)"
  by (simp add: in_group_def leader_eq)

lemma fg_group_eq: "table_inv n t \<Longrightarrow> fg_group t w = Some (focus_leader t w)"
  by (simp add: fg_group_def focus_leader_def leader_eq)

lemma canonical_eq: "table_inv n t \<Longrightarrow> canonical_pid t pid = Some (if pid \<le> 1 then pid else leader_of t pid)"
  by (simp add: canonical_pid_def leader_eq)

definition candidate :: "bool \<Rightarrow> u32 \<Rightarrow> u32 \<Rightarrow> bool \<Rightarrow> u32 \<Rightarrow> ptable \<Rightarrow> nat \<Rightarrow> bool" where
  "candidate smp my_cpu current exclusive g t i \<longleftrightarrow>
     runs_here smp my_cpu exclusive g t (t ! i) \<and> (current = 0 \<or> p_pid (t ! i) \<noteq> current)"

lemma scan_slots_Suc:
  assumes inv: "table_inv n t"
  shows "scan_slots (Suc m) smp my_cpu current exclusive g idx t =
    (if candidate smp my_cpu current exclusive g t (idx mod MAX_PROCS) then Some (Some (idx mod MAX_PROCS))
     else scan_slots m smp my_cpu current exclusive g (Suc idx) t)"
  by (auto simp: Let_def in_group_eq [OF inv] runs_here_def candidate_def)

lemma scan_slots_spec:
  assumes inv: "table_inv n t"
  shows "\<exists>r. scan_slots m smp my_cpu current exclusive g idx t = Some r \<and>
    (case r of
       Some i \<Rightarrow> i < MAX_PROCS \<and> candidate smp my_cpu current exclusive g t i
     | None \<Rightarrow> (\<forall>k < m. \<not> candidate smp my_cpu current exclusive g t ((idx + k) mod MAX_PROCS)))"
proof (induction m arbitrary: idx)
  case (Suc m)
  show ?case
  proof (cases "candidate smp my_cpu current exclusive g t (idx mod MAX_PROCS)")
    case True
    then show ?thesis by (simp add: scan_slots_Suc [OF inv] MAX_PROCS_def del: scan_slots.simps)
  next
    case False
    obtain r where r: "scan_slots m smp my_cpu current exclusive g (Suc idx) t = Some r"
      "case r of
         Some i \<Rightarrow> i < MAX_PROCS \<and> candidate smp my_cpu current exclusive g t i
       | None \<Rightarrow> (\<forall>k < m. \<not> candidate smp my_cpu current exclusive g t ((Suc idx + k) mod MAX_PROCS))"
      using Suc.IH [of "Suc idx"] by blast
    have "case r of
         Some i \<Rightarrow> i < MAX_PROCS \<and> candidate smp my_cpu current exclusive g t i
       | None \<Rightarrow> (\<forall>k < Suc m. \<not> candidate smp my_cpu current exclusive g t ((idx + k) mod MAX_PROCS))"
      using r(2) False by (cases r) (auto simp: less_Suc_eq_0_disj)
    then show ?thesis using r(1) False by (simp add: scan_slots_Suc [OF inv] del: scan_slots.simps)
  qed
qed simp

lemma scan_slots_all:
  assumes inv: "table_inv n t"
  shows "\<exists>r. scan_slots MAX_PROCS smp my_cpu current exclusive g idx t = Some r \<and>
    (case r of
       Some i \<Rightarrow> i < MAX_PROCS \<and> candidate smp my_cpu current exclusive g t i
     | None \<Rightarrow> (\<forall>i < MAX_PROCS. \<not> candidate smp my_cpu current exclusive g t i))"
proof -
  obtain r where r: "scan_slots MAX_PROCS smp my_cpu current exclusive g idx t = Some r"
    "case r of
       Some i \<Rightarrow> i < MAX_PROCS \<and> candidate smp my_cpu current exclusive g t i
     | None \<Rightarrow> (\<forall>k < MAX_PROCS. \<not> candidate smp my_cpu current exclusive g t ((idx + k) mod MAX_PROCS))"
    using scan_slots_spec [OF inv] by blast
  show ?thesis
  proof (cases r)
    case None
    have "\<not> candidate smp my_cpu current exclusive g t i" if "i < MAX_PROCS" for i
      using every_slot_visited [OF that, of idx] r(2) None by auto
    then show ?thesis using r(1) None by simp
  qed (use r in simp)
qed

text \<open>What a call may answer: an eligible slot, claimed and otherwise unchanged, or nothing when no slot is eligible.\<close>

definition choice_ok :: "u32 \<Rightarrow> wm \<Rightarrow> u32 \<Rightarrow> ptable \<Rightarrow> u32 option \<Rightarrow> ptable \<Rightarrow> bool" where
  "choice_ok cpu_count w my_cpu t r t' \<longleftrightarrow>
     (case r of
        None \<Rightarrow> t' = t \<and> (\<forall>i < MAX_PROCS. \<not> eligible cpu_count w my_cpu t (t ! i))
      | Some pid \<Rightarrow> p_pid (proc_at t pid) = pid \<and> eligible cpu_count w my_cpu t (proc_at t pid) \<and> t' = take_pid my_cpu pid t)"

lemma live_slot:
  assumes "table_inv n t" "i < MAX_PROCS" "p_state (t ! i) = Running"
  shows "idx_of (p_pid (t ! i)) = i"
  using table_inv_slot [OF assms(1,2)] assms(3) by (simp add: slot_ok_def)

lemma choice_ok_take:
  assumes "takeable (1 < cpu_count) my_cpu pid t" "pid \<noteq> 0"
    "fg_exclusive t (focus_leader t w) \<longrightarrow> leader_of t pid = focus_leader t w"
  shows "choice_ok cpu_count w my_cpu t (Some pid) (take_pid my_cpu pid t)"
  using assms by (auto simp: choice_ok_def eligible_def takeable_def runs_here_def Let_def)

lemma choice_ok_scan:
  assumes inv: "table_inv n t" and i: "i < MAX_PROCS"
    and c: "candidate (1 < cpu_count) my_cpu current (fg_exclusive t (focus_leader t w)) (focus_leader t w) t i"
  shows "choice_ok cpu_count w my_cpu t (Some (p_pid (t ! i))) (t[i := claim my_cpu (t ! i)])"
proof -
  have run: "eligible cpu_count w my_cpu t (t ! i)" and st: "p_state (t ! i) = Running"
    using c by (auto simp: candidate_def eligible_def runs_here_def)
  have idx: "idx_of (p_pid (t ! i)) = i" by (rule live_slot [OF inv i st])
  have at: "proc_at t (p_pid (t ! i)) = t ! i" unfolding proc_at_def idx ..
  show ?thesis unfolding choice_ok_def take_pid_def option.case at idx using run by simp
qed

lemma choice_ok_none:
  assumes inv: "table_inv n t"
    and none: "\<forall>i < MAX_PROCS. \<not> candidate (1 < cpu_count) my_cpu current (fg_exclusive t (focus_leader t w)) (focus_leader t w) t i"
    and cur: "current \<noteq> 0 \<Longrightarrow> p_pid (proc_at t current) = current \<Longrightarrow> \<not> eligible cpu_count w my_cpu t (proc_at t current)"
  shows "choice_ok cpu_count w my_cpu t None t"
proof -
  have "\<not> eligible cpu_count w my_cpu t (t ! i)" if i: "i < MAX_PROCS" for i
  proof
    assume e: "eligible cpu_count w my_cpu t (t ! i)"
    then have st: "p_state (t ! i) = Running" by (simp add: eligible_def runs_here_def)
    have "current \<noteq> 0" "p_pid (t ! i) = current" using none i e by (auto simp: candidate_def eligible_def)
    moreover have "proc_at t (p_pid (t ! i)) = t ! i" unfolding proc_at_def live_slot [OF inv i st] ..
    ultimately show False using cur e by metis
  qed
  then show ?thesis by (simp add: choice_ok_def)
qed

lemma input_pending_total: "table_inv n t \<Longrightarrow> \<exists>k. wm_input_pending_for t pid w = Some k"
  by (simp add: wm_input_pending_for_def canonical_eq)

lemma baton_queued_total: "table_inv n t \<Longrightarrow> \<exists>b. baton_vsync_queued_for t pid w = Some b"
  by (simp add: baton_vsync_queued_for_def canonical_eq)

lemma pick_round_robin_choice:
  assumes inv: "table_inv n t"
  shows "\<exists>r t'. pick_round_robin (1 < cpu_count) current my_cpu (fg_exclusive t (focus_leader t w)) (focus_leader t w) t = Some (r, t') \<and>
    choice_ok cpu_count w my_cpu t r t'"
proof -
  let ?g = "focus_leader t w" and ?ex = "fg_exclusive t (focus_leader t w)" and ?smp = "1 < cpu_count"
  obtain r where scan: "scan_slots MAX_PROCS ?smp my_cpu current ?ex ?g (if current = 0 then 0 else idx_of (current + 1)) t = Some r"
    and scan_ok: "case r of Some i \<Rightarrow> i < MAX_PROCS \<and> candidate ?smp my_cpu current ?ex ?g t i
       | None \<Rightarrow> (\<forall>i < MAX_PROCS. \<not> candidate ?smp my_cpu current ?ex ?g t i)"
    using scan_slots_all [OF inv] by blast
  show ?thesis
  proof (cases r)
    case (Some i)
    then have "choice_ok cpu_count w my_cpu t (Some (p_pid (t ! i))) (t[i := claim my_cpu (t ! i)])"
      using scan_ok by (auto intro: choice_ok_scan [OF inv])
    then show ?thesis using scan Some by (simp add: pick_round_robin_def)
  next
    case None
    then have nc: "\<forall>i < MAX_PROCS. \<not> candidate ?smp my_cpu current ?ex ?g t i" using scan_ok by simp
    let ?take = "current \<noteq> 0 \<and> takeable ?smp my_cpu current t \<and> (?ex \<longrightarrow> leader_of t current = ?g)"
    have eq: "pick_round_robin ?smp current my_cpu ?ex ?g t =
        Some (if ?take then (Some current, take_pid my_cpu current t) else (None, t))"
      using scan None by (auto simp: pick_round_robin_def in_group_eq [OF inv] takeable_def Let_def)
    show ?thesis
    proof (cases ?take)
      case True
      then show ?thesis using eq choice_ok_take by auto
    next
      case False
      have "choice_ok cpu_count w my_cpu t None t"
        by (rule choice_ok_none [OF inv nc]) (use False in \<open>auto simp: eligible_def runs_here_def takeable_def Let_def\<close>)
      then show ?thesis using eq False by auto
    qed
  qed
qed

lemma next_runnable_choice:
  assumes inv: "table_inv n t"
  shows "\<exists>r t'. next_runnable_pid_locked cpu_count w current my_cpu t = Some (r, t') \<and> choice_ok cpu_count w my_cpu t r t'"
proof -
  let ?g = "focus_leader t w" and ?ex = "fg_exclusive t (focus_leader t w)" and ?smp = "1 < cpu_count"
  define target where "target = (if wm_focus w \<noteq> 0 then wm_focus w else 1)"
  obtain k where k: "wm_input_pending_for t target w = Some k" using input_pending_total [OF inv] by blast
  obtain b where b: "baton_vsync_queued_for t 1 w = Some b" using baton_queued_total [OF inv] by blast
  let ?in = "(?ex \<longrightarrow> leader_of t target = ?g) \<and> 0 < k \<and> current \<noteq> target \<and> takeable ?smp my_cpu target t"
  let ?bat = "\<not> ?ex \<and> current \<noteq> 1 \<and> b \<and> takeable ?smp my_cpu 1 t"
  have target: "target \<noteq> 0" by (simp add: target_def)
  have "next_runnable_pid_locked cpu_count w current my_cpu t =
      (if ?in then Some (Some target, take_pid my_cpu target t)
       else if ?bat then Some (Some 1, take_pid my_cpu 1 t)
       else pick_round_robin ?smp current my_cpu ?ex ?g t)"
    unfolding next_runnable_pid_locked_def fg_group_eq [OF inv] target_def [symmetric]
    using target by (cases ?ex; simp add: in_group_eq [OF inv] k b Let_def)
  then show ?thesis
    using choice_ok_take [of cpu_count my_cpu target t w] choice_ok_take [of cpu_count my_cpu 1 t w] target
      pick_round_robin_choice [OF inv, of cpu_count current my_cpu w] by auto
qed

text \<open>C15.  The scheduler is sound and work-conserving: on every consistent table a call returns; the process
  it answers is running, at home on this CPU when there are several, not claimed by another CPU, and in the
  foreground group while that group runs exclusively; it is claimed and nothing else changes; and it answers
  nothing only when no slot of the table holds such a process.\<close>

theorem scheduler_choice:
  assumes "table_inv n t"
  shows "\<exists>r t'. next_runnable_pid_locked cpu_count w current my_cpu t = Some (r, t') \<and>
     (case r of
        None \<Rightarrow> t' = t \<and> (\<forall>i < MAX_PROCS. \<not> eligible cpu_count w my_cpu t (t ! i))
      | Some pid \<Rightarrow> p_pid (proc_at t pid) = pid \<and> eligible cpu_count w my_cpu t (proc_at t pid) \<and> t' = take_pid my_cpu pid t)"
  using next_runnable_choice [OF assms] unfolding choice_ok_def .

theorem scheduler_choice_witness:
  "\<exists>r t'. next_runnable_pid_locked 1 wm_new 0 0 (kp_table witness_kproc) = Some (r, t') \<and> r \<noteq> None"
proof -
  have inv: "table_inv 2 (kp_table witness_kproc)" using witness_inv by (simp add: proc_inv_def witness_kproc_def)
  have at: "kp_table witness_kproc ! 1 = witness_proc" using witness_at by (simp add: proc_at_def idx_of_def MAX_PROCS_def)
  have "eligible 1 wm_new 0 (kp_table witness_kproc) (kp_table witness_kproc ! 1)"
    unfolding at by (simp add: eligible_def runs_here_def focus_leader_def fg_exclusive_def wm_new_def free_for_def)
       (simp add: witness_proc_def process_empty_def)
  moreover have "1 < MAX_PROCS" by (simp add: MAX_PROCS_def)
  ultimately have "\<not> (\<forall>i < MAX_PROCS. \<not> eligible 1 wm_new 0 (kp_table witness_kproc) (kp_table witness_kproc ! i))" by blast
  then show ?thesis
    using scheduler_choice [OF inv, of 1 wm_new 0 0] by (auto split: option.splits)
qed

section \<open>A preempted process continues where it was\<close>

lemma choice_ok_someD:
  assumes "choice_ok cpu_count w my_cpu t (Some pid) t'" "table_inv n t"
  shows "length t' = MAX_PROCS" "p_pid (proc_at t pid) = pid" "p_state (proc_at t pid) = Running"
    "proc_at t' q = (if idx_of q = idx_of pid then claim my_cpu (proc_at t pid) else proc_at t q)"
  using assms table_inv_length [OF assms(2)]
  by (auto simp: choice_ok_def take_pid_def proc_at_def eligible_def runs_here_def)

lemma timer_switch_spec:
  assumes inv: "table_inv n t"
    and call: "timer_preempt_switch False cpu_count w my_cpu cur regs xs fs t = Some (Some cs, t')"
  shows "cs_pid cs \<noteq> cur" "p_pid (proc_at t (cs_pid cs)) = cs_pid cs"
    "cs_regs cs = p_regs (proc_at t (cs_pid cs))" "cs_pml4 cs = p_pml4_phys (proc_at t (cs_pid cs))"
    "cs_xstate cs = p_xstate (proc_at t (cs_pid cs))" "cs_fs_base cs = p_fs_base (proc_at t (cs_pid cs))"
    "p_current_cpu (proc_at t' (cs_pid cs)) = Some my_cpu"
    "p_pid (proc_at t cur) = cur \<Longrightarrow> p_state (proc_at t cur) = Running \<Longrightarrow>
      proc_at t' cur = (preempted regs fs (proc_at t cur))\<lparr>p_xstate := xs\<rparr>"
proof -
  obtain r t1 where r: "next_runnable_pid_locked cpu_count w cur my_cpu t = Some (r, t1)" "choice_ok cpu_count w my_cpu t r t1"
    using next_runnable_choice [OF inv] by blast
  obtain nx where nx: "r = Some nx" "nx \<noteq> cur"
    using call r(1) by (auto simp: timer_preempt_switch_def split: option.splits if_splits)
  note c = choice_ok_someD [OF r(2) [unfolded nx(1)] inv]
  define t3 where "t3 = update_pid cur (\<lambda>p. p\<lparr>p_xstate := xs\<rparr>)
    (if p_state (proc_at t1 cur) = Running then update_pid cur (preempted regs fs) t1 else t1)"
  have len3: "length t3 = MAX_PROCS" using c(1) by (simp add: t3_def)
  have other: "idx_of cur \<noteq> idx_of nx" if "p_pid (proc_at t1 cur) = cur"
    using that c(2,4) nx(2) by (auto simp: claim_def split: if_splits)
  have at_nx: "proc_at t3 nx = claim my_cpu (proc_at t nx)"
    using c(1) c(4) [of nx] other by (auto simp: t3_def update_pid_def proc_at_def)
  have call': "cs = \<lparr> cs_pid = nx, cs_regs = p_regs (proc_at t3 nx), cs_pml4 = p_pml4_phys (proc_at t3 nx),
      cs_xstate = p_xstate (proc_at t3 nx), cs_fs_base = p_fs_base (proc_at t3 nx), cs_stack_top = p_syscall_stack_top (proc_at t3 nx) \<rparr>"
      "t' = t3[idx_of nx := claim my_cpu (proc_at t3 nx)]"
    using call r(1) nx by (auto simp: timer_preempt_switch_def t3_def Let_def split: if_splits)
  have "cs_pid cs = nx" by (simp add: call'(1))
  note this [simp]
  show "cs_pid cs \<noteq> cur" "p_pid (proc_at t (cs_pid cs)) = cs_pid cs"
    "cs_regs cs = p_regs (proc_at t (cs_pid cs))" "cs_pml4 cs = p_pml4_phys (proc_at t (cs_pid cs))"
    "cs_xstate cs = p_xstate (proc_at t (cs_pid cs))" "cs_fs_base cs = p_fs_base (proc_at t (cs_pid cs))"
    using nx(2) c(2) by (simp_all add: call'(1) at_nx claim_def)
  show "p_current_cpu (proc_at t' (cs_pid cs)) = Some my_cpu"
    using len3 by (simp add: call'(2) proc_at_def claim_def)
  assume cur: "p_pid (proc_at t cur) = cur" "p_state (proc_at t cur) = Running"
  have i: "idx_of cur \<noteq> idx_of nx" using cur(1) c(2) nx(2) by (auto simp: proc_at_def)
  have at1: "proc_at t1 cur = proc_at t cur" using c(4) [of cur] i by simp
  have "proc_at t3 cur = (preempted regs fs (proc_at t cur))\<lparr>p_xstate := xs\<rparr>"
    using cur c(1) at1 by (simp add: t3_def update_pid_def proc_at_def preempted_def)
  then show "proc_at t' cur = (preempted regs fs (proc_at t cur))\<lparr>p_xstate := xs\<rparr>"
    using i by (simp add: call'(2) proc_at_def)
qed

text \<open>C17.  A preempted process continues exactly where the timer stopped it: when the timer switches away from
  a running process, and later, from whatever table in which its saved context is still the same, switches
  to it again on any CPU, the registers loaded are those interrupted (with interrupts enabled), and so are
  the floating-point image and the thread pointer.\<close>

theorem preempt_resume_roundtrip:
  assumes "table_inv n t" "p_pid (proc_at t cur) = cur" "p_state (proc_at t cur) = Running"
    and "timer_preempt_switch False cc w my_cpu cur regs xs fs t = Some (Some cs, t1)"
    and "table_inv m t2" "p_regs (proc_at t2 cur) = p_regs (proc_at t1 cur)"
      "p_xstate (proc_at t2 cur) = p_xstate (proc_at t1 cur)" "p_fs_base (proc_at t2 cur) = p_fs_base (proc_at t1 cur)"
    and "timer_preempt_switch False cc' w' my_cpu' other regs' xs' fs' t2 = Some (Some cs', t3)" "cs_pid cs' = cur"
  shows "cs_pid cs \<noteq> cur \<and> cs_regs cs' = regs\<lparr>r_rflags := r_rflags regs OR 0x200\<rparr> \<and> cs_xstate cs' = xs \<and> cs_fs_base cs' = fs"
  using timer_switch_spec(1,8) [OF assms(1,4)] timer_switch_spec(3,5,6) [OF assms(5,9)] assms(2,3,6-8,10)
  by (simp add: preempted_def)

lemma timer_switch_total:
  assumes inv: "table_inv n t" and next_pid: "next_runnable_pid_locked cpu_count w cur my_cpu t = Some (Some nx, t1)" "nx \<noteq> cur"
  shows "\<exists>cs t'. timer_preempt_switch False cpu_count w my_cpu cur regs xs fs t = Some (Some cs, t') \<and> cs_pid cs = nx"
proof -
  have ok: "choice_ok cpu_count w my_cpu t (Some nx) t1"
    using next_runnable_choice [OF inv, of cpu_count w cur my_cpu] next_pid(1) by auto
  note c = choice_ok_someD [OF ok inv]
  define t3 where "t3 = update_pid cur (\<lambda>p. p\<lparr>p_xstate := xs\<rparr>)
    (if p_state (proc_at t1 cur) = Running then update_pid cur (preempted regs fs) t1 else t1)"
  have other: "idx_of cur \<noteq> idx_of nx" if "p_pid (proc_at t1 cur) = cur"
    using that c(2,4) next_pid(2) by (auto simp: claim_def split: if_splits)
  have "proc_at t3 nx = claim my_cpu (proc_at t nx)"
    using c(1) c(4) [of nx] other by (auto simp: t3_def update_pid_def proc_at_def)
  then have "p_pid (proc_at t3 nx) = nx" "p_state (proc_at t3 nx) = Running" using c(2,3) by (simp_all add: claim_def)
  then show ?thesis using next_pid by (simp add: timer_preempt_switch_def Let_def t3_def [symmetric])
qed

lemma scan_slots_skip:
  assumes inv: "table_inv n t"
  shows "d \<le> m \<Longrightarrow> (\<forall>k < d. \<not> candidate smp my_cpu current exclusive g t ((idx + k) mod MAX_PROCS)) \<Longrightarrow>
    scan_slots m smp my_cpu current exclusive g idx t = scan_slots (m - d) smp my_cpu current exclusive g (idx + d) t"
proof (induction d arbitrary: idx m)
  case (Suc d)
  obtain m' where m: "m = Suc m'" using Suc.prems(1) by (cases m) auto
  have "\<not> candidate smp my_cpu current exclusive g t (idx mod MAX_PROCS)" using Suc.prems(2) by auto
  moreover have "\<forall>k < d. \<not> candidate smp my_cpu current exclusive g t ((Suc idx + k) mod MAX_PROCS)"
    using Suc.prems(2) by auto
  ultimately show ?case using Suc.IH [of m' "Suc idx"] Suc.prems(1) by (simp add: m scan_slots_Suc [OF inv] del: scan_slots.simps)
qed simp

text \<open>Two processes on one CPU, nothing focused and nothing queued: each is chosen after the other.\<close>

definition pair_table :: "user_regs \<Rightarrow> ptable" where
  "pair_table regs = ptable_new[1 := witness_proc\<lparr>p_regs := regs\<rparr>, 2 := witness_proc\<lparr>p_pid := 2\<rparr>]"

lemma pair_table_inv: "table_inv 3 (pair_table regs)"
  unfolding pair_table_def
  by (rule table_inv_process [OF table_inv_process [OF table_inv_new]])
     (simp_all add: MAX_PROCS_def slot_ok_def witness_proc_def idx_of_def process_empty_def)

lemma pair_candidate:
  assumes "i < MAX_PROCS"
  shows "candidate False 0 current False 1 (pair_table regs) i = ((i = 1 \<and> current \<noteq> 1) \<or> (i = 2 \<and> current \<noteq> 2))"
proof -
  have "pair_table regs ! i = (if i = 1 then witness_proc\<lparr>p_regs := regs\<rparr> else if i = 2 then witness_proc\<lparr>p_pid := 2\<rparr> else process_empty)"
    using assms by (simp add: pair_table_def nth_list_update ptable_new_def MAX_PROCS_def)
  then show ?thesis
    by (auto simp: candidate_def runs_here_def free_for_def witness_proc_def process_empty_def)
qed

lemma scan_slots_hit:
  assumes "table_inv n t" "i = idx mod MAX_PROCS" "candidate smp my_cpu current exclusive g t i"
  shows "scan_slots (Suc m) smp my_cpu current exclusive g idx t = Some (Some i)"
  unfolding scan_slots_Suc [OF assms(1)] using assms(2,3) by simp

lemma pair_scan:
  "scan_slots MAX_PROCS False 0 1 False 1 (idx_of (1 + 1)) (pair_table regs) = Some (Some 2)"
  "scan_slots MAX_PROCS False 0 2 False 1 (idx_of (2 + 1)) (pair_table regs) = Some (Some 1)"
proof -
  have n: "MAX_PROCS = Suc 255" and idx: "idx_of (1 + 1) = 2" "idx_of (2 + 1) = 3" by (simp_all add: MAX_PROCS_def idx_of_def)
  have c: "candidate False 0 1 False 1 (pair_table regs) 2" "candidate False 0 2 False 1 (pair_table regs) 1"
    by (subst pair_candidate; simp add: n)+
  have "scan_slots (Suc 255) False 0 1 False 1 2 (pair_table regs) = Some (Some 2)"
    by (rule scan_slots_hit [OF pair_table_inv _ c(1)]) (simp add: n)
  then show "scan_slots MAX_PROCS False 0 1 False 1 (idx_of (1 + 1)) (pair_table regs) = Some (Some 2)"
    unfolding idx n .
  have "\<not> candidate False 0 2 False 1 (pair_table regs) ((3 + k) mod MAX_PROCS)" if "k < 254" for k
  proof -
    have "(3 + k) mod 256 \<noteq> 1"
    proof (cases "k = 253")
      case False
      then have "(3 + k) mod 256 = 3 + k" using that by simp
      then show ?thesis by linarith
    qed simp
    then show ?thesis by (subst pair_candidate) (simp_all add: MAX_PROCS_def)
  qed
  then have "scan_slots MAX_PROCS False 0 2 False 1 3 (pair_table regs) = scan_slots (MAX_PROCS - 254) False 0 2 False 1 (3 + 254) (pair_table regs)"
    by (intro scan_slots_skip [OF pair_table_inv]) (simp_all add: n)
  moreover have "MAX_PROCS - 254 = Suc 1" by (simp add: n)
  moreover have "scan_slots (Suc 1) False 0 2 False 1 (3 + 254) (pair_table regs) = Some (Some 1)"
    by (rule scan_slots_hit [OF pair_table_inv _ c(2)]) (simp add: n)
  ultimately show "scan_slots MAX_PROCS False 0 2 False 1 (idx_of (2 + 1)) (pair_table regs) = Some (Some 1)"
    unfolding idx by metis
qed

lemma pair_next:
  "\<exists>t'. next_runnable_pid_locked 1 wm_new 1 0 (pair_table regs) = Some (Some 2, t')"
  "\<exists>t'. next_runnable_pid_locked 1 wm_new 2 0 (pair_table regs) = Some (Some 1, t')"
proof -
  have eq: "next_runnable_pid_locked 1 wm_new current 0 (pair_table regs) = pick_round_robin False current 0 False 1 (pair_table regs)" for current
    by (simp add: next_runnable_pid_locked_def fg_group_def fg_exclusive_def wm_new_def wm_input_pending_for_def
        baton_vsync_queued_for_def canonical_pid_def queue_input_pending_for_def queue_has_baton_for_def
        count_off_def find_off_def event_queue_new_def)
  have at: "p_pid (pair_table regs ! 2) = 2" "p_pid (pair_table regs ! 1) = 1"
    by (simp_all add: pair_table_def ptable_new_def MAX_PROCS_def witness_proc_def)
  show "\<exists>t'. next_runnable_pid_locked 1 wm_new 1 0 (pair_table regs) = Some (Some 2, t')"
    unfolding eq pick_round_robin_def Let_def by (subst if_not_P, simp) (simp only: pair_scan bind.simps option.case at, simp)
  show "\<exists>t'. next_runnable_pid_locked 1 wm_new 2 0 (pair_table regs) = Some (Some 1, t')"
    unfolding eq pick_round_robin_def Let_def by (subst if_not_P, simp) (simp only: pair_scan bind.simps option.case at, simp)
qed

lemma pair_at: "proc_at (pair_table regs) 1 = witness_proc\<lparr>p_regs := regs\<rparr>"
  by (simp add: pair_table_def ptable_new_def MAX_PROCS_def proc_at_def idx_of_def)

theorem preempt_resume_roundtrip_witness:
  "\<exists>cs t1 cs' t3. timer_preempt_switch False 1 wm_new 0 1 (user_regs_default\<lparr>r_rflags := 0x200\<rparr>) xstate_zero 0 (pair_table user_regs_default) = Some (Some cs, t1) \<and>
     timer_preempt_switch False 1 wm_new 0 2 user_regs_default xstate_zero 0 (pair_table (user_regs_default\<lparr>r_rflags := 0x200\<rparr>)) = Some (Some cs', t3) \<and>
     cs_pid cs \<noteq> 1 \<and> cs_pid cs' = 1 \<and> cs_regs cs' = user_regs_default\<lparr>r_rflags := 0x200\<rparr>"
proof -
  let ?saved = "user_regs_default\<lparr>r_rflags := 0x200\<rparr>"
  obtain cs t1 where c1: "timer_preempt_switch False 1 wm_new 0 1 ?saved xstate_zero 0 (pair_table user_regs_default) = Some (Some cs, t1)"
    using pair_next(1) [of user_regs_default] timer_switch_total [OF pair_table_inv, of 1 wm_new 1 0 user_regs_default 2] by fastforce
  obtain cs' t3 where c2: "timer_preempt_switch False 1 wm_new 0 2 user_regs_default xstate_zero 0 (pair_table ?saved) = Some (Some cs', t3)" "cs_pid cs' = 1"
    using pair_next(2) [of ?saved] timer_switch_total [OF pair_table_inv, of 1 wm_new 2 0 ?saved 1] by fastforce
  have live: "p_pid (proc_at (pair_table user_regs_default) 1) = 1" "p_state (proc_at (pair_table user_regs_default) 1) = Running"
    by (simp_all add: pair_at witness_proc_def)
  have t1: "proc_at t1 1 = (preempted ?saved 0 (proc_at (pair_table user_regs_default) 1))\<lparr>p_xstate := xstate_zero\<rparr>"
    by (rule timer_switch_spec(8) [OF pair_table_inv c1 live])
  have same: "p_regs (proc_at (pair_table ?saved) 1) = p_regs (proc_at t1 1)"
    "p_xstate (proc_at (pair_table ?saved) 1) = p_xstate (proc_at t1 1)"
    "p_fs_base (proc_at (pair_table ?saved) 1) = p_fs_base (proc_at t1 1)"
    by (simp_all add: t1 pair_at preempted_def) (simp_all add: witness_proc_def process_empty_def)
  show ?thesis
    using preempt_resume_roundtrip [OF pair_table_inv live c1 pair_table_inv same c2] c1 c2 by auto
qed

section \<open>Input reaches the CPU\<close>

text \<open>The wake-ups an event asks for, one after the other, with the table lock free.\<close>

definition run_wakes :: "u32 list \<Rightarrow> u32 list \<times> ptable \<Rightarrow> u32 list \<times> ptable" where
  "run_wakes ks s = fold (\<lambda>pid s. snd (wake_process True pid s)) ks s"

lemma wake_process_slots:
  assumes len: "length wakes = 8" "length t = MAX_PROCS" and call: "wake_process True pid (wakes, t) = (bc, wakes', t')"
  shows "length wakes' = 8" "length t' = MAX_PROCS"
    "\<And>i. i < MAX_PROCS \<Longrightarrow> t' ! i = (if i = idx_of pid \<or> pending_bit wakes i then woken (t ! i) else t ! i)"
proof -
  define w where "w = wakes[idx_of pid div 32 := wakes ! (idx_of pid div 32) OR push_bit (idx_of pid mod 32) 1]"
  have word: "idx_of pid div 32 < 8" by (simp add: less_mult_imp_div_less)
  then have call': "handle_pending_wakes_try True (w, t) = (bc, wakes', t')" and lw: "length w = 8"
    using call len by (simp_all add: wake_process_def w_def Let_def del: push_bit_of_1)
  have w: "pending_bit w i = (i = idx_of pid \<or> pending_bit wakes i)" if "i < MAX_PROCS" for i
    unfolding w_def by (rule pending_bit_set [OF len(1) idx_of_less(1) that])
  note h = handle_wakes_locked [OF lw len(2) call']
  show "length wakes' = 8" "length t' = MAX_PROCS" by (rule h)+
  show "t' ! i = (if i = idx_of pid \<or> pending_bit wakes i then woken (t ! i) else t ! i)" if "i < MAX_PROCS" for i
    using h(4) [OF that] w [OF that] by simp
qed

lemma run_wakes_slots:
  assumes "length wakes = 8" "length t = MAX_PROCS" "run_wakes ks (wakes, t) = (wakes', t')"
  shows "length t' = MAX_PROCS \<and> (\<exists>P. \<forall>i < MAX_PROCS. t' ! i = (if P i then woken (t ! i) else t ! i)) \<and>
    (\<forall>k \<in> set ks. t' ! idx_of k = woken (t ! idx_of k))"
  using assms
proof (induction ks arbitrary: wakes t)
  case Nil
  then show ?case by (auto simp: run_wakes_def intro: exI [of _ "\<lambda>i. False"])
next
  case (Cons k ks)
  obtain bc w1 t1 where c: "wake_process True k (wakes, t) = (bc, w1, t1)" by (metis prod_cases3)
  note s = wake_process_slots [OF Cons.prems(1,2) c]
  have "run_wakes ks (w1, t1) = (wakes', t')" using Cons.prems(3) c by (simp add: run_wakes_def)
  from Cons.IH [OF s(1,2) this] obtain P where P: "length t' = MAX_PROCS"
    "\<forall>i < MAX_PROCS. t' ! i = (if P i then woken (t1 ! i) else t1 ! i)" "\<forall>k \<in> set ks. t' ! idx_of k = woken (t1 ! idx_of k)" by blast
  have "t' ! i = (if P i \<or> i = idx_of k \<or> pending_bit wakes i then woken (t ! i) else t ! i)" if "i < MAX_PROCS" for i
    using P(2) [rule_format, OF that] s(3) [OF that] by (simp split: if_splits)
  moreover have "t' ! idx_of j = woken (t ! idx_of j)" if "j \<in> set (k # ks)" for j
    using that P(2) [rule_format, of "idx_of j"] P(3) s(3) [of "idx_of j"] by (auto split: if_splits)
  ultimately show ?case using P(1) by (intro conjI exI [of _ "\<lambda>i. P i \<or> i = idx_of k \<or> pending_bit wakes i"]) auto
qed

lemma run_wakes_table:
  assumes inv: "table_inv n t" and w: "length wakes = 8" and run: "run_wakes ks (wakes, t) = (wakes', t')"
  shows "table_inv n t'" "k \<in> set ks \<Longrightarrow> proc_at t' k = woken (proc_at t k)"
proof -
  obtain P where "length t' = MAX_PROCS" "\<And>i. i < MAX_PROCS \<Longrightarrow> t' ! i = (if P i then woken (t ! i) else t ! i)"
    using run_wakes_slots [OF w table_inv_length [OF inv] run] by auto
  then show "table_inv n t'" by (rule table_inv_woken [OF inv])
  show "proc_at t' k = woken (proc_at t k)" if "k \<in> set ks"
    using run_wakes_slots [OF w table_inv_length [OF inv] run] that by (simp add: proc_at_def)
qed

lemma next_runnable_input:
  assumes inv: "table_inv n t" and f: "wm_focus w = f" "f \<noteq> 0" "f \<noteq> current" "\<not> is_thread f t"
    and pend: "0 < queue_input_pending_for f (wm_q w)" and take: "takeable (1 < cpu_count) my_cpu f t"
  shows "next_runnable_pid_locked cpu_count w current my_cpu t = Some (Some f, take_pid my_cpu f t)"
proof -
  have l: "leader_of t f = f" using f(4) by (simp add: leader_of_def)
  have "f = 1" if "\<not> 1 < f"
  proof -
    have "unat f \<noteq> 0" using f(2) by (metis unat_eq_zero)
    moreover have "\<not> 1 < unat f" using that word_less_nat_alt [of 1 f] by simp
    ultimately have "unat f = unat (1 :: u32)" by simp
    then show ?thesis by (rule word_unat_eq_iff [THEN iffD2])
  qed
  then have g: "fg_group t w = Some f" using f(1) l by (auto simp: fg_group_eq [OF inv] focus_leader_def)
  have "wm_input_pending_for t f w = Some (queue_input_pending_for f (wm_q w))"
    by (simp add: wm_input_pending_for_def canonical_eq [OF inv] l)
  then show ?thesis
    using f pend take by (simp add: next_runnable_pid_locked_def g in_group_eq [OF inv] l Let_def)
qed

text \<open>C16.  A click wakes and runs the focused application: when the focused process is alive, blocked or
  running, and neither claimed by another CPU nor at home on another, a pointer report followed by the
  wake-ups it asks for makes the next scheduling decision of this CPU choose that process.\<close>

theorem focused_input_dispatched:
  assumes "table_inv n t" "queue_inv (wm_q w)" "length wakes = 8"
    and "wm_focus w = f" "f \<noteq> 0" "f \<noteq> current" "p_pid (proc_at t f) = f" "\<not> p_is_thread (proc_at t f)"
    and "p_state (proc_at t f) = Blocked \<or> p_state (proc_at t f) = Running"
    and "free_for my_cpu (proc_at t f)" "1 < cpu_count \<longrightarrow> p_home_cpu (proc_at t f) = my_cpu"
  shows "\<exists>ks w' wakes' t'. push_pointer now t bypass hit x y buttons w = Some (ks, w') \<and> run_wakes ks (wakes, t) = (wakes', t') \<and>
     next_runnable_pid_locked cpu_count w' current my_cpu t' = Some (Some f, take_pid my_cpu f t')"
proof -
  have "canonical_pid t (input_target bypass hit w) = Some f"
    using assms(4,5,8) by (simp add: input_target_def canonical_eq [OF assms(1)] leader_of_def is_thread_def)
  from push_pointer_delivers [OF assms(1,2) this assms(5), of now x y buttons] obtain ks w' where
    p: "push_pointer now t bypass hit x y buttons w = Some (ks, w')" "f \<in> set ks" "wm_focus w' = f" "0 < queue_input_pending_for f (wm_q w')"
    using assms(4) by blast
  obtain wakes' t' where r: "run_wakes ks (wakes, t) = (wakes', t')" by fastforce
  note T = run_wakes_table [OF assms(1,3) r]
  have at: "proc_at t' f = woken (proc_at t f)" by (rule T(2) [OF p(2)])
  have "takeable (1 < cpu_count) my_cpu f t'" using assms(5,7,9-11) by (auto simp: takeable_def at woken_def free_for_def)
  moreover have "\<not> is_thread f t'" using assms(8) by (simp add: is_thread_def at)
  ultimately show ?thesis using next_runnable_input [OF T(1) p(3) assms(5,6) _ p(4)] p(1) r by blast
qed

theorem focused_input_dispatched_witness:
  "\<exists>ks w' wakes' t'. push_pointer 0 (kp_table witness_kproc) False None 10 20 1 (wm_new\<lparr>wm_focus := 1\<rparr>) = Some (ks, w') \<and>
     run_wakes ks (replicate 8 0, kp_table witness_kproc) = (wakes', t') \<and>
     next_runnable_pid_locked 1 w' 0 0 t' = Some (Some 1, take_pid 0 1 t')"
proof -
  have inv: "table_inv 2 (kp_table witness_kproc)" using witness_inv by (simp add: proc_inv_def witness_kproc_def)
  have w: "queue_inv (wm_q (wm_new\<lparr>wm_focus := 1\<rparr>))" "wm_focus (wm_new\<lparr>wm_focus := 1\<rparr>) = 1" by (simp_all add: wm_new_def queue_new_inv)
  have p: "p_pid witness_proc = 1" "\<not> p_is_thread witness_proc" "p_state witness_proc = Blocked \<or> p_state witness_proc = Running"
    "free_for 0 witness_proc" by (simp_all add: witness_proc_def process_empty_def free_for_def)
  show ?thesis
    by (rule focused_input_dispatched [OF inv w(1) _ w(2), unfolded witness_at]) (use p in simp_all)
qed

end
