(* ===== verification/Ptable_Lock.thy ===== *)
theory Ptable_Lock
  imports Proc_Table
begin

text \<open>
  The recursive lock around the process table and the per-CPU preemption counter
  (\<^verbatim>\<open>kernel/src/process/mod.rs\<close>, \<open>PTableLock\<close>, \<open>PTableGuard\<close>, \<open>preempt_disable\<close>).  The operations
  are given twice: as functions, and as the single accesses to shared memory they consist of, so
  that several CPUs may interleave between any two of them.  Guards of one CPU are dropped in the
  reverse order of their creation, as scoping in the source has it.
\<close>

section \<open>The lock and its operations\<close>

text \<open>The spin lock inside, the CPU that holds it, the nesting depth per CPU, whether the guard of the
spin lock is stored, and the preemption depth per CPU.\<close>

record plock =
  pl_inner :: bool
  pl_holder :: u32
  pl_rec :: "u32 list"
  pl_guard :: bool
  pl_depth :: "u32 list"

definition NO_HOLDER :: u32 where [kernel_defs]: "NO_HOLDER = 0xFFFFFFFF"

definition plock_new :: plock where
  "plock_new = \<lparr> pl_inner = False, pl_holder = NO_HOLDER, pl_rec = replicate 64 0, pl_guard = False,
     pl_depth = replicate MAX_CPUS 0 \<rparr>"

definition ptable_cpu_idx :: "u32 \<Rightarrow> u32" where
  "ptable_cpu_idx cpu = (if unat cpu < MAX_CPUS then cpu else 0)"

definition preempt_disable_cpu :: "u32 \<Rightarrow> plock \<Rightarrow> plock" where
  "preempt_disable_cpu cpu s =
     (if unat cpu < MAX_CPUS then s\<lparr>pl_depth := (pl_depth s)[unat cpu := pl_depth s ! unat cpu + 1]\<rparr> else s)"

definition preempt_enable_cpu :: "u32 \<Rightarrow> plock \<Rightarrow> plock" where
  "preempt_enable_cpu cpu s =
     (if unat cpu < MAX_CPUS \<and> 0 < pl_depth s ! unat cpu
      then s\<lparr>pl_depth := (pl_depth s)[unat cpu := pl_depth s ! unat cpu - 1]\<rparr> else s)"

definition preempt_disabled :: "u32 \<Rightarrow> plock \<Rightarrow> bool" where
  "preempt_disabled cpu s \<longleftrightarrow>
     unat (ptable_cpu_idx cpu) < MAX_CPUS \<and> 0 < pl_depth s ! unat (ptable_cpu_idx cpu)"

definition preempt_disable :: "u32 \<Rightarrow> plock \<Rightarrow> u32 \<times> plock" where
  "preempt_disable cpu s = (ptable_cpu_idx cpu, preempt_disable_cpu (ptable_cpu_idx cpu) s)"

definition preempt_enable :: "u32 \<Rightarrow> plock \<Rightarrow> plock" where
  "preempt_enable = preempt_enable_cpu"

text \<open>The accesses: storing a guard drops the one stored before, which unlocks the spin lock.\<close>

definition set_holder :: "u32 \<Rightarrow> plock \<Rightarrow> plock" where
  "set_holder h s = s\<lparr>pl_holder := h\<rparr>"

definition set_rec :: "u32 \<Rightarrow> u32 \<Rightarrow> plock \<Rightarrow> plock" where
  "set_rec cpu n s = s\<lparr>pl_rec := (pl_rec s)[unat cpu := n]\<rparr>"

definition store_guard :: "plock \<Rightarrow> plock" where
  "store_guard s = (if pl_guard s then s\<lparr>pl_inner := False\<rparr> else s\<lparr>pl_guard := True\<rparr>)"

definition drop_guard :: "plock \<Rightarrow> plock" where
  "drop_guard s = (if pl_guard s then s\<lparr>pl_guard := False, pl_inner := False\<rparr> else s)"

definition nest :: "u32 \<Rightarrow> plock \<Rightarrow> plock" where
  "nest cpu s = set_rec cpu (pl_rec s ! unat cpu + 1) s"

definition unnest :: "u32 \<Rightarrow> plock \<Rightarrow> plock" where
  "unnest cpu s = (if 0 < pl_rec s ! unat cpu then set_rec cpu (pl_rec s ! unat cpu - 1) s else s)"

definition acquired :: "u32 \<Rightarrow> plock \<Rightarrow> plock" where
  "acquired cpu s = preempt_disable_cpu cpu (store_guard (set_rec cpu 1 (set_holder cpu (s\<lparr>pl_inner := True\<rparr>))))"

text \<open>\<open>ptl_lock\<close> is \<^const>\<open>None\<close> while the spin lock is taken; the boolean is \<open>is_outer\<close> of the guard.\<close>

definition ptl_lock :: "u32 \<Rightarrow> plock \<Rightarrow> (bool \<times> plock) option" where
  "ptl_lock cpu s =
     (let my_cpu = ptable_cpu_idx cpu in
      if pl_holder s = my_cpu then Some (False, nest my_cpu s)
      else if pl_inner s then None
      else Some (True, acquired my_cpu s))"

definition ptl_try_lock :: "u32 \<Rightarrow> plock \<Rightarrow> bool option \<times> plock" where
  "ptl_try_lock cpu s =
     (let my_cpu = ptable_cpu_idx cpu in
      if pl_holder s = my_cpu then (Some False, nest my_cpu s)
      else if pl_inner s then (None, s)
      else (Some True, acquired my_cpu s))"

definition ptl_drop :: "u32 \<Rightarrow> bool \<Rightarrow> plock \<Rightarrow> plock" where
  "ptl_drop cpu is_outer s =
     (let my_cpu = ptable_cpu_idx cpu in
      if is_outer then preempt_enable_cpu my_cpu (drop_guard (set_holder NO_HOLDER (set_rec my_cpu 0 s)))
      else unnest my_cpu s)"

section \<open>Interleaved CPUs\<close>

text \<open>Where a CPU is between two accesses.  \<open>Inside d\<close> holds the lock with \<open>d\<close> nested guards; \<open>Stray\<close> would be
a nested guard without an outer one.\<close>

datatype lock_phase = Out | Spin | Inner | Owned | Counted | Inside nat | Zeroed | Cleared | Dropped | Stray

type_synonym lock_conf = "plock \<times> (u32 \<Rightarrow> lock_phase)"

inductive ptl_step :: "lock_conf \<Rightarrow> lock_conf \<Rightarrow> bool" where
  check: "unat c < MAX_CPUS \<Longrightarrow> ph c = Out \<Longrightarrow> pl_holder s \<noteq> c \<Longrightarrow> ptl_step (s, ph) (s, ph(c := Spin))"
| stray: "unat c < MAX_CPUS \<Longrightarrow> ph c = Out \<Longrightarrow> pl_holder s = c \<Longrightarrow> ptl_step (s, ph) (nest c s, ph(c := Stray))"
| give_up: "ph c = Spin \<Longrightarrow> pl_inner s \<Longrightarrow> ptl_step (s, ph) (s, ph(c := Out))"
| spin: "ph c = Spin \<Longrightarrow> \<not> pl_inner s \<Longrightarrow> ptl_step (s, ph) (s\<lparr>pl_inner := True\<rparr>, ph(c := Inner))"
| own: "ph c = Inner \<Longrightarrow> ptl_step (s, ph) (set_holder c s, ph(c := Owned))"
| count: "ph c = Owned \<Longrightarrow> ptl_step (s, ph) (store_guard (set_rec c 1 s), ph(c := Counted))"
| enter: "ph c = Counted \<Longrightarrow> ptl_step (s, ph) (preempt_disable_cpu c s, ph(c := Inside 0))"
| nested: "ph c = Inside d \<Longrightarrow> pl_holder s = c \<Longrightarrow> ptl_step (s, ph) (nest c s, ph(c := Inside (Suc d)))"
| relock: "ph c = Inside d \<Longrightarrow> pl_holder s \<noteq> c \<Longrightarrow> ptl_step (s, ph) (s, ph(c := Spin))"
| unnested: "ph c = Inside (Suc d) \<Longrightarrow> ptl_step (s, ph) (unnest c s, ph(c := Inside d))"
| leave: "ph c = Inside 0 \<Longrightarrow> ptl_step (s, ph) (set_rec c 0 s, ph(c := Zeroed))"
| clear: "ph c = Zeroed \<Longrightarrow> ptl_step (s, ph) (set_holder NO_HOLDER s, ph(c := Cleared))"
| release: "ph c = Cleared \<Longrightarrow> ptl_step (s, ph) (drop_guard s, ph(c := Dropped))"
| enable: "ph c = Dropped \<Longrightarrow> ptl_step (s, ph) (preempt_enable_cpu c s, ph(c := Out))"

definition lock_start :: lock_conf where
  "lock_start = (plock_new, \<lambda>c. Out)"

text \<open>A CPU has the spin lock, is recorded as holder, has stored the guard, has preemption disabled.\<close>

primrec has_inner :: "lock_phase \<Rightarrow> bool" where
  "has_inner Out = False" | "has_inner Spin = False" | "has_inner Inner = True" | "has_inner Owned = True"
| "has_inner Counted = True" | "has_inner (Inside d) = True" | "has_inner Zeroed = True" | "has_inner Cleared = True"
| "has_inner Dropped = False" | "has_inner Stray = True"

primrec is_holder :: "lock_phase \<Rightarrow> bool" where
  "is_holder Out = False" | "is_holder Spin = False" | "is_holder Inner = False" | "is_holder Owned = True"
| "is_holder Counted = True" | "is_holder (Inside d) = True" | "is_holder Zeroed = True" | "is_holder Cleared = False"
| "is_holder Dropped = False" | "is_holder Stray = False"

primrec has_guard :: "lock_phase \<Rightarrow> bool" where
  "has_guard Out = False" | "has_guard Spin = False" | "has_guard Inner = False" | "has_guard Owned = False"
| "has_guard Counted = True" | "has_guard (Inside d) = True" | "has_guard Zeroed = True" | "has_guard Cleared = True"
| "has_guard Dropped = False" | "has_guard Stray = False"

primrec no_preempt :: "lock_phase \<Rightarrow> bool" where
  "no_preempt Out = False" | "no_preempt Spin = False" | "no_preempt Inner = False" | "no_preempt Owned = False"
| "no_preempt Counted = False" | "no_preempt (Inside d) = True" | "no_preempt Zeroed = True" | "no_preempt Cleared = True"
| "no_preempt Dropped = True" | "no_preempt Stray = False"

definition counted :: "lock_phase \<Rightarrow> bool" where
  "counted p \<longleftrightarrow> p = Counted \<or> (\<exists>d. p = Inside d)"

text \<open>The invariant, for the CPU \<open>w\<close> that has the spin lock, if any.\<close>

definition lock_inv :: "u32 option \<Rightarrow> plock \<Rightarrow> (u32 \<Rightarrow> lock_phase) \<Rightarrow> bool" where
  "lock_inv w s ph \<longleftrightarrow>
     length (pl_rec s) = 64 \<and> length (pl_depth s) = 64 \<and>
     (\<forall>c. ph c \<noteq> Out \<longrightarrow> unat c < 64) \<and> (\<forall>c. ph c \<noteq> Stray) \<and>
     (\<forall>c. has_inner (ph c) = (w = Some c)) \<and> pl_inner s = (w \<noteq> None) \<and>
     pl_holder s = (case w of Some c \<Rightarrow> if is_holder (ph c) then c else NO_HOLDER | None \<Rightarrow> NO_HOLDER) \<and>
     pl_guard s = (case w of Some c \<Rightarrow> has_guard (ph c) | None \<Rightarrow> False) \<and>
     (\<forall>c. unat c < 64 \<longrightarrow> pl_depth s ! unat c = of_bool (no_preempt (ph c))) \<and>
     (\<forall>c. unat c < 64 \<longrightarrow> \<not> counted (ph c) \<longrightarrow> pl_rec s ! unat c = 0)"

lemmas lock_access_defs = set_holder_def set_rec_def store_guard_def drop_guard_def nest_def unnest_def
  preempt_disable_cpu_def preempt_enable_cpu_def MAX_CPUS_def

lemma counted_simps [simp]:
  "\<not> counted Out" "\<not> counted Spin" "\<not> counted Inner" "\<not> counted Owned" "counted Counted" "counted (Inside d)"
  "\<not> counted Zeroed" "\<not> counted Cleared" "\<not> counted Dropped" "\<not> counted Stray"
  by (simp_all add: counted_def)

lemma valid_not_none: "unat (c :: u32) < 64 \<Longrightarrow> c \<noteq> NO_HOLDER"
  by (auto simp: NO_HOLDER_def)

lemma lock_inv_start: "lock_inv None plock_new (\<lambda>c. Out)"
  by (simp add: lock_inv_def plock_new_def MAX_CPUS_def)

lemma unat_eq_iff: "(unat c = unat d) = (c = d)" for c d :: u32
  by (simp add: word_unat_eq_iff)

lemma lock_inv_owner: "lock_inv w s ph \<Longrightarrow> has_inner (ph c) = (w = Some c)"
  by (simp add: lock_inv_def)

lemma lock_inv_step:
  assumes "ptl_step x y" "lock_inv w (fst x) (snd x)"
  shows "\<exists>w'. lock_inv w' (fst y) (snd y)"
  using assms
proof (induction rule: ptl_step.induct)
  case (check c ph s)
  then have "w \<noteq> Some c" using lock_inv_owner [of w s ph c] by auto
  then have "lock_inv w s (ph(c := Spin))" using check by (auto simp: lock_inv_def MAX_CPUS_def split: option.splits)
  then show ?case unfolding fst_conv snd_conv ..
next
  case (stray c ph s)
  then have "w \<noteq> Some c" using lock_inv_owner [of w s ph c] by auto
  then have False using stray valid_not_none [of c] by (auto simp: lock_inv_def MAX_CPUS_def split: option.splits if_splits)
  then show ?case ..
next
  case (give_up ph c s)
  then have "w \<noteq> Some c" using lock_inv_owner [of w s ph c] by auto
  then have "lock_inv w s (ph(c := Out))" using give_up by (auto simp: lock_inv_def split: option.splits)
  then show ?case unfolding fst_conv snd_conv ..
next
  case (spin ph c s)
  then have "lock_inv (Some c) (s\<lparr>pl_inner := True\<rparr>) (ph(c := Inner))" by (auto simp: lock_inv_def)
  then show ?case unfolding fst_conv snd_conv ..
next
  case (own ph c s)
  then have w: "w = Some c" using lock_inv_owner [of w s ph c] by auto
  have "lock_inv (Some c) (set_holder c s) (ph(c := Owned))"
    using own unfolding w by (auto simp: lock_inv_def lock_access_defs)
  then show ?case unfolding fst_conv snd_conv ..
next
  case (count ph c s)
  then have w: "w = Some c" using lock_inv_owner [of w s ph c] by auto
  have "lock_inv (Some c) (store_guard (set_rec c 1 s)) (ph(c := Counted))"
    using count unfolding w by (auto simp: lock_inv_def lock_access_defs nth_list_update unat_eq_iff)
  then show ?case unfolding fst_conv snd_conv ..
next
  case (enter ph c s)
  then have w: "w = Some c" using lock_inv_owner [of w s ph c] by auto
  have "lock_inv (Some c) (preempt_disable_cpu c s) (ph(c := Inside 0))"
    using enter unfolding w by (auto simp: lock_inv_def lock_access_defs nth_list_update unat_eq_iff)
  then show ?case unfolding fst_conv snd_conv ..
next
  case (nested ph c d s)
  then have w: "w = Some c" using lock_inv_owner [of w s ph c] by auto
  have "lock_inv (Some c) (nest c s) (ph(c := Inside (Suc d)))"
    using nested unfolding w by (auto simp: lock_inv_def lock_access_defs nth_list_update unat_eq_iff)
  then show ?case unfolding fst_conv snd_conv ..
next
  case (relock ph c d s)
  then have w: "w = Some c" using lock_inv_owner [of w s ph c] by auto
  have False using relock unfolding w by (simp add: lock_inv_def)
  then show ?case ..
next
  case (unnested ph c d s)
  then have w: "w = Some c" using lock_inv_owner [of w s ph c] by auto
  have "lock_inv (Some c) (unnest c s) (ph(c := Inside d))"
    using unnested unfolding w by (auto simp: lock_inv_def lock_access_defs nth_list_update unat_eq_iff)
  then show ?case unfolding fst_conv snd_conv ..
next
  case (leave ph c s)
  then have w: "w = Some c" using lock_inv_owner [of w s ph c] by auto
  have "lock_inv (Some c) (set_rec c 0 s) (ph(c := Zeroed))"
    using leave unfolding w by (auto simp: lock_inv_def lock_access_defs nth_list_update unat_eq_iff)
  then show ?case unfolding fst_conv snd_conv ..
next
  case (clear ph c s)
  then have w: "w = Some c" using lock_inv_owner [of w s ph c] by auto
  have "lock_inv (Some c) (set_holder NO_HOLDER s) (ph(c := Cleared))"
    using clear unfolding w by (auto simp: lock_inv_def lock_access_defs)
  then show ?case unfolding fst_conv snd_conv ..
next
  case (release ph c s)
  then have w: "w = Some c" using lock_inv_owner [of w s ph c] by auto
  have "lock_inv None (drop_guard s) (ph(c := Dropped))"
    using release unfolding w by (auto simp: lock_inv_def lock_access_defs)
  then show ?case unfolding fst_conv snd_conv ..
next
  case (enable ph c s)
  then have "w \<noteq> Some c" using lock_inv_owner [of w s ph c] by auto
  then have "lock_inv w (preempt_enable_cpu c s) (ph(c := Out))"
    using enable by (auto simp: lock_inv_def lock_access_defs nth_list_update unat_eq_iff split: option.splits)
  then show ?case unfolding fst_conv snd_conv ..
qed

lemma lock_reach_inv:
  assumes "ptl_step\<^sup>*\<^sup>* lock_start (s, ph)"
  shows "\<exists>w. lock_inv w s ph"
proof -
  have "\<exists>w. lock_inv w (fst y) (snd y)" if "ptl_step\<^sup>*\<^sup>* lock_start y" for y
    using that
  proof (induction rule: rtranclp_induct)
    case base
    then show ?case using lock_inv_start by (auto simp: lock_start_def)
  qed (use lock_inv_step in blast)
  from this [OF assms] show ?thesis by simp
qed

text \<open>Every slot of an array over the CPUs belongs to a CPU number.\<close>

lemma cpu_slots:
  assumes "length xs = 64" "\<And>c :: u32. unat c < 64 \<Longrightarrow> xs ! unat c = x"
  shows "xs = replicate 64 x"
proof (rule nth_equalityI)
  show "xs ! i = replicate 64 x ! i" if "i < length xs" for i
  proof -
    have "unat (of_nat i :: u32) = i" using that assms(1) by (simp add: unat_of_nat)
    then show ?thesis using assms(2) [of "of_nat i"] that assms(1) by simp
  qed
qed (use assms in simp)


lemma step_trans: "ptl_step x y \<Longrightarrow> ptl_step\<^sup>*\<^sup>* y z \<Longrightarrow> ptl_step\<^sup>*\<^sup>* x z"
  by (rule converse_rtranclp_into_rtranclp)

text \<open>The functions are runs of the accesses, without interference.\<close>

lemma acquire_run:
  assumes "unat c < MAX_CPUS" "ph c = Out" "pl_holder s \<noteq> c" "\<not> pl_inner s"
  shows "ptl_step\<^sup>*\<^sup>* (s, ph) (acquired c s, ph(c := Inside 0))"
proof -
  let ?a = "s\<lparr>pl_inner := True\<rparr>" and ?ph = "\<lambda>p. ph(c := p)"
  have "ptl_step (s, ph) (s, ?ph Spin)" using assms by (intro check) auto
  moreover have "ptl_step (s, ?ph Spin) (?a, ?ph Inner)" using spin [of "?ph Spin" c s] assms by simp
  moreover have "ptl_step (?a, ?ph Inner) (set_holder c ?a, ?ph Owned)" using own [of "?ph Inner" c ?a] by simp
  moreover have "ptl_step (set_holder c ?a, ?ph Owned) (store_guard (set_rec c 1 (set_holder c ?a)), ?ph Counted)"
    using count [of "?ph Owned" c "set_holder c ?a"] by simp
  moreover have "ptl_step (store_guard (set_rec c 1 (set_holder c ?a)), ?ph Counted) (acquired c s, ?ph (Inside 0))"
    using enter [of "?ph Counted" c "store_guard (set_rec c 1 (set_holder c ?a))"] by (simp add: acquired_def)
  ultimately show ?thesis by (meson step_trans rtranclp.rtrancl_refl)
qed

lemma release_run:
  assumes "unat c < MAX_CPUS" "ph c = Inside 0"
  shows "ptl_step\<^sup>*\<^sup>* (s, ph) (ptl_drop c True s, ph(c := Out))"
proof -
  let ?ph = "\<lambda>p. ph(c := p)" and ?z = "set_rec c 0 s"
  let ?h = "set_holder NO_HOLDER ?z"
  have "ptl_step (s, ph) (?z, ?ph Zeroed)" using leave [of ph c s] assms by simp
  moreover have "ptl_step (?z, ?ph Zeroed) (?h, ?ph Cleared)" using clear [of "?ph Zeroed" c ?z] by simp
  moreover have "ptl_step (?h, ?ph Cleared) (drop_guard ?h, ?ph Dropped)" using release [of "?ph Cleared" c ?h] by simp
  moreover have "ptl_step (drop_guard ?h, ?ph Dropped) (ptl_drop c True s, ?ph Out)"
    using enable [of "?ph Dropped" c "drop_guard ?h"] assms(1) by (simp add: ptl_drop_def ptable_cpu_idx_def)
  ultimately show ?thesis by (meson step_trans rtranclp.rtrancl_refl)
qed




end
