(* ===== verification/App_Registry.thy ===== *)
theory App_Registry
  imports Keyed_Tables "HOL-Library.Monad_Syntax"
begin

text \<open>
  The registry of installed applications (\<^verbatim>\<open>kernel/src/app_registry/mod.rs\<close>): the bundle header,
  the table of at most 64 applications, installation with a fixed, a searched or the next id,
  removal, and the listings handed to user space.  The tables of crash recovery are in
  \<open>App_Recovery\<close>; writing bundles to disk is in \<open>App_Store\<close>.
\<close>

section \<open>Bundles\<close>

definition OSX_MAGIC :: bytes where [kernel_defs]: "OSX_MAGIC = [0x4F, 0x53, 0x43, 0x50]"
definition HEADER_SIZE :: nat where [kernel_defs]: "HEADER_SIZE = 112"

record bundle_header =
  bh_name :: bytes
  bh_version :: bytes
  bh_entry_offset :: u64
  bh_stack_size :: u64
  bh_aot_len :: u32

definition parse_header :: "bytes \<Rightarrow> bundle_header option" where
  "parse_header bundle =
     (if length bundle < HEADER_SIZE then None
      else if slice 0 4 bundle \<noteq> OSX_MAGIC then None
      else if (from_le (slice 4 8 bundle) :: u32) \<noteq> 1 then None
      else
        let hdr = \<lparr> bh_name = slice 8 72 bundle, bh_version = slice 72 88 bundle,
                    bh_entry_offset = from_le (slice 88 96 bundle), bh_stack_size = from_le (slice 96 104 bundle),
                    bh_aot_len = from_le (slice 104 108 bundle) \<rparr>
        in if length bundle < HEADER_SIZE + unat (bh_aot_len hdr) then None else Some hdr)"

text \<open>The bytes of a null-padded field up to the first zero.\<close>

definition cstr :: "nat \<Rightarrow> bytes \<Rightarrow> bytes" where
  "cstr n name = take (case position (\<lambda>b. b = 0) name of Some e \<Rightarrow> e | None \<Rightarrow> n) name"

section \<open>The table\<close>

record app_record =
  ar_id :: u32
  ar_name :: bytes
  ar_version :: bytes
  ar_entry_offset :: u64
  ar_stack_size :: u64
  ar_system :: bool
  ar_aot_data :: bytes

definition MAX_APPS :: nat where [kernel_defs]: "MAX_APPS = 64"

record app_table =
  at_slots :: "app_record option list"
  at_next_id :: u32

definition app_table_empty :: app_table where
  "app_table_empty = \<lparr> at_slots = [], at_next_id = 1 \<rparr>"

definition app_find :: "app_table \<Rightarrow> u32 \<Rightarrow> app_record option" where
  "app_find t i = slot_lookup ar_id (at_slots t) i"

definition app_name :: "app_record \<Rightarrow> bytes" where
  "app_name r = cstr 64 (ar_name r)"

definition find_by_name :: "app_table \<Rightarrow> bytes \<Rightarrow> app_record option" where
  "find_by_name t name = slot_lookup app_name (at_slots t) name"

definition app_insert :: "app_record \<Rightarrow> app_table \<Rightarrow> app_table option" where
  "app_insert r t = map_option (\<lambda>ss. t\<lparr>at_slots := ss\<rparr>) (slot_store MAX_APPS r (at_slots t))"

definition next_app_id :: "u32 \<Rightarrow> u32" where
  "next_app_id n = max (n + 1) 1"

text \<open>The search for a free id; \<^const>\<open>None\<close> is a search that does not end.\<close>

partial_function (option) allocate_id :: "app_table \<Rightarrow> (u32 \<times> app_table) option" where
  "allocate_id t =
     (let i = at_next_id t; t' = t\<lparr>at_next_id := next_app_id i\<rparr> in
      if app_find t' i = None then Some (i, t') else allocate_id t')"

definition app_remove :: "u32 \<Rightarrow> app_table \<Rightarrow> app_table option" where
  "app_remove i t = map_option (\<lambda>ss. t\<lparr>at_slots := ss\<rparr>) (slot_remove ar_id i (at_slots t))"

section \<open>Installation\<close>

definition app_record_of :: "u32 \<Rightarrow> bool \<Rightarrow> bytes \<Rightarrow> bundle_header \<Rightarrow> app_record" where
  "app_record_of i system bundle hdr =
     \<lparr> ar_id = i, ar_name = bh_name hdr, ar_version = bh_version hdr, ar_entry_offset = bh_entry_offset hdr,
       ar_stack_size = (if bh_stack_size hdr = 0 then 512 * 1024 else bh_stack_size hdr), ar_system = system,
       ar_aot_data = slice HEADER_SIZE (HEADER_SIZE + unat (bh_aot_len hdr)) bundle \<rparr>"

definition install_record :: "bytes \<Rightarrow> u32 \<Rightarrow> bool \<Rightarrow> app_table \<Rightarrow> u32 option \<times> app_table" where
  "install_record bundle i system t =
     (case parse_header bundle of
        None \<Rightarrow> (None, t)
      | Some hdr \<Rightarrow>
          if app_find t i \<noteq> None \<or> find_by_name t (cstr 64 (bh_name hdr)) \<noteq> None then (None, t)
          else
            (case app_insert (app_record_of i system bundle hdr) t of
               None \<Rightarrow> (None, t)
             | Some t' \<Rightarrow>
                 (Some i, if at_next_id t' \<le> i then t'\<lparr>at_next_id := max (sat_add i 1) 1\<rparr> else t')))"

definition install_record_auto_id :: "bytes \<Rightarrow> bool \<Rightarrow> app_table \<Rightarrow> (u32 option \<times> app_table) option" where
  "install_record_auto_id bundle system t =
     (case parse_header bundle of
        None \<Rightarrow> Some (None, t)
      | Some hdr \<Rightarrow>
          if find_by_name t (cstr 64 (bh_name hdr)) \<noteq> None then Some (None, t)
          else do {
            (i, t1) \<leftarrow> allocate_id t;
            Some (case app_insert (app_record_of i system bundle hdr) t1 of
                    None \<Rightarrow> (None, t1)
                  | Some t2 \<Rightarrow> (Some i, t2)) })"

definition install_from_store :: "bytes \<Rightarrow> u32 \<Rightarrow> app_table \<Rightarrow> u32 option \<times> app_table" where
  "install_from_store bundle i = install_record bundle i False"

text \<open>System applications come from the file system, whose lookup is the parameter \<open>fs\<close>.\<close>

definition install_system_from_path :: "(string \<Rightarrow> bytes option) \<Rightarrow> string \<Rightarrow> u32 \<Rightarrow> app_table \<Rightarrow> u32 option \<times> app_table" where
  "install_system_from_path fs path i t =
     (case fs path of None \<Rightarrow> (None, t) | Some bundle \<Rightarrow> install_record bundle i True t)"

definition install_system_from_path_auto ::
    "(string \<Rightarrow> bytes option) \<Rightarrow> string \<Rightarrow> app_table \<Rightarrow> (u32 option \<times> app_table) option" where
  "install_system_from_path_auto fs path t =
     (case fs path of None \<Rightarrow> Some (None, t) | Some bundle \<Rightarrow> install_record_auto_id bundle True t)"

definition SYSTEM_APPS :: "(string \<times> u32) list" where
  "SYSTEM_APPS = [(''/Applications/Canvas.app/Canvas.osx'', 1), (''/Applications/Files.app/Files.osx'', 2),
     (''/Applications/Web Link.app/Web Link.osx'', 3)]"

text \<open>The bundles found under \<^verbatim>\<open>/Applications\<close> are given by the listing of the file system.\<close>

definition discover_applications_dir ::
    "(string \<Rightarrow> bytes option) \<Rightarrow> string list \<Rightarrow> app_table \<Rightarrow> app_table option" where
  "discover_applications_dir fs listing t =
     fold (\<lambda>rel acc. do {
        t \<leftarrow> acc;
        if drop (length rel - 4) rel = ''.osx'' then
          do { (i, t') \<leftarrow> install_system_from_path_auto fs (''/Applications/'' @ rel) t; Some t' }
        else Some t }) listing (Some t)"

definition install_system_apps ::
    "(string \<Rightarrow> bytes option) \<Rightarrow> string list \<Rightarrow> app_table \<Rightarrow> app_table option" where
  "install_system_apps fs listing t =
     discover_applications_dir fs listing (fold (\<lambda>(path, i) t. snd (install_system_from_path fs path i t)) SYSTEM_APPS t)"

text \<open>The table part of \<^verbatim>\<open>install\<close>: the next id is taken without looking for it in the table.\<close>

definition install_in_table :: "bytes \<Rightarrow> app_table \<Rightarrow> u32 option \<times> app_table" where
  "install_in_table bundle t =
     (case parse_header bundle of
        None \<Rightarrow> (None, t)
      | Some hdr \<Rightarrow>
          if find_by_name t (cstr 64 (bh_name hdr)) \<noteq> None then (None, t)
          else
            let i = at_next_id t; t1 = t\<lparr>at_next_id := next_app_id i\<rparr> in
            (case app_insert (app_record_of i False bundle hdr) t1 of
               None \<Rightarrow> (None, t1)
             | Some t2 \<Rightarrow> (Some i, t2)))"

definition uninstall_in_table :: "u32 \<Rightarrow> app_table \<Rightarrow> bool \<times> app_table" where
  "uninstall_in_table app_id t =
     (if (case app_find t app_id of None \<Rightarrow> False | Some r \<Rightarrow> ar_system r) then (False, t)
      else case app_remove app_id t of None \<Rightarrow> (False, t) | Some t' \<Rightarrow> (True, t'))"

section \<open>Listings\<close>

definition RECORD_SZ :: nat where [kernel_defs]: "RECORD_SZ = 88"

definition list_entry :: "app_record \<Rightarrow> bytes" where
  "list_entry r = u32_to_le (ar_id r) @ ar_name r @ ar_version r @ u32_to_le (if ar_system r then 1 else 0)"

fun list_into :: "app_record list \<Rightarrow> nat \<Rightarrow> bytes \<Rightarrow> bytes" where
  "list_into [] offset buf = buf"
| "list_into (r # rs) offset buf =
     (if offset + RECORD_SZ \<le> length buf then list_into rs (offset + RECORD_SZ) (write_at offset (list_entry r) buf)
      else list_into rs offset buf)"

definition app_list :: "app_table \<Rightarrow> bytes \<Rightarrow> u32 \<times> bytes" where
  "app_list t buf = (of_nat (length (flatten (at_slots t))), list_into (flatten (at_slots t)) 0 buf)"

definition app_count :: "app_table \<Rightarrow> u32" where
  "app_count t = of_nat (length (flatten (at_slots t)))"

definition get_info :: "app_table \<Rightarrow> u32 \<Rightarrow> bytes option" where
  "get_info t app_id =
     map_option (\<lambda>r. u32_to_le (ar_id r) @ ar_name r @ ar_version r @ u32_to_le (of_nat (length (ar_aot_data r)))) (app_find t app_id)"

section \<open>The search for an id ends\<close>

definition reg_inv :: "app_table \<Rightarrow> bool" where
  "reg_inv t \<longleftrightarrow> slot_inv MAX_APPS app_name (at_slots t) \<and> at_next_id t \<noteq> 0"

lemma reg_inv_empty: "reg_inv app_table_empty"
  by (simp add: reg_inv_def app_table_empty_def slot_inv_def)

lemma u32_bound: "unat (n :: u32) < 2 ^ 32"
  using unsigned_less [of n] by simp

lemma next_app_id_unat:
  "unat (next_app_id n) = (if unat n = 2 ^ 32 - 1 then 1 else unat n + 1)"
proof -
  have u: "unat (n + 1) = (unat n + 1) mod 2 ^ 32" by (simp add: unat_word_ariths)
  show ?thesis
  proof (cases "unat n = 2 ^ 32 - 1")
    case True
    then have "unat (n + 1) = 0" using u by simp
    then have "n + 1 = 0" by (simp only: unat_eq_zero)
    then show ?thesis using True by (simp add: next_app_id_def)
  next
    case False
    then have "unat n + 1 < 2 ^ 32" using u32_bound [of n] by simp
    then have u': "unat (n + 1) = unat n + 1" using u by simp
    then have "1 \<le> n + 1" unfolding word_le_nat_alt u' by simp
    then have "next_app_id n = n + 1" unfolding next_app_id_def by (rule max_absorb1)
    then show ?thesis using u' False by simp
  qed
qed

lemma next_app_id_nonzero [simp]: "next_app_id n \<noteq> 0"
proof -
  have "unat (next_app_id n) \<noteq> 0" by (simp add: next_app_id_unat)
  then show ?thesis by (metis unat_0)
qed

lemma next_app_id_iter:
  assumes p: "p = (2 :: nat) ^ 32"
  shows "k < 100 \<Longrightarrow> unat ((next_app_id ^^ k) n) = (if unat n + k < p then unat n + k else unat n + k - (p - 1))"
proof (induction k)
  case 0
  then show ?case using u32_bound [of n] unfolding p by simp
next
  case (Suc k)
  have big: "1000 < p" by (simp add: p)
  have n: "unat n < p" using u32_bound [of n] unfolding p .
  have step: "unat ((next_app_id ^^ Suc k) n) = (if unat ((next_app_id ^^ k) n) = p - 1 then 1 else unat ((next_app_id ^^ k) n) + 1)"
    using next_app_id_unat [of "(next_app_id ^^ k) n"] unfolding p [symmetric] by simp
  have IH: "unat ((next_app_id ^^ k) n) = (if unat n + k < p then unat n + k else unat n + k - (p - 1))"
    using Suc by simp
  consider "unat n + Suc k < p" | "unat n + Suc k = p" | "p < unat n + Suc k" by linarith
  then show ?case unfolding step IH using n big Suc.prems by cases auto
qed

lemma next_app_id_distinct:
  assumes "j < 100" "k < 100" "(next_app_id ^^ j) n = (next_app_id ^^ k) n"
  shows "j = k"
proof -
  obtain p where p: "p = (2 :: nat) ^ 32" by simp
  have big: "1000 < p" by (simp add: p)
  have n: "unat n < p" using u32_bound [of n] unfolding p .
  have "(if unat n + j < p then unat n + j else unat n + j - (p - 1)) = (if unat n + k < p then unat n + k else unat n + k - (p - 1))"
    using next_app_id_iter [OF p assms(1), of n] next_app_id_iter [OF p assms(2), of n] assms(3) by metis
  then show ?thesis using n big assms(1,2) by (auto split: if_splits)
qed

lemma allocate_id_at:
  assumes "app_find t ((next_app_id ^^ k) (at_next_id t)) = None" "\<forall>j < k. app_find t ((next_app_id ^^ j) (at_next_id t)) \<noteq> None"
  shows "allocate_id t = Some ((next_app_id ^^ k) (at_next_id t), t\<lparr>at_next_id := (next_app_id ^^ Suc k) (at_next_id t)\<rparr>)"
  using assms
proof (induction k arbitrary: t)
  case 0
  then show ?case by (subst allocate_id.simps) (simp add: app_find_def Let_def)
next
  case (Suc k)
  let ?t = "t\<lparr>at_next_id := next_app_id (at_next_id t)\<rparr>"
  have find: "app_find ?t = app_find t" by (simp add: app_find_def fun_eq_iff)
  have step: "(next_app_id ^^ j) (next_app_id n) = (next_app_id ^^ Suc j) n" for j n
    by (simp only: funpow_Suc_right comp_apply)
  have "app_find t ((next_app_id ^^ 0) (at_next_id t)) \<noteq> None" using Suc.prems(2) by blast
  then have "allocate_id t = allocate_id ?t" by (subst allocate_id.simps) (auto simp: find Let_def)
  also have "\<dots> = Some ((next_app_id ^^ k) (next_app_id (at_next_id t)), t\<lparr>at_next_id := (next_app_id ^^ Suc k) (next_app_id (at_next_id t))\<rparr>)"
  proof -
    have nx: "at_next_id ?t = next_app_id (at_next_id t)" by simp
    have "app_find ?t ((next_app_id ^^ k) (at_next_id ?t)) = None" unfolding find nx step by (rule Suc.prems(1))
    moreover have "\<forall>j < k. app_find ?t ((next_app_id ^^ j) (at_next_id ?t)) \<noteq> None"
      unfolding find nx step using Suc.prems(2) by (metis Suc_less_eq)
    ultimately have "allocate_id ?t = Some ((next_app_id ^^ k) (at_next_id ?t), ?t\<lparr>at_next_id := (next_app_id ^^ Suc k) (at_next_id ?t)\<rparr>)"
      by (rule Suc.IH)
    then show ?thesis unfolding nx by (simp del: funpow.simps)
  qed
  finally show ?case unfolding step .
qed

lemma free_id_near:
  assumes "length (flatten (at_slots t)) \<le> MAX_APPS"
  shows "\<exists>k \<le> MAX_APPS. app_find t ((next_app_id ^^ k) n) = None"
proof (rule ccontr)
  assume "\<not> ?thesis"
  then have "(\<lambda>k. (next_app_id ^^ k) n) ` {..MAX_APPS} \<subseteq> ar_id ` set (flatten (at_slots t))"
    by (auto simp: app_find_def slot_lookup_None)
  then have "card ((\<lambda>k. (next_app_id ^^ k) n) ` {..MAX_APPS}) \<le> card (ar_id ` set (flatten (at_slots t)))"
    by (rule card_mono [rotated]) simp
  also have "\<dots> \<le> length (flatten (at_slots t))" by (metis card_length length_map set_map)
  also have "card ((\<lambda>k. (next_app_id ^^ k) n) ` {..MAX_APPS}) = Suc MAX_APPS"
    by (subst card_image) (auto simp: inj_on_def MAX_APPS_def intro: next_app_id_distinct)
  finally show False using assms by simp
qed

lemma allocate_id_total:
  assumes "length (flatten (at_slots t)) \<le> MAX_APPS"
  shows "\<exists>i m. allocate_id t = Some (i, t\<lparr>at_next_id := m\<rparr>) \<and> app_find t i = None \<and> m \<noteq> 0"
proof -
  let ?P = "\<lambda>k. app_find t ((next_app_id ^^ k) (at_next_id t)) = None"
  have ex: "\<exists>k. ?P k" using free_id_near [OF assms] by blast
  let ?k = "LEAST k. ?P k"
  have "?P ?k" using ex by (rule LeastI_ex)
  moreover have "\<forall>j < ?k. \<not> ?P j" using not_less_Least by blast
  ultimately have "allocate_id t = Some ((next_app_id ^^ ?k) (at_next_id t), t\<lparr>at_next_id := (next_app_id ^^ Suc ?k) (at_next_id t)\<rparr>)"
    by (intro allocate_id_at) blast+
  moreover have "(next_app_id ^^ Suc ?k) (at_next_id t) \<noteq> 0" by simp
  ultimately show ?thesis using \<open>?P ?k\<close> by blast
qed

text \<open>C35.  The search for an application id always ends: in a table of at most 64 applications it finds, within
  65 steps from the next id and also across the wrap-around of the counter, an id that no application has.\<close>

theorem allocate_id_returns:
  assumes "length (flatten (at_slots t)) \<le> MAX_APPS"
  shows "\<exists>i m. allocate_id t = Some (i, t\<lparr>at_next_id := m\<rparr>) \<and> app_find t i = None \<and> m \<noteq> 0
    \<and> (\<exists>k \<le> MAX_APPS. app_find t ((next_app_id ^^ k) (at_next_id t)) = None)"
  using allocate_id_total [OF assms] free_id_near [OF assms] by blast

theorem allocate_id_returns_witness:
  "\<exists>i m. allocate_id (app_table_empty\<lparr>at_next_id := 0xFFFFFFFF\<rparr>) = Some (i, app_table_empty\<lparr>at_next_id := m\<rparr>) \<and> m \<noteq> 0"
  using allocate_id_returns [of "app_table_empty\<lparr>at_next_id := 0xFFFFFFFF\<rparr>"] by (auto simp: app_table_empty_def)

section \<open>Sequences of operations\<close>

datatype app_op = OpInstall bytes | OpInstallAt bytes u32 bool | OpInstallAuto bytes bool | OpUninstall u32

primrec app_exec :: "app_op \<Rightarrow> app_table \<Rightarrow> app_table option" where
  "app_exec (OpInstall b) t = Some (snd (install_in_table b t))"
| "app_exec (OpInstallAt b i system) t = Some (snd (install_record b i system t))"
| "app_exec (OpInstallAuto b system) t = map_option snd (install_record_auto_id b system t)"
| "app_exec (OpUninstall i) t = Some (snd (uninstall_in_table i t))"

primrec app_run :: "app_op list \<Rightarrow> app_table \<Rightarrow> app_table option" where
  "app_run [] t = Some t"
| "app_run (x # xs) t = Option.bind (app_exec x t) (app_run xs)"

definition system_apps :: "app_table \<Rightarrow> app_record set" where
  "system_apps t = {r \<in> set (flatten (at_slots t)). ar_system r}"

text \<open>What every operation guarantees: the invariant is kept and no system application is lost.\<close>

definition app_step_ok :: "app_table \<Rightarrow> app_table \<Rightarrow> bool" where
  "app_step_ok t t' \<longleftrightarrow> reg_inv t' \<and> system_apps t \<subseteq> system_apps t'"

lemma app_step_ok_refl: "reg_inv t \<Longrightarrow> app_step_ok t t"
  by (simp add: app_step_ok_def)

lemma app_step_ok_next_id: "reg_inv t \<Longrightarrow> m \<noteq> 0 \<Longrightarrow> app_step_ok t (t\<lparr>at_next_id := m\<rparr>)"
  by (simp add: app_step_ok_def reg_inv_def system_apps_def)

lemma app_step_ok_trans: "app_step_ok t t' \<Longrightarrow> app_step_ok t' t'' \<Longrightarrow> app_step_ok t t''"
  by (auto simp: app_step_ok_def)

lemma slot_store_set: "slot_store lim r ss = Some ss' \<Longrightarrow> set (flatten ss') = insert r (set (flatten ss))"
  by (auto simp: slot_store_def dest: fill_first_none_set split: if_splits option.splits)

lemma app_insert_ok:
  assumes "reg_inv t" "find_by_name t (app_name r) = None" "app_insert r t = Some t'"
  shows "app_step_ok t t'"
  using assms slots.invar_store [of MAX_APPS app_name "at_slots t" r]
  by (auto simp: app_step_ok_def reg_inv_def app_insert_def find_by_name_def system_apps_def dest: slot_store_set)

lemma app_name_record [simp]: "app_name (app_record_of i system b hdr) = cstr 64 (bh_name hdr)"
  by (simp add: app_name_def app_record_of_def)

lemma clear_first_lost:
  "clear_first P ss = Some ss' \<Longrightarrow> \<exists>a. List.find P (flatten ss) = Some a \<and> set (flatten ss) \<subseteq> insert a (set (flatten ss'))"
  by (induction ss arbitrary: ss') (auto split: if_splits option.splits)

lemma install_in_table_ok: "reg_inv t \<Longrightarrow> app_step_ok t (snd (install_in_table b t))"
proof -
  assume inv: "reg_inv t"
  let ?t = "t\<lparr>at_next_id := next_app_id (at_next_id t)\<rparr>"
  have ok: "app_step_ok t ?t" using inv by (rule app_step_ok_next_id) simp
  have "app_step_ok t t'" if "app_insert r ?t = Some t'" "find_by_name t (app_name r) = None" for r t'
  proof (rule app_step_ok_trans [OF ok])
    show "app_step_ok ?t t'" using ok that by (intro app_insert_ok) (auto simp: app_step_ok_def find_by_name_def)
  qed
  then show ?thesis using inv ok
    by (auto simp: install_in_table_def Let_def app_step_ok_refl split: option.splits)
qed

lemma install_record_ok: "reg_inv t \<Longrightarrow> app_step_ok t (snd (install_record b i system t))"
proof -
  assume inv: "reg_inv t"
  have "app_step_ok t (if at_next_id t' \<le> i then t'\<lparr>at_next_id := max (sat_add i 1) 1\<rparr> else t')"
    if "app_insert r t = Some t'" "find_by_name t (app_name r) = None" for r t'
  proof -
    have ok: "app_step_ok t t'" using inv that by (intro app_insert_ok)
    have "max (sat_add i 1) (1 :: u32) \<noteq> 0" by (metis max.cobounded2 not_one_le_zero word_le_0_iff zero_neq_one)
    then show ?thesis using ok app_step_ok_trans [OF ok app_step_ok_next_id] by (auto simp: app_step_ok_def)
  qed
  then show ?thesis using inv
    by (auto simp: install_record_def app_step_ok_refl split: option.splits)
qed

lemma install_record_auto_id_ok:
  assumes inv: "reg_inv t"
  shows "\<exists>r t'. install_record_auto_id b system t = Some (r, t') \<and> app_step_ok t t'"
proof -
  obtain i m where a: "allocate_id t = Some (i, t\<lparr>at_next_id := m\<rparr>)" "m \<noteq> 0"
    using allocate_id_total [of t] inv by (auto simp: reg_inv_def slot_inv_def)
  let ?t = "t\<lparr>at_next_id := m\<rparr>"
  have ok: "app_step_ok t ?t" using inv a(2) by (rule app_step_ok_next_id)
  have "app_step_ok t t'" if "app_insert r ?t = Some t'" "find_by_name t (app_name r) = None" for r t'
  proof (rule app_step_ok_trans [OF ok])
    show "app_step_ok ?t t'" using ok that by (intro app_insert_ok) (auto simp: app_step_ok_def find_by_name_def)
  qed
  then show ?thesis using inv ok
    by (auto simp: install_record_auto_id_def a(1) app_step_ok_refl split: option.splits)
qed

lemma uninstall_in_table_ok: "reg_inv t \<Longrightarrow> app_step_ok t (snd (uninstall_in_table i t))"
proof -
  assume inv: "reg_inv t"
  have "app_step_ok t t'" if rem: "app_remove i t = Some t'" and user: "\<forall>r. app_find t i = Some r \<longrightarrow> \<not> ar_system r" for t'
  proof -
    obtain ss where ss: "slot_remove ar_id i (at_slots t) = Some ss" "t' = t\<lparr>at_slots := ss\<rparr>"
      using rem by (auto simp: app_remove_def)
    then have c: "clear_first (\<lambda>r. ar_id r = i) (at_slots t) = Some ss" by (simp add: slot_remove_def)
    obtain a where a: "app_find t i = Some a" "set (flatten (at_slots t)) \<subseteq> insert a (set (flatten ss))"
      using clear_first_lost [OF c] by (auto simp: app_find_def slot_lookup_def)
    have "slot_inv MAX_APPS app_name ss"
      using inv clear_first_distinct [OF c, of app_name] clear_first_count [OF c] by (simp add: reg_inv_def slot_inv_def)
    then show ?thesis using inv a user ss(2) by (auto simp: app_step_ok_def reg_inv_def system_apps_def)
  qed
  then show ?thesis using inv
    by (auto simp: uninstall_in_table_def app_step_ok_refl split: option.splits if_splits)
qed

lemma app_exec_ok: "reg_inv t \<Longrightarrow> \<exists>t'. app_exec x t = Some t' \<and> app_step_ok t t'"
  using install_in_table_ok install_record_ok install_record_auto_id_ok uninstall_in_table_ok
  by (cases x) force+

lemma app_run_ok: "reg_inv t \<Longrightarrow> \<exists>t'. app_run xs t = Some t' \<and> app_step_ok t t'"
proof (induction xs arbitrary: t)
  case (Cons x xs)
  obtain t1 where t1: "app_exec x t = Some t1" "app_step_ok t t1" using app_exec_ok [OF Cons.prems] by blast
  then obtain t2 where "app_run xs t1 = Some t2" "app_step_ok t1 t2" using Cons.IH [of t1] by (auto simp: app_step_ok_def)
  then show ?case using t1 app_step_ok_trans by auto
qed (simp add: app_step_ok_refl)

text \<open>C36.  Whatever is installed and removed, every operation returns, no two installed applications have the
  same name, at most 64 are installed, and a system application that is installed stays installed.\<close>

theorem registry_sound:
  "\<exists>t1 t2. app_run xs app_table_empty = Some t1 \<and> app_run ys t1 = Some t2
    \<and> distinct (map app_name (flatten (at_slots t2))) \<and> length (flatten (at_slots t2)) \<le> MAX_APPS
    \<and> system_apps t1 \<subseteq> system_apps t2"
proof -
  obtain t1 where t1: "app_run xs app_table_empty = Some t1" "reg_inv t1"
    using app_run_ok [OF reg_inv_empty] by (auto simp: app_step_ok_def)
  obtain t2 where "app_run ys t1 = Some t2" "app_step_ok t1 t2" using app_run_ok [OF t1(2)] by blast
  then show ?thesis using t1 by (auto simp: app_step_ok_def reg_inv_def slot_inv_def)
qed

end
