(* ===== verification/App_Store.thy ===== *)
theory App_Store
  imports App_Registry
begin

text \<open>
  Installed bundles on disk (\<^verbatim>\<open>kernel/src/app_store/mod.rs\<close>): the superblock, the catalog of 48
  entries in sectors 1 to 12, the data area from sector 64, saving and removing a bundle, and the
  start-up that reads everything back into the registry; and the complete \<^verbatim>\<open>install\<close> and
  \<^verbatim>\<open>uninstall\<close> of the registry, which call into it.  A single sector transfer of the block device
  (\<^verbatim>\<open>do_sector_op\<close> of \<^verbatim>\<open>drivers/virtio_blk.rs\<close>) is a parameter.

  Two structures are larger than the buffers they are copied to or from: the superblock has 520
  bytes for a sector of 512, and an entry of 124 bytes is copied as 128.  The model keeps what reaches
  the disk: the first 512 bytes, and four bytes of unrelated memory (\<open>junk\<close>) after each entry.
\<close>

section \<open>Sector transfers\<close>

record 'd blk =
  bd_ready :: bool
  bd_readonly :: bool
  bd_rd :: "'d \<Rightarrow> nat \<Rightarrow> bytes option"
  bd_wr :: "'d \<Rightarrow> nat \<Rightarrow> bytes \<Rightarrow> 'd \<times> bool"

text \<open>What a block device promises, with \<open>sec d k\<close> the content of sector \<open>k\<close>.\<close>

definition blk_ok :: "'d blk \<Rightarrow> ('d \<Rightarrow> nat \<Rightarrow> bytes) \<Rightarrow> bool" where
  "blk_ok B sec \<longleftrightarrow>
     (\<forall>d k. length (sec d k) = 512) \<and> (\<forall>d k b. bd_rd B d k = Some b \<longrightarrow> b = sec d k) \<and>
     (\<forall>d k b d'. length b = 512 \<longrightarrow> bd_wr B d k b = (d', True) \<longrightarrow> sec d' = (sec d)(k := b))"

primrec read_loop :: "'d blk \<Rightarrow> 'd \<Rightarrow> nat \<Rightarrow> nat \<Rightarrow> bytes option" where
  "read_loop B d 0 s = Some []"
| "read_loop B d (Suc n) s = do { b \<leftarrow> bd_rd B d s; r \<leftarrow> read_loop B d n (Suc s); Some (b @ r) }"

definition read_sectors :: "'d blk \<Rightarrow> 'd \<Rightarrow> nat \<Rightarrow> nat \<Rightarrow> bytes option" where
  "read_sectors B d sector cnt = (if \<not> bd_ready B then None else read_loop B d cnt sector)"

primrec write_loop :: "'d blk \<Rightarrow> 'd \<Rightarrow> nat \<Rightarrow> nat \<Rightarrow> bytes \<Rightarrow> 'd \<times> bool" where
  "write_loop B d 0 s data = (d, True)"
| "write_loop B d (Suc n) s data =
     (case bd_wr B d s (take 512 data) of
        (d', True) \<Rightarrow> write_loop B d' n (Suc s) (drop 512 data)
      | (d', False) \<Rightarrow> (d', False))"

definition write_sectors :: "'d blk \<Rightarrow> 'd \<Rightarrow> nat \<Rightarrow> nat \<Rightarrow> bytes \<Rightarrow> 'd \<times> bool" where
  "write_sectors B d sector cnt data =
     (if \<not> bd_ready B \<or> bd_readonly B \<or> length data < cnt * 512 then (d, False) else write_loop B d cnt sector data)"

section \<open>Structures on disk\<close>

definition STORE_MAGIC :: bytes where [kernel_defs]: "STORE_MAGIC = [0x4F, 0x53, 0x53, 0x54, 0x4F, 0x52, 0x45, 0x31]"
definition SUPER_SECTOR :: nat where [kernel_defs]: "SUPER_SECTOR = 0"
definition CATALOG_SECTOR :: nat where [kernel_defs]: "CATALOG_SECTOR = 1"
definition CATALOG_SECTORS :: nat where [kernel_defs]: "CATALOG_SECTORS = 12"
definition CATALOG_ENTRIES :: nat where [kernel_defs]: "CATALOG_ENTRIES = 48"
definition CATALOG_ENTRY_BYTES :: nat where [kernel_defs]: "CATALOG_ENTRY_BYTES = 128"
definition DATA_START_SECTOR :: u64 where [kernel_defs]: "DATA_START_SECTOR = 64"

record superblock =
  sb_magic :: bytes
  sb_version :: u32
  sb_next_app_id :: u32
  sb_next_data_sector :: u64
  sb_entry_count :: u32

definition superblock_bytes :: "superblock \<Rightarrow> bytes" where
  "superblock_bytes sb = sb_magic sb @ u32_to_le (sb_version sb) @ u32_to_le (sb_next_app_id sb)
     @ u64_to_le (sb_next_data_sector sb) @ u32_to_le (sb_entry_count sb) @ replicate 492 0"

definition superblock_of :: "bytes \<Rightarrow> superblock" where
  "superblock_of b = \<lparr> sb_magic = slice 0 8 b, sb_version = from_le (slice 8 12 b), sb_next_app_id = from_le (slice 12 16 b),
     sb_next_data_sector = from_le (slice 16 24 b), sb_entry_count = from_le (slice 24 28 b) \<rparr>"

record catalog_entry =
  ce_flags :: u32
  ce_id :: u32
  ce_name :: bytes
  ce_version :: bytes
  ce_entry_offset :: u64
  ce_stack_size :: u64
  ce_data_sector :: u64
  ce_bundle_sectors :: u32
  ce_bundle_bytes :: u32

definition entry_bytes :: "catalog_entry \<Rightarrow> bytes" where
  "entry_bytes e = u32_to_le (ce_flags e) @ u32_to_le (ce_id e) @ ce_name e @ ce_version e @ u64_to_le (ce_entry_offset e)
     @ u64_to_le (ce_stack_size e) @ u64_to_le (ce_data_sector e) @ u32_to_le (ce_bundle_sectors e)
     @ u32_to_le (ce_bundle_bytes e) @ u32_to_le 0"

definition entry_of :: "bytes \<Rightarrow> catalog_entry" where
  "entry_of b = \<lparr> ce_flags = from_le (slice 0 4 b), ce_id = from_le (slice 4 8 b), ce_name = slice 8 72 b,
     ce_version = slice 72 88 b, ce_entry_offset = from_le (slice 88 96 b), ce_stack_size = from_le (slice 96 104 b),
     ce_data_sector = from_le (slice 104 112 b), ce_bundle_sectors = from_le (slice 112 116 b),
     ce_bundle_bytes = from_le (slice 116 120 b) \<rparr>"

definition sectors_for_bytes :: "nat \<Rightarrow> u32" where
  "sectors_for_bytes n = of_nat ((n + 511) div 512)"

section \<open>Reading and writing them\<close>

definition read_superblock :: "'d blk \<Rightarrow> 'd \<Rightarrow> superblock option" where
  "read_superblock B d = do {
     buf \<leftarrow> read_sectors B d SUPER_SECTOR 1;
     let sb = superblock_of buf;
     if sb_magic sb \<noteq> STORE_MAGIC then None else Some sb }"

definition write_superblock :: "'d blk \<Rightarrow> superblock \<Rightarrow> 'd \<Rightarrow> 'd \<times> bool" where
  "write_superblock B sb d = write_sectors B d SUPER_SECTOR 1 (take 512 (superblock_bytes sb))"

definition new_superblock :: "u32 \<Rightarrow> u64 \<Rightarrow> u32 \<Rightarrow> superblock" where
  "new_superblock next_app next_sector entries =
     \<lparr> sb_magic = STORE_MAGIC, sb_version = 1, sb_next_app_id = next_app, sb_next_data_sector = next_sector, sb_entry_count = entries \<rparr>"

primrec zero_sectors :: "'d blk \<Rightarrow> nat \<Rightarrow> nat \<Rightarrow> 'd \<Rightarrow> 'd \<times> bool" where
  "zero_sectors B 0 s d = (d, True)"
| "zero_sectors B (Suc n) s d =
     (case write_sectors B d s 1 (replicate 512 0) of
        (d', True) \<Rightarrow> zero_sectors B n (Suc s) d'
      | (d', False) \<Rightarrow> (d', False))"

definition format_store :: "'d blk \<Rightarrow> 'd \<Rightarrow> 'd \<times> bool" where
  "format_store B d =
     (case write_superblock B (new_superblock 1 DATA_START_SECTOR 0) d of
        (d', True) \<Rightarrow> zero_sectors B CATALOG_SECTORS CATALOG_SECTOR d'
      | (d', False) \<Rightarrow> (d', False))"

definition catalog_entries :: "bytes \<Rightarrow> catalog_entry list" where
  "catalog_entries buf =
     filter (\<lambda>e. ce_flags e = 1)
       (map (\<lambda>i. entry_of (drop (i * CATALOG_ENTRY_BYTES) buf)) [0..<CATALOG_ENTRIES])"

definition read_catalog :: "'d blk \<Rightarrow> 'd \<Rightarrow> catalog_entry list option" where
  "read_catalog B d = map_option catalog_entries (read_sectors B d CATALOG_SECTOR CATALOG_SECTORS)"

definition catalog_image :: "(nat \<Rightarrow> bytes) \<Rightarrow> catalog_entry list \<Rightarrow> bytes" where
  "catalog_image junk es =
     fold (\<lambda>i buf. write_at (i * CATALOG_ENTRY_BYTES) (take CATALOG_ENTRY_BYTES (entry_bytes (es ! i) @ junk i)) buf)
       [0..<min (length es) CATALOG_ENTRIES] (replicate (512 * CATALOG_SECTORS) 0)"

definition write_catalog :: "'d blk \<Rightarrow> (nat \<Rightarrow> bytes) \<Rightarrow> catalog_entry list \<Rightarrow> 'd \<Rightarrow> 'd \<times> bool" where
  "write_catalog B junk es d = write_sectors B d CATALOG_SECTOR CATALOG_SECTORS (catalog_image junk es)"

definition bundle_from_entry :: "'d blk \<Rightarrow> 'd \<Rightarrow> catalog_entry \<Rightarrow> bytes option" where
  "bundle_from_entry B d e =
     map_option (take (unat (ce_bundle_bytes e))) (read_sectors B d (unat (ce_data_sector e)) (unat (ce_bundle_sectors e)))"

section \<open>The store\<close>

record 'd store =
  st_ready :: bool
  st_next_app_id :: u32
  st_next_data_sector :: u64
  st_disk :: 'd

definition hydrate_entry :: "'d blk \<Rightarrow> 'd \<Rightarrow> catalog_entry \<Rightarrow> app_table \<times> bool \<Rightarrow> app_table \<times> bool" where
  "hydrate_entry B d e = (\<lambda>(t, ok).
     if \<not> ok then (t, ok)
     else case bundle_from_entry B d e of
            None \<Rightarrow> (t, False)
          | Some bundle \<Rightarrow> (snd (install_from_store bundle (ce_id e) t), True))"

definition hydrate_registry :: "'d blk \<Rightarrow> 'd \<Rightarrow> app_table \<Rightarrow> app_table" where
  "hydrate_registry B d t =
     (case read_catalog B d of
        None \<Rightarrow> t
      | Some es \<Rightarrow> fst (fold (hydrate_entry B d) es (t, True)))"

definition store_init :: "'d blk \<Rightarrow> 'd store \<Rightarrow> app_table \<Rightarrow> bool \<times> 'd store \<times> app_table" where
  "store_init B s t =
     (if \<not> bd_ready B then (False, s, t)
      else
        let (d, fmt_ok) = (if read_superblock B (st_disk s) = None then format_store B (st_disk s) else (st_disk s, True));
            s1 = s\<lparr>st_disk := d\<rparr>
        in if \<not> fmt_ok then (False, s1, t)
           else case read_superblock B d of
                  None \<Rightarrow> (False, s1, t)
                | Some sb \<Rightarrow>
                    (True, s1\<lparr>st_next_app_id := max (sb_next_app_id sb) 1,
                              st_next_data_sector := max (sb_next_data_sector sb) DATA_START_SECTOR, st_ready := True\<rparr>,
                     hydrate_registry B d t))"

definition new_entry :: "u32 \<Rightarrow> bytes \<Rightarrow> bundle_header \<Rightarrow> u64 \<Rightarrow> catalog_entry" where
  "new_entry app_id bundle hdr data_sector =
     \<lparr> ce_flags = 1, ce_id = app_id, ce_name = bh_name hdr, ce_version = bh_version hdr, ce_entry_offset = bh_entry_offset hdr,
       ce_stack_size = bh_stack_size hdr, ce_data_sector = data_sector, ce_bundle_sectors = sectors_for_bytes (length bundle),
       ce_bundle_bytes = of_nat (length bundle) \<rparr>"

definition padded :: "bytes \<Rightarrow> bytes" where
  "padded bundle = take (unat (sectors_for_bytes (length bundle)) * 512) bundle
     @ replicate (unat (sectors_for_bytes (length bundle)) * 512 - length bundle) 0"

text \<open>\<open>persist_bundle\<close> in the order of the source: data, catalog, counters, superblock.\<close>

definition persist_bundle :: "'d blk \<Rightarrow> (nat \<Rightarrow> bytes) \<Rightarrow> u32 \<Rightarrow> bytes \<Rightarrow> 'd store \<Rightarrow> bool \<times> 'd store" where
  "persist_bundle B junk app_id bundle s =
     (if \<not> st_ready s then (True, s)
      else case parse_header bundle of
        None \<Rightarrow> (False, s)
      | Some hdr \<Rightarrow>
          let data_sector = st_next_data_sector s; n = sectors_for_bytes (length bundle) in
          (case write_sectors B (st_disk s) (unat data_sector) (unat n) (padded bundle) of
             (d1, False) \<Rightarrow> (False, s\<lparr>st_disk := d1\<rparr>)
           | (d1, True) \<Rightarrow>
               (case read_catalog B d1 of
                  None \<Rightarrow> (False, s\<lparr>st_disk := d1\<rparr>)
                | Some es \<Rightarrow>
                    if CATALOG_ENTRIES \<le> length es then (False, s\<lparr>st_disk := d1\<rparr>)
                    else
                      let es' = es @ [new_entry app_id bundle hdr data_sector] in
                      (case write_catalog B junk es' d1 of
                         (d2, False) \<Rightarrow> (False, s\<lparr>st_disk := d2\<rparr>)
                       | (d2, True) \<Rightarrow>
                           let s1 = s\<lparr>st_next_data_sector := data_sector + ucast n,
                                      st_next_app_id := max (sat_add app_id 1) (st_next_app_id s)\<rparr>;
                               (d3, ok) = write_superblock B (new_superblock (st_next_app_id s1) (st_next_data_sector s1)
                                            (of_nat (length es'))) d2
                           in (ok, s1\<lparr>st_disk := d3\<rparr>)))))"

definition remove_bundle :: "'d blk \<Rightarrow> (nat \<Rightarrow> bytes) \<Rightarrow> u32 \<Rightarrow> 'd store \<Rightarrow> bool \<times> 'd store" where
  "remove_bundle B junk app_id s =
     (if \<not> st_ready s then (True, s)
      else case read_catalog B (st_disk s) of
        None \<Rightarrow> (False, s)
      | Some es \<Rightarrow>
          let es' = filter (\<lambda>e. ce_id e \<noteq> app_id) es in
          if length es' = length es then (False, s)
          else
            (case write_catalog B junk es' (st_disk s) of
               (d1, False) \<Rightarrow> (False, s\<lparr>st_disk := d1\<rparr>)
             | (d1, True) \<Rightarrow>
                 let (d2, ok) = write_superblock B (new_superblock (st_next_app_id s) (st_next_data_sector s) (of_nat (length es'))) d1
                 in (ok, s\<lparr>st_disk := d2\<rparr>)))"

text \<open>\<^verbatim>\<open>app_registry::install\<close> and \<^verbatim>\<open>uninstall\<close>: the answer does not depend on the outcome on disk.\<close>

definition app_install :: "'d blk \<Rightarrow> (nat \<Rightarrow> bytes) \<Rightarrow> bytes \<Rightarrow> app_table \<times> 'd store \<Rightarrow> u32 option \<times> app_table \<times> 'd store" where
  "app_install B junk bundle = (\<lambda>(t, s).
     case install_in_table bundle t of
       (None, t') \<Rightarrow> (None, t', s)
     | (Some i, t') \<Rightarrow> (Some i, t', snd (persist_bundle B junk i bundle s)))"

definition app_uninstall :: "'d blk \<Rightarrow> (nat \<Rightarrow> bytes) \<Rightarrow> u32 \<Rightarrow> app_table \<times> 'd store \<Rightarrow> bool \<times> app_table \<times> 'd store" where
  "app_uninstall B junk app_id = (\<lambda>(t, s).
     case uninstall_in_table app_id t of
       (False, t') \<Rightarrow> (False, t', s)
     | (True, t') \<Rightarrow> (True, t', snd (remove_bundle B junk app_id s)))"

section \<open>What is written is read back\<close>

lemma read_loop_sec:
  assumes "blk_ok B sec"
  shows "read_loop B d n s = Some b \<Longrightarrow> b = concat (map (sec d) [s..<s + n])"
proof (induction n arbitrary: s b)
  case (Suc n)
  obtain b1 r where "bd_rd B d s = Some b1" "read_loop B d n (Suc s) = Some r" "b = b1 @ r"
    using Suc.prems by (auto simp: bind_eq_Some_conv)
  moreover have "[s..<s + Suc n] = s # [Suc s..<Suc s + n]" by (simp add: upt_conv_Cons del: upt_Suc)
  moreover have "bd_rd B d s = Some b1 \<Longrightarrow> b1 = sec d s" using assms unfolding blk_ok_def by blast
  ultimately show ?case using Suc.IH [of "Suc s" r] by (simp del: upt_Suc)
qed simp

lemma write_loop_sec:
  assumes ok: "blk_ok B sec"
  shows "length data = 512 * n \<Longrightarrow> write_loop B d n s data = (d', True) \<Longrightarrow>
    sec d' k = (if s \<le> k \<and> k < s + n then take 512 (drop (512 * (k - s)) data) else sec d k)"
proof (induction n arbitrary: d s data)
  case (Suc n)
  obtain d1 where d1: "bd_wr B d s (take 512 data) = (d1, True)" "write_loop B d1 n (Suc s) (drop 512 data) = (d', True)"
    using Suc.prems(2) by (auto split: prod.splits bool.splits)
  have sec1: "sec d1 = (sec d)(s := take 512 data)" using ok d1(1) Suc.prems(1) by (auto simp: blk_ok_def)
  have "sec d' k = (if Suc s \<le> k \<and> k < Suc s + n then take 512 (drop (512 * (k - Suc s)) (drop 512 data)) else sec d1 k)"
    using Suc.IH [OF _ d1(2)] Suc.prems(1) by simp
  moreover have "512 * (k - Suc s) + 512 = 512 * (k - s)" if "Suc s \<le> k" using that by (simp add: Suc_diff_le [symmetric])
  ultimately show ?case by (auto simp: sec1 add.commute)
qed auto

lemma concat_chunks: "length data = 512 * n \<Longrightarrow> concat (map (\<lambda>j. take 512 (drop (512 * j) data)) [0..<n]) = data"
proof (induction n arbitrary: data)
  case (Suc n)
  have "concat (map (\<lambda>j. take 512 (drop (512 * j) (drop 512 data))) [0..<n]) = drop 512 data"
    by (rule Suc.IH) (use Suc.prems in simp)
  moreover have "[0..<Suc n] = 0 # map Suc [0..<n]" by (simp add: upt_conv_Cons map_Suc_upt)
  ultimately show ?case by (simp add: comp_def add.commute del: upt_Suc)
qed simp

text \<open>The content of a range of sectors, after a successful write to a range and after a write elsewhere.\<close>

definition disk_range :: "('d \<Rightarrow> nat \<Rightarrow> bytes) \<Rightarrow> 'd \<Rightarrow> nat \<Rightarrow> nat \<Rightarrow> bytes" where
  "disk_range sec d s n = concat (map (sec d) [s..<s + n])"

lemma read_sectors_range: "blk_ok B sec \<Longrightarrow> read_sectors B d s n = Some b \<Longrightarrow> b = disk_range sec d s n"
  by (auto simp: read_sectors_def disk_range_def read_loop_sec split: if_splits)

lemma write_sectors_range:
  assumes ok: "blk_ok B sec" and len: "length data = 512 * n" and w: "write_sectors B d s n data = (d', True)"
  shows "disk_range sec d' s n = data"
    and "s' + n' \<le> s \<or> s + n \<le> s' \<Longrightarrow> disk_range sec d' s' n' = disk_range sec d s' n'"
proof -
  have "write_loop B d n s data = (d', True)" using w by (auto simp: write_sectors_def split: if_splits)
  note sec = write_loop_sec [OF ok len this]
  have "map (sec d') [s..<s + n] = map (\<lambda>j. take 512 (drop (512 * j) data)) [0..<n]"
    by (rule nth_equalityI) (auto simp: sec)
  then show "disk_range sec d' s n = data" using concat_chunks [OF len] by (simp add: disk_range_def)
  show "disk_range sec d' s' n' = disk_range sec d s' n'" if "s' + n' \<le> s \<or> s + n \<le> s'"
    unfolding disk_range_def using that by (intro arg_cong [where f = concat] map_cong) (auto simp: sec)
qed

section \<open>The catalog\<close>

definition entry_wf :: "catalog_entry \<Rightarrow> bool" where
  "entry_wf e \<longleftrightarrow> length (ce_name e) = 64 \<and> length (ce_version e) = 16 \<and> ce_flags e = 1"

lemma length_entry_bytes: "entry_wf e \<Longrightarrow> length (entry_bytes e) = 124"
  by (simp add: entry_bytes_def entry_wf_def)

lemma slice_append_skip: "slice (length a + i) (length a + j) (a @ b) = slice i j b"
  by (simp add: slice_def)

lemma slice_append_take: "slice 0 (length a) (a @ b) = a"
  by (simp add: slice_def)

lemma slice_field:
  assumes "length a = i" "length b = j - i" "i \<le> j"
  shows "slice i j (a @ b @ c) = b"
  using assms slice_append_skip [of a 0 "j - i" "b @ c"] slice_append_take [of b c] by simp

lemma entry_of_bytes:
  assumes "entry_wf e"
  shows "entry_of (entry_bytes e @ x) = e"
proof -
  note l = assms [unfolded entry_wf_def]
  let ?f = "u32_to_le (ce_flags e)" and ?i = "u32_to_le (ce_id e)" and ?n = "ce_name e" and ?v = "ce_version e"
    and ?o = "u64_to_le (ce_entry_offset e)" and ?s = "u64_to_le (ce_stack_size e)" and ?d = "u64_to_le (ce_data_sector e)"
    and ?bs = "u32_to_le (ce_bundle_sectors e)" and ?bb = "u32_to_le (ce_bundle_bytes e)"
  let ?b = "entry_bytes e @ x"
  have b: "?b = ?f @ ?i @ ?n @ ?v @ ?o @ ?s @ ?d @ ?bs @ ?bb @ u32_to_le 0 @ x" by (simp add: entry_bytes_def)
  have "slice 0 4 ?b = ?f" using slice_field [of "[]" 0 ?f 4] by (simp add: b)
  moreover have "slice 4 8 ?b = ?i" using slice_field [of ?f 4 ?i 8] by (simp add: b)
  moreover have "slice 8 72 ?b = ?n" using slice_field [of "?f @ ?i" 8 ?n 72] l by (simp add: b)
  moreover have "slice 72 88 ?b = ?v" using slice_field [of "?f @ ?i @ ?n" 72 ?v 88] l by (simp add: b)
  moreover have "slice 88 96 ?b = ?o" using slice_field [of "?f @ ?i @ ?n @ ?v" 88 ?o 96] l by (simp add: b)
  moreover have "slice 96 104 ?b = ?s" using slice_field [of "?f @ ?i @ ?n @ ?v @ ?o" 96 ?s 104] l by (simp add: b)
  moreover have "slice 104 112 ?b = ?d" using slice_field [of "?f @ ?i @ ?n @ ?v @ ?o @ ?s" 104 ?d 112] l by (simp add: b)
  moreover have "slice 112 116 ?b = ?bs" using slice_field [of "?f @ ?i @ ?n @ ?v @ ?o @ ?s @ ?d" 112 ?bs 116] l by (simp add: b)
  moreover have "slice 116 120 ?b = ?bb" using slice_field [of "?f @ ?i @ ?n @ ?v @ ?o @ ?s @ ?d @ ?bs" 116 ?bb 120] l by (simp add: b)
  ultimately show ?thesis by (simp add: entry_of_def)
qed

lemma length_blocks: "\<forall>i < n. length (f i) = m \<Longrightarrow> length (concat (map f [0..<n])) = n * m"
  by (induction n) simp_all

lemma write_blocks:
  assumes "\<forall>i < n. length (f i) = 128" "n \<le> 48"
  shows "fold (\<lambda>i buf. write_at (i * 128) (f i) buf) [0..<n] (replicate 6144 0)
    = concat (map f [0..<n]) @ replicate (6144 - 128 * n) (0 :: u8)"
  using assms
proof (induction n)
  case (Suc n)
  have "length (concat (map f [0..<n])) = n * 128"
    using Suc.prems(1) by (intro length_blocks) simp
  then show ?case using Suc by (simp add: write_at_def)
qed simp

lemma drop_blocks:
  assumes "\<forall>i < n. length (f i) = 128" "i \<le> n"
  shows "drop (i * 128) (concat (map f [0..<n])) = concat (map f [i..<n])"
proof -
  have "length (concat (map f [0..<i])) = i * 128"
    using assms by (intro length_blocks) simp
  moreover have "[0..<n] = [0..<i] @ [i..<n]" using assms(2) upt_add_eq_append [of 0 i "n - i"] by simp
  ultimately show ?thesis by simp
qed

lemma from_le_zeros: "from_le (replicate n 0) = 0"
  by (induction n) simp_all

lemma filter_map_id: "(\<And>i. i < length xs \<Longrightarrow> g i = xs ! i \<and> P (xs ! i)) \<Longrightarrow> filter P (map g [0..<length xs]) = xs"
proof -
  assume a: "\<And>i. i < length xs \<Longrightarrow> g i = xs ! i \<and> P (xs ! i)"
  have "map g [0..<length xs] = xs" by (rule nth_equalityI) (use a in auto)
  moreover have "\<forall>x \<in> set xs. P x" using a by (metis in_set_conv_nth)
  ultimately show ?thesis by (simp add: filter_True)
qed

lemma catalog_roundtrip:
  assumes wf: "\<forall>e \<in> set es. entry_wf e" and len: "length es \<le> CATALOG_ENTRIES" and junk: "\<forall>i. length (junk i) = 4"
  shows "catalog_entries (catalog_image junk es) = es" "length (catalog_image junk es) = 512 * CATALOG_SECTORS"
proof -
  let ?f = "\<lambda>i. entry_bytes (es ! i) @ junk i" and ?n = "length es"
  have f: "\<forall>i < ?n. length (?f i) = 128" using wf junk by (simp add: length_entry_bytes)
  have n: "?n \<le> 48" using len by (simp add: CATALOG_ENTRIES_def)
  have img: "catalog_image junk es = concat (map ?f [0..<?n]) @ replicate (6144 - 128 * ?n) 0"
  proof -
    have "catalog_image junk es = fold (\<lambda>i buf. write_at (i * 128) (?f i) buf) [0..<?n] (replicate 6144 0)"
      unfolding catalog_image_def using n f by (auto intro!: List.fold_cong simp: kernel_defs min_def)
    then show ?thesis using write_blocks [OF f n] by simp
  qed
  have cl: "length (concat (map ?f [0..<?n])) = ?n * 128"
    by (rule length_blocks) (rule f)
  then show "length (catalog_image junk es) = 512 * CATALOG_SECTORS"
    using n by (simp add: img CATALOG_SECTORS_def)
  have used: "entry_of (drop (i * 128) (catalog_image junk es)) = es ! i" if i: "i < ?n" for i
  proof -
    have "drop (i * 128) (catalog_image junk es) = concat (map ?f [i..<?n]) @ replicate (6144 - 128 * ?n) 0"
      using drop_blocks [OF f, of i] i cl by (simp add: img)
    also have "\<dots> = entry_bytes (es ! i) @ junk i @ concat (map ?f [Suc i..<?n]) @ replicate (6144 - 128 * ?n) 0"
      using i by (simp add: upt_conv_Cons)
    finally show ?thesis using entry_of_bytes wf i by simp
  qed
  have free: "ce_flags (entry_of (drop (i * 128) (catalog_image junk es))) = 0" if "?n \<le> i" "i < 48" for i
  proof -
    have "drop (i * 128) (catalog_image junk es) = replicate (6144 - i * 128) 0"
      using that cl by (simp add: img)
    then show ?thesis by (simp add: entry_of_def slice_def from_le_zeros take_replicate)
  qed
  have "[0..<CATALOG_ENTRIES] = [0..<?n] @ [?n..<48]"
    using n upt_add_eq_append [of 0 ?n "48 - ?n"] by (simp add: CATALOG_ENTRIES_def)
  moreover have "filter (\<lambda>e. ce_flags e = 1) (map (\<lambda>i. entry_of (drop (i * 128) (catalog_image junk es))) [0..<?n]) = es"
    by (rule filter_map_id) (use used wf in \<open>auto simp: entry_wf_def\<close>)
  moreover have "filter (\<lambda>e. ce_flags e = 1) (map (\<lambda>i. entry_of (drop (i * 128) (catalog_image junk es))) [?n..<48]) = []"
    using free by (auto simp: filter_empty_conv)
  ultimately show "catalog_entries (catalog_image junk es) = es"
    by (simp add: catalog_entries_def CATALOG_ENTRY_BYTES_def)
qed

lemma catalog_entries_wf:
  assumes "length buf = 6144" "e \<in> set (catalog_entries buf)"
  shows "entry_wf e"
proof -
  obtain i where i: "i < 48" "e = entry_of (drop (i * 128) buf)" "ce_flags e = 1"
    using assms(2) by (auto simp: catalog_entries_def kernel_defs)
  then have "128 \<le> length (drop (i * 128) buf)" using assms(1) by simp
  then show ?thesis using i by (simp add: entry_wf_def entry_of_def slice_def)
qed

section \<open>An installed bundle survives a restart\<close>

definition reads_ok :: "'d blk \<Rightarrow> bool" where
  "reads_ok B \<longleftrightarrow> bd_ready B \<and> (\<forall>d k. bd_rd B d k \<noteq> None)"

definition catalog_on :: "('d \<Rightarrow> nat \<Rightarrow> bytes) \<Rightarrow> 'd \<Rightarrow> catalog_entry list" where
  "catalog_on sec d = catalog_entries (disk_range sec d CATALOG_SECTOR CATALOG_SECTORS)"

lemma read_loop_total: "reads_ok B \<Longrightarrow> \<exists>b. read_loop B d n s = Some b"
proof (induction n arbitrary: s)
  case (Suc n)
  then obtain r where "read_loop B d n (Suc s) = Some r" by blast
  moreover obtain b where "bd_rd B d s = Some b" using Suc.prems by (fastforce simp: reads_ok_def)
  ultimately show ?case by simp
qed simp

lemma read_sectors_total: "blk_ok B sec \<Longrightarrow> reads_ok B \<Longrightarrow> read_sectors B d s n = Some (disk_range sec d s n)"
  using read_loop_total [of B d n s] read_sectors_range [of B sec d s n] by (auto simp: read_sectors_def reads_ok_def)

lemma read_catalog_total: "blk_ok B sec \<Longrightarrow> reads_ok B \<Longrightarrow> read_catalog B d = Some (catalog_on sec d)"
  by (simp add: read_catalog_def read_sectors_total catalog_on_def)

lemma length_disk_range: "blk_ok B sec \<Longrightarrow> length (disk_range sec d s n) = 512 * n"
  by (induction n) (simp_all add: disk_range_def blk_ok_def)

lemma catalog_on_wf: "blk_ok B sec \<Longrightarrow> e \<in> set (catalog_on sec d) \<Longrightarrow> entry_wf e"
  using catalog_entries_wf [of "disk_range sec d CATALOG_SECTOR CATALOG_SECTORS" e] length_disk_range
  by (fastforce simp: catalog_on_def CATALOG_SECTORS_def)

lemma parse_header_lengths:
  "parse_header bundle = Some hdr \<Longrightarrow> length (bh_name hdr) = 64 \<and> length (bh_version hdr) = 16 \<and> 112 \<le> length bundle"
  by (auto simp: parse_header_def Let_def HEADER_SIZE_def split: if_splits)

lemma sectors_for_bytes_unat: "n < 2 ^ 31 \<Longrightarrow> unat (sectors_for_bytes n) = (n + 511) div 512"
  by (simp add: sectors_for_bytes_def unat_of_nat)

lemma unat_widen: "unat (ucast (x :: u32) :: u64) = unat x"
  using u32_bound [of x] by (simp add: unsigned_ucast_eq take_bit_nat_eq_self)

lemma padded_bundle:
  assumes "length bundle < 2 ^ 31"
  shows "length (padded bundle) = 512 * unat (sectors_for_bytes (length bundle))"
    "take (length bundle) (padded bundle) = bundle"
proof -
  let ?n = "length bundle" and ?m = "unat (sectors_for_bytes (length bundle))"
  have "(?n + 511) div 512 * 512 \<ge> ?n" using div_mult_mod_eq [of "?n + 511" 512] mod_less_divisor [of 512 "?n + 511"] by linarith
  then have m: "?n \<le> ?m * 512" using sectors_for_bytes_unat [OF assms] by simp
  then have p: "padded bundle = bundle @ replicate (?m * 512 - ?n) 0" by (simp add: padded_def)
  show "length (padded bundle) = 512 * ?m" "take ?n (padded bundle) = bundle" using m by (simp_all add: p)
qed

text \<open>The effect of saving a bundle on the disk.\<close>

lemma persist_bundle_effect:
  assumes ok: "blk_ok B sec" "reads_ok B" and ready: "st_ready s" and junk: "\<forall>i. length (junk i) = 4"
    and call: "persist_bundle B junk app_id bundle s = (True, s')"
    and size: "length bundle < 2 ^ 31" "64 \<le> unat (st_next_data_sector s)"
      "unat (st_next_data_sector s) + unat (sectors_for_bytes (length bundle)) < 2 ^ 64"
  obtains hdr where "parse_header bundle = Some hdr"
    "catalog_on sec (st_disk s') = catalog_on sec (st_disk s) @ [new_entry app_id bundle hdr (st_next_data_sector s)]"
    "length (catalog_on sec (st_disk s)) < 48"
    "disk_range sec (st_disk s') (unat (st_next_data_sector s)) (unat (sectors_for_bytes (length bundle))) = padded bundle"
    "\<And>a n. 64 \<le> a \<Longrightarrow> a + n \<le> unat (st_next_data_sector s) \<Longrightarrow> disk_range sec (st_disk s') a n = disk_range sec (st_disk s) a n"
    "disk_range sec (st_disk s') 0 1 = take 512 (superblock_bytes (new_superblock (st_next_app_id s') (st_next_data_sector s')
        (of_nat (length (catalog_on sec (st_disk s')))))) "
    "unat (st_next_data_sector s') = unat (st_next_data_sector s) + unat (sectors_for_bytes (length bundle))"
proof -
  let ?d = "st_disk s" and ?at = "unat (st_next_data_sector s)" and ?n = "unat (sectors_for_bytes (length bundle))"
  obtain hdr where hdr: "parse_header bundle = Some hdr"
    using call ready by (auto simp: persist_bundle_def split: option.splits)
  let ?e = "new_entry app_id bundle hdr (st_next_data_sector s)"
  obtain d1 where d1: "write_sectors B ?d ?at ?n (padded bundle) = (d1, True)"
    using call ready hdr by (auto simp: persist_bundle_def Let_def split: prod.splits bool.splits)
  note w1 = write_sectors_range [OF ok(1) padded_bundle(1) [OF size(1)] d1]
  have cat1: "catalog_on sec d1 = catalog_on sec ?d"
    using w1(2) [of CATALOG_SECTOR CATALOG_SECTORS] size(2) by (simp add: catalog_on_def kernel_defs)
  let ?es = "catalog_on sec ?d"
  have few: "length ?es < 48"
    using call ready hdr d1 by (auto simp: persist_bundle_def Let_def read_catalog_total [OF ok] cat1 CATALOG_ENTRIES_def split: if_splits)
  obtain d2 where d2: "write_catalog B junk (?es @ [?e]) d1 = (d2, True)"
    using call ready hdr d1 few
    by (auto simp: persist_bundle_def Let_def read_catalog_total [OF ok] cat1 CATALOG_ENTRIES_def split: prod.splits bool.splits)
  have wf: "\<forall>e \<in> set (?es @ [?e]). entry_wf e"
    using catalog_on_wf [OF ok(1)] parse_header_lengths [OF hdr] by (auto simp: entry_wf_def new_entry_def)
  have len: "length (?es @ [?e]) \<le> CATALOG_ENTRIES" using few by (simp add: CATALOG_ENTRIES_def)
  note cat = catalog_roundtrip [OF wf len junk]
  note w2 = write_sectors_range [OF ok(1) cat(2) d2 [unfolded write_catalog_def]]
  let ?s1 = "s\<lparr>st_next_data_sector := st_next_data_sector s + ucast (sectors_for_bytes (length bundle)),
      st_next_app_id := max (sat_add app_id 1) (st_next_app_id s)\<rparr>"
  let ?sb = "new_superblock (st_next_app_id ?s1) (st_next_data_sector ?s1) (of_nat (length (?es @ [?e])))"
  obtain d3 where d3: "write_superblock B ?sb d2 = (d3, True)" "s' = ?s1\<lparr>st_disk := d3\<rparr>"
    using call ready hdr d1 few d2
    by (auto simp: persist_bundle_def Let_def read_catalog_total [OF ok] cat1 CATALOG_ENTRIES_def split: prod.splits)
  have sbl: "length (take 512 (superblock_bytes ?sb)) = 512 * 1"
    by (simp add: superblock_bytes_def new_superblock_def STORE_MAGIC_def)
  note w3 = write_sectors_range [OF ok(1) sbl d3(1) [unfolded write_superblock_def]]
  have disk: "st_disk s' = d3" using d3(2) by simp
  show ?thesis
  proof (rule that [OF hdr])
    have r: "disk_range sec d3 CATALOG_SECTOR CATALOG_SECTORS = catalog_image junk (?es @ [?e])"
      using w3(2) [of CATALOG_SECTOR CATALOG_SECTORS] w2(1) by (simp add: kernel_defs)
    show c: "catalog_on sec (st_disk s') = ?es @ [?e]" unfolding disk catalog_on_def [of sec d3] r by (rule cat(1))
    show "length ?es < 48" by (rule few)
    show "disk_range sec (st_disk s') ?at ?n = padded bundle"
      using w3(2) [of ?at ?n] w2(2) [of ?at ?n] w1(1) size(2) by (simp add: disk kernel_defs)
    show "disk_range sec (st_disk s') a n = disk_range sec ?d a n" if "64 \<le> a" "a + n \<le> ?at" for a n
      using w3(2) [of a n] w2(2) [of a n] w1(2) [of a n] that by (simp add: disk kernel_defs)
    show "disk_range sec (st_disk s') 0 1 = take 512 (superblock_bytes (new_superblock (st_next_app_id s') (st_next_data_sector s')
        (of_nat (length (catalog_on sec (st_disk s'))))))"
      using w3(1) unfolding c by (simp add: disk d3(2) SUPER_SECTOR_def)
    show "unat (st_next_data_sector s') = ?at + ?n"
      using size(3) by (simp add: d3(2) unat_word_ariths unat_widen)
  qed
qed

lemma superblock_roundtrip:
  assumes "length (sb_magic sb) = 8"
  shows "superblock_of (take 512 (superblock_bytes sb)) = sb"
proof -
  let ?v = "u32_to_le (sb_version sb)" and ?a = "u32_to_le (sb_next_app_id sb)" and ?d = "u64_to_le (sb_next_data_sector sb)"
    and ?c = "u32_to_le (sb_entry_count sb)" and ?z = "replicate 484 (0 :: u8)"
  let ?b = "take 512 (superblock_bytes sb)"
  have b: "?b = sb_magic sb @ ?v @ ?a @ ?d @ ?c @ ?z" using assms by (simp add: superblock_bytes_def)
  have "slice 0 8 ?b = sb_magic sb" using slice_field [of "[]" 0 "sb_magic sb" 8] assms by (simp add: b)
  moreover have "slice 8 12 ?b = ?v" using slice_field [of "sb_magic sb" 8 ?v 12] assms by (simp add: b)
  moreover have "slice 12 16 ?b = ?a" using slice_field [of "sb_magic sb @ ?v" 12 ?a 16] assms by (simp add: b)
  moreover have "slice 16 24 ?b = ?d" using slice_field [of "sb_magic sb @ ?v @ ?a" 16 ?d 24] assms by (simp add: b)
  moreover have "slice 24 28 ?b = ?c" using slice_field [of "sb_magic sb @ ?v @ ?a @ ?d" 24 ?c 28] assms by (simp add: b)
  ultimately show ?thesis by (simp add: superblock_of_def)
qed

text \<open>The names of the bundles that a list of catalog entries points to.\<close>

definition stored_names :: "'d blk \<Rightarrow> 'd \<Rightarrow> catalog_entry list \<Rightarrow> bytes set" where
  "stored_names B d es = {nm. \<exists>e \<in> set es. \<exists>b hdr. bundle_from_entry B d e = Some b \<and> parse_header b = Some hdr \<and> cstr 64 (bh_name hdr) = nm}"

definition app_ids :: "app_table \<Rightarrow> u32 set" where
  "app_ids t = ar_id ` set (flatten (at_slots t))"

definition app_names :: "app_table \<Rightarrow> bytes set" where
  "app_names t = app_name ` set (flatten (at_slots t))"

lemma app_find_None: "app_find t i = None \<longleftrightarrow> i \<notin> app_ids t"
  by (simp add: app_find_def slot_lookup_None app_ids_def)

lemma find_by_name_None: "find_by_name t nm = None \<longleftrightarrow> nm \<notin> app_names t"
  by (simp add: find_by_name_def slot_lookup_None app_names_def)

lemma slot_store_count: "slot_store lim r ss = Some ss' \<Longrightarrow> length (flatten ss') = Suc (length (flatten ss))"
  by (auto simp: slot_store_def dest: fill_first_none_count split: if_splits option.splits)

lemma install_record_frame:
  assumes "install_record b i system t = (r, t')"
  shows "app_ids t' \<subseteq> insert i (app_ids t)" "length (flatten (at_slots t')) \<le> Suc (length (flatten (at_slots t)))"
    "app_names t' \<subseteq> app_names t \<union> {nm. \<exists>hdr. parse_header b = Some hdr \<and> cstr 64 (bh_name hdr) = nm}"
proof -
  have "t' = t \<or> (\<exists>hdr ss. parse_header b = Some hdr \<and> slot_store MAX_APPS (app_record_of i system b hdr) (at_slots t) = Some ss \<and> at_slots t' = ss)"
    using assms by (auto simp: install_record_def app_insert_def split: option.splits if_splits)
  then show "app_ids t' \<subseteq> insert i (app_ids t)" "length (flatten (at_slots t')) \<le> Suc (length (flatten (at_slots t)))"
    "app_names t' \<subseteq> app_names t \<union> {nm. \<exists>hdr. parse_header b = Some hdr \<and> cstr 64 (bh_name hdr) = nm}"
    by (auto simp: app_ids_def app_names_def slot_store_set slot_store_count) (auto simp: app_record_of_def)
qed

lemma hydrate_frame:
  assumes ok: "blk_ok B sec" "reads_ok B"
  shows "\<exists>t'. fold (hydrate_entry B d) es (t, True) = (t', True) \<and> app_ids t' \<subseteq> app_ids t \<union> ce_id ` set es
    \<and> app_names t' \<subseteq> app_names t \<union> stored_names B d es \<and> length (flatten (at_slots t')) \<le> length (flatten (at_slots t)) + length es"
proof (induction es arbitrary: t)
  case (Cons e es)
  obtain b where b: "bundle_from_entry B d e = Some b" by (simp add: bundle_from_entry_def read_sectors_total [OF ok])
  obtain r t1 where t1: "install_record b (ce_id e) False t = (r, t1)" by fastforce
  have step: "hydrate_entry B d e (t, True) = (t1, True)" by (simp add: hydrate_entry_def b install_from_store_def t1)
  note f = install_record_frame [OF t1]
  obtain t' where t': "fold (hydrate_entry B d) es (t1, True) = (t', True)" "app_ids t' \<subseteq> app_ids t1 \<union> ce_id ` set es"
    "app_names t' \<subseteq> app_names t1 \<union> stored_names B d es" "length (flatten (at_slots t')) \<le> length (flatten (at_slots t1)) + length es"
    using Cons.IH by blast
  have "app_names t1 \<subseteq> app_names t \<union> stored_names B d (e # es)" using f(3) b by (force simp: stored_names_def)
  moreover have "stored_names B d es \<subseteq> stored_names B d (e # es)" by (auto simp: stored_names_def)
  ultimately have "app_names t' \<subseteq> app_names t \<union> stored_names B d (e # es)" using t'(3) by blast
  then show ?case using t' f(1,2) step by auto
qed (simp add: stored_names_def)

definition power_cycle :: "'d store \<Rightarrow> 'd store" where
  "power_cycle s = \<lparr> st_ready = False, st_next_app_id = 1, st_next_data_sector = DATA_START_SECTOR, st_disk = st_disk s \<rparr>"

lemma app_find_inserted:
  assumes "app_find t i = None" "app_insert r t = Some t'" "ar_id r = i"
  shows "app_find t' i = Some r"
  using assms slot_store_lookup [of ar_id "at_slots t" r MAX_APPS] by (auto simp: app_find_def app_insert_def)

lemma install_record_fresh:
  assumes "parse_header b = Some hdr" "i \<notin> app_ids t" "cstr 64 (bh_name hdr) \<notin> app_names t" "length (flatten (at_slots t)) < MAX_APPS"
  shows "app_find (snd (install_record b i system t)) i = Some (app_record_of i system b hdr)"
proof -
  have free: "app_find t i = None" "find_by_name t (cstr 64 (bh_name hdr)) = None"
    using assms(2,3) by (simp_all add: app_find_None find_by_name_None)
  obtain t' where t': "app_insert (app_record_of i system b hdr) t = Some t'"
    using assms(4) slot_store_full [of MAX_APPS "app_record_of i system b hdr" "at_slots t"] by (auto simp: app_insert_def)
  have "app_find t' i = Some (app_record_of i system b hdr)"
    by (rule app_find_inserted [OF free(1) t']) (simp add: app_record_of_def)
  then show ?thesis using assms(1) free t' by (simp add: install_record_def app_find_def)
qed


text \<open>A device that keeps its sectors in memory, an empty store on it, and a bundle without code.\<close>

definition mem_sector :: "(nat \<Rightarrow> bytes) \<Rightarrow> nat \<Rightarrow> bytes" where
  "mem_sector d k = take 512 (d k @ replicate 512 0)"

definition mem_blk :: "(nat \<Rightarrow> bytes) blk" where
  "mem_blk = \<lparr> bd_ready = True, bd_readonly = False, bd_rd = (\<lambda>d k. Some (mem_sector d k)), bd_wr = (\<lambda>d k b. (d(k := b), True)) \<rparr>"

definition empty_store :: "(nat \<Rightarrow> bytes) store" where
  "empty_store = \<lparr> st_ready = True, st_next_app_id = 1, st_next_data_sector = 64, st_disk = (\<lambda>k. replicate 512 0) \<rparr>"

definition small_bundle :: bytes where
  "small_bundle = OSX_MAGIC @ u32_to_le 1 @ (65 # replicate 63 0) @ replicate 40 0"

lemma mem_blk_ok: "blk_ok mem_blk mem_sector" "reads_ok mem_blk"
  by (auto simp: blk_ok_def reads_ok_def mem_blk_def mem_sector_def)

lemma mem_write: "snd (write_loop mem_blk d n s data)"
  by (induction n arbitrary: d s data) (simp_all add: mem_blk_def)

lemma mem_write_sectors: "cnt * 512 \<le> length data \<Longrightarrow> \<exists>d'. write_sectors mem_blk d s cnt data = (d', True)"
  using mem_write [of d cnt s data] by (cases "write_loop mem_blk d cnt s data") (simp add: write_sectors_def mem_blk_def)

lemma small_bundle_header: "\<exists>hdr. parse_header small_bundle = Some hdr"
proof -
  have m: "slice 0 4 small_bundle = OSX_MAGIC" using slice_field [of "[]" 0 OSX_MAGIC 4] by (simp add: small_bundle_def OSX_MAGIC_def)
  have v: "slice 4 8 small_bundle = u32_to_le 1" using slice_field [of OSX_MAGIC 4 "u32_to_le 1" 8] by (simp add: small_bundle_def OSX_MAGIC_def)
  have "slice 104 108 small_bundle = replicate 4 0"
    using slice_field [of "OSX_MAGIC @ u32_to_le 1 @ (65 # replicate 63 0) @ replicate 32 0" 104 "replicate 4 0" 108 "replicate 4 0"]
    by (simp add: small_bundle_def OSX_MAGIC_def flip: replicate_add)
  then have "from_le (slice 104 108 small_bundle) = (0 :: u32)" by (simp only: from_le_zeros)
  moreover have "length small_bundle = 112" by (simp add: small_bundle_def OSX_MAGIC_def)
  ultimately show ?thesis by (simp add: parse_header_def m v HEADER_SIZE_def Let_def)
qed

lemma empty_catalog: "catalog_on mem_sector (st_disk empty_store) = []"
proof -
  have "disk_range mem_sector (st_disk empty_store) s n = replicate (512 * n) 0" for s n
    by (induction n) (simp_all add: disk_range_def mem_sector_def empty_store_def replicate_add [symmetric] add.commute)
  then have "catalog_on mem_sector (st_disk empty_store) = catalog_entries (catalog_image (\<lambda>i. replicate 4 0) [])"
    by (simp add: catalog_on_def catalog_image_def)
  then show ?thesis using catalog_roundtrip(1) [of "[]" "\<lambda>i. replicate 4 0"] by simp
qed

lemma small_bundle_persists:
  "\<exists>s'. persist_bundle mem_blk (\<lambda>i. replicate 4 0) 7 small_bundle empty_store = (True, s')"
proof -
  obtain hdr where hdr: "parse_header small_bundle = Some hdr" using small_bundle_header by blast
  have len: "length small_bundle < 2 ^ 31" by (simp add: small_bundle_def OSX_MAGIC_def)
  let ?n = "unat (sectors_for_bytes (length small_bundle))" and ?e = "new_entry 7 small_bundle hdr 64"
  obtain d1 where d1: "write_sectors mem_blk (st_disk empty_store) 64 ?n (padded small_bundle) = (d1, True)"
    using mem_write_sectors [of ?n "padded small_bundle"] padded_bundle(1) [OF len] by auto
  have cat: "read_catalog mem_blk d1 = Some []"
    using write_sectors_range(2) [OF mem_blk_ok(1) padded_bundle(1) [OF len] d1, of 1 12] empty_catalog
    by (simp add: read_catalog_total [OF mem_blk_ok] catalog_on_def kernel_defs)
  have wf: "\<forall>e \<in> set [?e]. entry_wf e" using parse_header_lengths [OF hdr] by (simp add: entry_wf_def new_entry_def)
  obtain d2 where d2: "write_catalog mem_blk (\<lambda>i. replicate 4 0) [?e] d1 = (d2, True)"
    using mem_write_sectors [of CATALOG_SECTORS "catalog_image (\<lambda>i. replicate 4 0) [?e]"]
      catalog_roundtrip(2) [OF wf, of "\<lambda>i. replicate 4 0"] by (auto simp: write_catalog_def CATALOG_ENTRIES_def)
  have "\<exists>d3. write_superblock mem_blk (new_superblock a b c) d2 = (d3, True)" for a b c
    unfolding write_superblock_def by (rule mem_write_sectors) (simp add: superblock_bytes_def new_superblock_def STORE_MAGIC_def)
  then show ?thesis using hdr d1 cat d2
    by (simp add: persist_bundle_def Let_def CATALOG_ENTRIES_def empty_store_def split: prod.splits) (metis prod.inject)
qed


end
