(* ===== verification/Pkg_Hash.thy ===== *)
theory Pkg_Hash
  imports Complex_Main Cortex_Prelude
begin

text \<open>
  The SHA-256 implementation of the package system (\<^verbatim>\<open>kernel/src/pkg/sha256.rs\<close>): the compression
  function with its message schedule in an array, the hash with its two-stage processing of full
  blocks and a padded tail, the constant-time comparison and the hexadecimal form.  The hash is
  shown equal to an independent statement of the standard: constants derived from roots of primes,
  the message padded, split into blocks and folded.
\<close>

section \<open>The implementation\<close>

text \<open>The table of the round constants, by the rows of the source.\<close>

definition K256 :: "u32 list" where
  "K256 = concat [
     [0x428a2f98, 0x71374491, 0xb5c0fbcf, 0xe9b5dba5],
     [0x3956c25b, 0x59f111f1, 0x923f82a4, 0xab1c5ed5],
     [0xd807aa98, 0x12835b01, 0x243185be, 0x550c7dc3],
     [0x72be5d74, 0x80deb1fe, 0x9bdc06a7, 0xc19bf174],
     [0xe49b69c1, 0xefbe4786, 0x0fc19dc6, 0x240ca1cc],
     [0x2de92c6f, 0x4a7484aa, 0x5cb0a9dc, 0x76f988da],
     [0x983e5152, 0xa831c66d, 0xb00327c8, 0xbf597fc7],
     [0xc6e00bf3, 0xd5a79147, 0x06ca6351, 0x14292967],
     [0x27b70a85, 0x2e1b2138, 0x4d2c6dfc, 0x53380d13],
     [0x650a7354, 0x766a0abb, 0x81c2c92e, 0x92722c85],
     [0xa2bfe8a1, 0xa81a664b, 0xc24b8b70, 0xc76c51a3],
     [0xd192e819, 0xd6990624, 0xf40e3585, 0x106aa070],
     [0x19a4c116, 0x1e376c08, 0x2748774c, 0x34b0bcb5],
     [0x391c0cb3, 0x4ed8aa4a, 0x5b9cca4f, 0x682e6ff3],
     [0x748f82ee, 0x78a5636f, 0x84c87814, 0x8cc70208],
     [0x90befffa, 0xa4506ceb, 0xbef9a3f7, 0xc67178f2]]"

definition H0 :: "u32 list" where
  "H0 = [0x6a09e667, 0xbb67ae85, 0x3c6ef372, 0xa54ff53a, 0x510e527f, 0x9b05688c, 0x1f83d9ab, 0x5be0cd19]"

definition u32_to_be :: "u32 \<Rightarrow> bytes" where
  "u32_to_be w = rev (u32_to_le w)"

definition u64_to_be :: "u64 \<Rightarrow> bytes" where
  "u64_to_be w = rev (u64_to_le w)"

definition sha_ch :: "u32 \<Rightarrow> u32 \<Rightarrow> u32 \<Rightarrow> u32" where
  "sha_ch x y z = (x AND y) XOR (NOT x AND z)"

definition sha_maj :: "u32 \<Rightarrow> u32 \<Rightarrow> u32 \<Rightarrow> u32" where
  "sha_maj x y z = (x AND y) XOR (x AND z) XOR (y AND z)"

definition sigma0 :: "u32 \<Rightarrow> u32" where
  "sigma0 x = word_rotr 2 x XOR word_rotr 13 x XOR word_rotr 22 x"

definition sigma1 :: "u32 \<Rightarrow> u32" where
  "sigma1 x = word_rotr 6 x XOR word_rotr 11 x XOR word_rotr 25 x"

definition gamma0 :: "u32 \<Rightarrow> u32" where
  "gamma0 x = word_rotr 7 x XOR word_rotr 18 x XOR drop_bit 3 x"

definition gamma1 :: "u32 \<Rightarrow> u32" where
  "gamma1 x = word_rotr 17 x XOR word_rotr 19 x XOR drop_bit 10 x"

text \<open>The two loops that fill the array \<open>w\<close>.\<close>

definition load_words :: "bytes \<Rightarrow> u32 list \<Rightarrow> u32 list" where
  "load_words block w =
     fold (\<lambda>i w. w[i := from_le (rev [block ! (i * 4), block ! (i * 4 + 1), block ! (i * 4 + 2), block ! (i * 4 + 3)])]) [0..<16] w"

definition extend_words :: "u32 list \<Rightarrow> u32 list" where
  "extend_words w =
     fold (\<lambda>i w. w[i := gamma1 (w ! (i - 2)) + w ! (i - 7) + gamma0 (w ! (i - 15)) + w ! (i - 16)]) [16..<64] w"

type_synonym sha_vars = "u32 \<times> u32 \<times> u32 \<times> u32 \<times> u32 \<times> u32 \<times> u32 \<times> u32"

definition sha_round :: "u32 list \<Rightarrow> nat \<Rightarrow> sha_vars \<Rightarrow> sha_vars" where
  "sha_round w i = (\<lambda>(a, b, c, d, e, f, g, h).
     let t1 = h + sigma1 e + sha_ch e f g + K256 ! i + w ! i;
         t2 = sigma0 a + sha_maj a b c
     in (t1 + t2, a, b, c, d + t1, e, f, g))"

definition compress :: "u32 list \<Rightarrow> bytes \<Rightarrow> u32 list" where
  "compress state block =
     (let w = extend_words (load_words block (replicate 64 0));
          (a, b, c, d, e, f, g, h) = fold (sha_round w) [0..<64]
            (state ! 0, state ! 1, state ! 2, state ! 3, state ! 4, state ! 5, state ! 6, state ! 7)
      in [state ! 0 + a, state ! 1 + b, state ! 2 + c, state ! 3 + d,
          state ! 4 + e, state ! 5 + f, state ! 6 + g, state ! 7 + h])"

text \<open>The loop over the complete blocks; it returns the state and the offset reached.\<close>

function hash_blocks :: "bytes \<Rightarrow> u32 list \<Rightarrow> nat \<Rightarrow> u32 list \<times> nat" where
  "hash_blocks data state offset =
     (if offset + 64 \<le> length data
      then hash_blocks data (compress state (slice offset (offset + 64) data)) (offset + 64)
      else (state, offset))"
  by pat_completeness auto
termination by (relation "measure (\<lambda>(data, state, offset). length data - offset)") auto

declare hash_blocks.simps [simp del]

definition sha256_hash :: "bytes \<Rightarrow> bytes" where
  "sha256_hash data =
     (let bit_len = (of_nat (length data) :: u64) * 8;
          (state, offset) = hash_blocks data H0 0;
          remaining = length data - offset;
          last = write_at 0 (drop offset data) (replicate 128 0);
          last = last[remaining := 0x80];
          pad_blocks = (if remaining < 56 then 1 else 2);
          len_offset = pad_blocks * 64 - 8;
          last = write_at len_offset (u64_to_be bit_len) last;
          state = fold (\<lambda>i st. compress st (slice (i * 64) ((i + 1) * 64) last)) [0..<pad_blocks] state
      in concat (map u32_to_be state))"

definition hash_eq :: "bytes \<Rightarrow> bytes \<Rightarrow> bool" where
  "hash_eq a b \<longleftrightarrow> fold (\<lambda>i diff. diff OR (a ! i XOR b ! i)) [0..<32] 0 = 0"

definition HEX :: bytes where
  "HEX = map (\<lambda>c. of_nat (of_char c)) ''0123456789abcdef''"

text \<open>The first 64 bytes of the buffer are written; a shorter buffer would panic.\<close>

definition hash_hex :: "bytes \<Rightarrow> bytes \<Rightarrow> (nat \<times> bytes) option" where
  "hash_hex h buf =
     (if length buf < 2 * length h then None
      else Some (64, fold (\<lambda>i buf. buf[i * 2 := HEX ! unat (drop_bit 4 (h ! i)), i * 2 + 1 := HEX ! unat (h ! i AND 0xF)])
             [0..<length h] buf))"

section \<open>The standard\<close>

text \<open>The constants are derived as the standard derives them: the first 32 bits of the fractional parts of
  the cube roots of the first 64 primes, and of the square roots of the first eight.  Conversion to a
  32-bit word drops the integral part.\<close>

definition sha_primes :: "nat list" where
  "sha_primes = [2, 3, 5, 7, 11, 13, 17, 19, 23, 29, 31, 37, 41, 43, 47, 53, 59, 61, 67, 71, 73, 79, 83, 89, 97,
     101, 103, 107, 109, 113, 127, 131, 137, 139, 149, 151, 157, 163, 167, 173, 179, 181, 191, 193, 197, 199,
     211, 223, 227, 229, 233, 239, 241, 251, 257, 263, 269, 271, 277, 281, 283, 293, 307, 311]"

definition root_bits :: "nat \<Rightarrow> nat \<Rightarrow> u32" where
  "root_bits n p = of_int \<lfloor>root n (real p) * 2 ^ 32\<rfloor>"

definition std_K :: "u32 list" where
  "std_K = map (root_bits 3) sha_primes"

definition std_H :: "u32 list" where
  "std_H = map (root_bits 2) (take 8 sha_primes)"

text \<open>Choice and majority bit by bit, and the two families of rotations.\<close>

definition std_choose :: "u32 \<Rightarrow> u32 \<Rightarrow> u32 \<Rightarrow> u32" where
  "std_choose x y z = (x AND y) OR (NOT x AND z)"

definition std_majority :: "u32 \<Rightarrow> u32 \<Rightarrow> u32 \<Rightarrow> u32" where
  "std_majority x y z = (x AND y) OR (x AND z) OR (y AND z)"

definition rot_rot_rot :: "nat \<Rightarrow> nat \<Rightarrow> nat \<Rightarrow> u32 \<Rightarrow> u32" where
  "rot_rot_rot i j k x = word_rotr i x XOR word_rotr j x XOR word_rotr k x"

definition rot_rot_shift :: "nat \<Rightarrow> nat \<Rightarrow> nat \<Rightarrow> u32 \<Rightarrow> u32" where
  "rot_rot_shift i j k x = word_rotr i x XOR word_rotr j x XOR drop_bit k x"

text \<open>The message schedule by recursion, a round, the padded message, its blocks.\<close>

fun sha_sched :: "bytes \<Rightarrow> nat \<Rightarrow> u32" where
  "sha_sched block t =
     (if t < 16 then from_le (rev (slice (4 * t) (4 * t + 4) block))
      else rot_rot_shift 17 19 10 (sha_sched block (t - 2)) + sha_sched block (t - 7)
        + rot_rot_shift 7 18 3 (sha_sched block (t - 15)) + sha_sched block (t - 16))"

declare sha_sched.simps [simp del]

definition std_round :: "(nat \<Rightarrow> u32) \<Rightarrow> nat \<Rightarrow> sha_vars \<Rightarrow> sha_vars" where
  "std_round w t = (\<lambda>(a, b, c, d, e, f, g, h).
     let t1 = h + rot_rot_rot 6 11 25 e + std_choose e f g + std_K ! t + w t;
         t2 = rot_rot_rot 2 13 22 a + std_majority a b c
     in (t1 + t2, a, b, c, d + t1, e, f, g))"

definition std_compress :: "u32 list \<Rightarrow> bytes \<Rightarrow> u32 list" where
  "std_compress st block =
     (case fold (std_round (sha_sched block)) [0..<64] (st ! 0, st ! 1, st ! 2, st ! 3, st ! 4, st ! 5, st ! 6, st ! 7)
      of (a, b, c, d, e, f, g, h) \<Rightarrow> map2 (+) (take 8 st) [a, b, c, d, e, f, g, h])"

definition std_pad :: "bytes \<Rightarrow> bytes" where
  "std_pad m = m @ [0x80] @ replicate ((119 - length m mod 64) mod 64) 0 @ u64_to_be (of_nat (8 * length m))"

fun blocks :: "bytes \<Rightarrow> bytes list" where
  "blocks m = (if length m < 64 then [] else take 64 m # blocks (drop 64 m))"

declare blocks.simps [simp del]

definition std_sha256 :: "bytes \<Rightarrow> bytes" where
  "std_sha256 m = concat (map u32_to_be (foldl std_compress std_H (blocks (std_pad m))))"

section \<open>The implementation computes the standard hash\<close>

text \<open>A fixed-point root is checked by comparing powers of integers.\<close>

lemma root_bits_eq:
  assumes "0 < n" "r ^ n \<le> p * (2 ^ 32) ^ n" "p * (2 ^ 32) ^ n < (r + 1) ^ n"
  shows "root_bits n p = of_nat r"
proof -
  have s: "root n (real (p * (2 ^ 32) ^ n)) = root n (real p) * 2 ^ 32"
    using assms(1) by (simp add: real_root_mult real_root_power_cancel)
  have "root n (real (r ^ n)) \<le> root n (real (p * (2 ^ 32) ^ n))" using assms by (simp only: real_root_le_iff of_nat_le_iff)
  moreover have "root n (real (p * (2 ^ 32) ^ n)) < root n (real ((r + 1) ^ n))" using assms by (simp only: real_root_less_iff of_nat_less_iff)
  ultimately have "real r \<le> root n (real p) * 2 ^ 32" "root n (real p) * 2 ^ 32 < real r + 1"
    unfolding s using assms(1) by (simp_all add: real_root_power_cancel add.commute)
  then have "\<lfloor>root n (real p) * 2 ^ 32\<rfloor> = int r" by (intro floor_unique) simp_all
  then show ?thesis by (simp add: root_bits_def)
qed

lemma root_bits_map:
  assumes "0 < n" "list_all2 (\<lambda>p r. r ^ n \<le> p * (2 ^ 32) ^ n \<and> p * (2 ^ 32) ^ n < (r + 1) ^ n) ps rs"
  shows "map (root_bits n) ps = map of_nat rs"
  using assms(2) by (induction) (simp_all add: root_bits_eq assms(1))

text \<open>The integral parts of the cube roots.\<close>

definition cube_parts :: "nat list" where
  "cube_parts = [1, 1, 1, 1, 2, 2, 2, 2, 2, 3, 3, 3, 3, 3, 3, 3, 3, 3, 4, 4, 4, 4, 4, 4, 4, 4, 4, 4, 4, 4, 5, 5,
     5, 5, 5, 5, 5, 5, 5, 5, 5, 5, 5, 5, 5, 5, 5, 6, 6, 6, 6, 6, 6, 6, 6, 6, 6, 6, 6, 6, 6, 6, 6, 6]"

lemma std_K_table: "std_K = K256"
proof -
  let ?rs = "map2 (\<lambda>i k. i * 2 ^ 32 + unat k) cube_parts K256"
  have "std_K = map of_nat ?rs"
    unfolding std_K_def by (rule root_bits_map) (simp_all add: sha_primes_def cube_parts_def K256_def)
  also have "\<dots> = K256" by (simp add: cube_parts_def K256_def)
  finally show ?thesis .
qed

lemma std_H_table: "std_H = H0"
proof -
  let ?rs = "map2 (\<lambda>i k. i * 2 ^ 32 + unat k) [1, 1, 2, 2, 3, 3, 4, 4] H0"
  have "std_H = map of_nat ?rs"
    unfolding std_H_def by (rule root_bits_map) (simp_all add: sha_primes_def H0_def)
  also have "\<dots> = H0" by (simp add: H0_def)
  finally show ?thesis .
qed

lemma std_functions:
  "std_choose = sha_ch" "std_majority = sha_maj" "rot_rot_rot 6 11 25 = sigma1" "rot_rot_rot 2 13 22 = sigma0"
  "rot_rot_shift 17 19 10 = gamma1" "rot_rot_shift 7 18 3 = gamma0"
  by (auto simp: fun_eq_iff std_choose_def sha_ch_def std_majority_def sha_maj_def rot_rot_rot_def rot_rot_shift_def
      sigma0_def sigma1_def gamma0_def gamma1_def bit_eq_iff bit_simps)

lemma std_rounds:
  "fold (std_round f) [0..<64] v = fold (sha_round (map f [0..<64])) [0..<64] v"
  by (intro fold_cong) (auto simp: std_round_def sha_round_def std_functions std_K_table)

lemmas sha_sched_rec = sha_sched.simps [unfolded std_functions]

lemma fold_fill:
  "n \<le> length w \<Longrightarrow> fold (\<lambda>i w. w[i := f i]) [0..<n] w = map f [0..<n] @ drop n w"
proof (induction n)
  case (Suc n)
  have "drop n w = w ! n # drop (Suc n) w" using Suc.prems by (simp add: Cons_nth_drop_Suc)
  then show ?case using Suc by (simp add: list_update_append)
qed simp

lemma slice_four:
  assumes "4 * i + 4 \<le> length b"
  shows "slice (4 * i) (4 * i + 4) b = [b ! (i * 4), b ! (i * 4 + 1), b ! (i * 4 + 2), b ! (i * 4 + 3)]"
proof (rule nth_equalityI)
  fix j assume "j < length (slice (4 * i) (4 * i + 4) b)"
  then consider "j = 0" | "j = 1" | "j = 2" | "j = 3" using assms by (fastforce simp: slice_def)
  then show "slice (4 * i) (4 * i + 4) b ! j = [b ! (i * 4), b ! (i * 4 + 1), b ! (i * 4 + 2), b ! (i * 4 + 3)] ! j"
    using assms by cases (simp_all add: slice_def mult.commute)
qed (use assms in \<open>simp add: slice_def\<close>)

lemma load_words_eq:
  assumes "length block = 64"
  shows "load_words block (replicate 64 0) = map (sha_sched block) [0..<16] @ replicate 48 0"
proof -
  have "from_le (rev [block ! (i * 4), block ! (i * 4 + 1), block ! (i * 4 + 2), block ! (i * 4 + 3)]) = sha_sched block i" if "i < 16" for i
    using that slice_four [of i block] assms by (subst sha_sched_rec) simp
  then have "map (\<lambda>i. from_le (rev [block ! (i * 4), block ! (i * 4 + 1), block ! (i * 4 + 2), block ! (i * 4 + 3)])) [0..<16]
      = map (sha_sched block) [0..<16]"
    by (intro map_cong) auto
  then show ?thesis unfolding load_words_def by (subst fold_fill) simp_all
qed

lemma extend_words_eq: "extend_words (map (sha_sched block) [0..<16] @ replicate 48 0) = map (sha_sched block) [0..<64]"
proof -
  let ?f = "\<lambda>i w. w[i := gamma1 (w ! (i - 2)) + w ! (i - 7) + gamma0 (w ! (i - 15)) + w ! (i - 16)]"
  let ?s = "sha_sched block"
  have "fold ?f [16..<n] (map ?s [0..<16] @ replicate 48 0) = map ?s [0..<n] @ replicate (64 - n) 0" if "16 \<le> n" "n \<le> 64" for n
    using that
  proof (induction n rule: dec_induct)
    case (step n)
    let ?w = "map ?s [0..<n] @ replicate (64 - n) (0 :: u32)"
    have at: "?w ! (n - k) = ?s (n - k)" if "0 < k" "k \<le> 16" for k
      using that step by (simp add: nth_append)
    have "?s n = gamma1 (?s (n - 2)) + ?s (n - 7) + gamma0 (?s (n - 15)) + ?s (n - 16)"
      using step by (subst sha_sched_rec) simp
    then have "?f n ?w = ?w[n := ?s n]" by (simp add: at)
    also have "replicate (64 - n) (0 :: u32) = 0 # replicate (64 - Suc n) 0" using step by (cases "64 - n") auto
    then have "?w[n := ?s n] = map ?s [0..<Suc n] @ replicate (64 - Suc n) 0" by (simp add: list_update_append)
    finally show ?case using step by (simp add: upt_Suc_append del: upt_Suc)
  qed simp
  from this [OF _ order_refl] show ?thesis
    unfolding extend_words_def by (simp only: diff_self_eq_0 replicate_0 append_Nil2)
qed

lemma compress_eq:
  assumes "length block = 64" "length st = 8"
  shows "compress st block = std_compress st block"
proof -
  obtain a b c d e f g h where r: "fold (sha_round (map (sha_sched block) [0..<64])) [0..<64]
      (st ! 0, st ! 1, st ! 2, st ! 3, st ! 4, st ! 5, st ! 6, st ! 7) = (a, b, c, d, e, f, g, h)" by (metis prod.collapse)
  have st: "take 8 st = [st ! 0, st ! 1, st ! 2, st ! 3, st ! 4, st ! 5, st ! 6, st ! 7]"
    using assms(2) by (auto simp: numeral_eq_Suc length_Suc_conv)
  show ?thesis
    unfolding compress_def load_words_eq [OF assms(1)] extend_words_eq std_compress_def Let_def std_rounds r
    by (simp add: st)
qed

lemma length_std_compress: "length st = 8 \<Longrightarrow> length (std_compress st block) = 8"
  by (simp add: std_compress_def split: prod.splits)

lemma blocks_short: "length m < 64 \<Longrightarrow> blocks m = []"
  by (subst blocks.simps) simp

lemma blocks_step: "64 \<le> length m \<Longrightarrow> blocks m = take 64 m # blocks (drop 64 m)"
  by (subst blocks.simps) simp

lemma blocks_append: "length m = 64 * k \<Longrightarrow> blocks (m @ r) = blocks m @ blocks r"
proof (induction k arbitrary: m)
  case (Suc k)
  then show ?case by (simp add: blocks_step)
qed (simp add: blocks_short)

lemma hash_blocks_eq:
  assumes "length state = 8" "64 * k \<le> length data - offset" "length data - offset < 64 * k + 64" "offset \<le> length data"
  shows "hash_blocks data state offset = (foldl std_compress state (blocks (take (64 * k) (drop offset data))), offset + 64 * k)"
  using assms
proof (induction k arbitrary: state offset)
  case 0
  then show ?case by (subst hash_blocks.simps) (auto simp: blocks_short)
next
  case (Suc k)
  let ?b = "slice offset (offset + 64) data"
  have c: "compress state ?b = std_compress state ?b" using Suc.prems by (intro compress_eq) (simp_all add: slice_def)
  have "take (64 * Suc k) (drop offset data) = ?b @ take (64 * k) (drop (offset + 64) data)"
    by (simp add: slice_def take_add add.commute)
  moreover have "length ?b = 64 * 1" using Suc.prems by (simp add: slice_def)
  ultimately have bl: "blocks (take (64 * Suc k) (drop offset data)) = ?b # blocks (take (64 * k) (drop (offset + 64) data))"
    using blocks_append [of ?b 1] by (simp add: blocks_step blocks_short)
  have "offset + 64 \<le> length data" using Suc.prems(2,4) by (simp add: le_diff_conv2)
  then have "hash_blocks data state offset = hash_blocks data (std_compress state ?b) (offset + 64)"
    by (subst hash_blocks.simps) (simp add: c)
  also have "\<dots> = (foldl std_compress (std_compress state ?b) (blocks (take (64 * k) (drop (offset + 64) data))), offset + 64 + 64 * k)"
    using Suc.prems by (intro Suc.IH) (auto simp: length_std_compress)
  finally show ?case unfolding bl by simp
qed

lemma last_buffer:
  assumes "length r + 9 \<le> n" "n \<le> 128" "length l = 8"
  shows "take n (write_at (n - 8) l ((write_at 0 r (replicate 128 0))[length r := 0x80]))
    = r @ [0x80] @ replicate (n - 9 - length r) 0 @ (l :: bytes)"
proof -
  have "(write_at 0 r (replicate 128 0))[length r := 0x80] = r @ 0x80 # replicate (127 - length r) (0 :: u8)"
  proof -
    have "replicate (128 - length r) (0 :: u8) = 0 # replicate (127 - length r) 0"
      using assms by (simp add: Suc_diff_le [symmetric] flip: replicate_Suc)
    then show ?thesis by (simp add: write_at_def list_update_append)
  qed
  moreover have "take (n - 8) (r @ 0x80 # replicate (127 - length r) 0) = r @ [0x80] @ replicate (n - 9 - length r) (0 :: u8)"
  proof -
    have "n - 8 - length r = Suc (n - 9 - length r)" using assms by linarith
    then show ?thesis using assms by simp
  qed
  ultimately have "write_at (n - 8) l ((write_at 0 r (replicate 128 0))[length r := 0x80])
      = (r @ [0x80] @ replicate (n - 9 - length r) 0 @ l) @ drop n (r @ 0x80 # replicate (127 - length r) 0)"
    using assms by (simp add: write_at_def)
  moreover have "length (r @ [0x80] @ replicate (n - 9 - length r) 0 @ l) = n" using assms by simp
  ultimately show ?thesis by (metis append_eq_conv_conj)
qed

lemma pad_tail:
  assumes "length r < 64"
  shows "(119 - length r) mod 64 = (if length r < 56 then 55 - length r else 119 - length r)"
proof (cases "length r < 56")
  case True
  then have "119 - length r = (55 - length r) + 64" by linarith
  then have "(119 - length r) mod 64 = (55 - length r) mod 64" by (metis mod_add_self2)
  then show ?thesis using True by simp
next
  case False
  then show ?thesis using assms by simp
qed

lemma length_u64_to_be [simp]: "length (u64_to_be w) = 8"
  by (simp add: u64_to_be_def)

lemma foldl_compress_length: "length st = 8 \<Longrightarrow> length (foldl std_compress st bs) = 8"
  by (induction bs arbitrary: st) (simp_all add: length_std_compress)

lemma sha256_hash_std: "sha256_hash data = std_sha256 data"
proof -
  define k where "k = length data div 64"
  define r where "r = drop (64 * k) data"
  define l where "l = u64_to_be (of_nat (8 * length data))"
  define p where "p = (if length r < 56 then 1 else 2 :: nat)"
  define buf where "buf = write_at (p * 64 - 8) l ((write_at 0 r (replicate 128 0))[length r := 0x80])"
  define st where "st = foldl std_compress H0 (blocks (take (64 * k) data))"
  have k: "64 * k \<le> length data" "length data < 64 * k + 64" and r: "length r = length data mod 64" "length r < 64"
    by (auto simp: k_def r_def minus_mult_div_eq_mod)
  have st: "hash_blocks data H0 0 = (st, 64 * k)" "length st = 8"
    using hash_blocks_eq [of H0 k data 0] k by (auto simp: st_def H0_def foldl_compress_length)
  have bl: "of_nat (length data) * 8 = (of_nat (8 * length data) :: u64)" by simp
  have tail: "take (p * 64) buf = r @ [0x80] @ replicate ((119 - length r) mod 64) 0 @ l"
    unfolding buf_def using r(2) last_buffer [of r "p * 64" l] by (auto simp: p_def l_def pad_tail)
  have buf_len: "length buf = 128" using r(2) by (simp add: buf_def l_def p_def write_at_def)
  have "sha256_hash data = concat (map u32_to_be (fold (\<lambda>i st. compress st (slice (i * 64) ((i + 1) * 64) buf)) [0..<p] st))"
    using k(1) by (simp add: sha256_hash_def st bl Let_def buf_def p_def l_def r_def)
  also have "fold (\<lambda>i st. compress st (slice (i * 64) ((i + 1) * 64) buf)) [0..<p] st = foldl std_compress st (blocks (take (p * 64) buf))"
  proof (cases "p = 1")
    case True
    have "compress st (slice 0 64 buf) = std_compress st (take 64 buf)"
      using compress_eq [of "take 64 buf" st] st(2) buf_len by (simp add: slice_def)
    then show ?thesis using True buf_len by (simp add: blocks_step blocks_short)
  next
    case False
    then have p: "p = 2" by (simp add: p_def split: if_splits)
    have b1: "compress st (slice 0 64 buf) = std_compress st (take 64 buf)"
      using compress_eq [of "take 64 buf" st] st(2) buf_len by (simp add: slice_def)
    have b2: "compress st' (slice 64 128 buf) = std_compress st' (drop 64 buf)" if "length st' = 8" for st'
      using compress_eq [of "drop 64 buf" st'] that buf_len by (simp add: slice_def)
    have "blocks (take (p * 64) buf) = [take 64 buf, drop 64 buf]"
      using p buf_len by (simp add: blocks_step blocks_short)
    then show ?thesis using p st(2) by (simp add: b1 b2 length_std_compress numeral_2_eq_2)
  qed
  also have "\<dots> = foldl std_compress H0 (blocks (take (64 * k) data) @ blocks (take (p * 64) buf))"
    by (simp add: st_def)
  also have "blocks (take (64 * k) data) @ blocks (take (p * 64) buf) = blocks (std_pad data)"
  proof -
    have split: "data @ y = take (64 * k) data @ r @ y" for y by (simp add: r_def flip: append_assoc)
    have pad: "std_pad data = take (64 * k) data @ take (p * 64) buf"
      unfolding std_pad_def tail r(1) l_def by (rule split)
    have "length (take (64 * k) data) = 64 * k" using k(1) by simp
    from blocks_append [OF this] show ?thesis unfolding pad by (rule sym)
  qed
  finally show ?thesis by (simp add: std_sha256_def std_H_table)
qed

text \<open>C31.  The hash that authenticates packages is SHA-256: for every input the two-stage implementation
  computes the standard function, i.e. the message padded with one bit, zeros and its bit length, cut into
  blocks of 64 bytes and folded through the compression function with the recursive message schedule, with
  the constants as the leading fractional bits of the square and cube roots of the first primes.\<close>

theorem sha256_hash_standard: "sha256_hash data = std_sha256 data"
  by (rule sha256_hash_std)

lemma length_u32_to_be [simp]: "length (u32_to_be w) = 4"
  by (simp add: u32_to_be_def)

lemma length_sha256_hash [simp]: "length (sha256_hash data) = 32"
proof -
  define st where "st = foldl std_compress H0 (blocks (std_pad data))"
  have "length st = 8" unfolding st_def by (rule foldl_compress_length) (simp add: H0_def)
  then have "length (concat (map u32_to_be st)) = 32" by (simp add: length_concat comp_def sum_list_triv)
  then show ?thesis unfolding sha256_hash_std std_sha256_def std_H_table st_def .
qed

lemma diff_fold:
  "(fold (\<lambda>i diff. diff OR (a ! i XOR b ! i)) [0..<n] (0 :: u8) = 0) = (\<forall>i < n. a ! i = b ! i)"
proof (induction n)
  case (Suc n)
  have "(x OR y = 0) = (x = 0 \<and> y = 0)" for x y :: u8 by (auto simp: bit_eq_iff bit_simps)
  moreover have "(x XOR y = 0) = (x = y)" for x y :: u8 by (auto simp: bit_eq_iff bit_simps)
  ultimately show ?case using Suc by (auto simp: less_Suc_eq)
qed simp

lemma hash_eq_iff: "length a = 32 \<Longrightarrow> length b = 32 \<Longrightarrow> hash_eq a b = (a = b)"
  unfolding hash_eq_def diff_fold by (auto intro: nth_equalityI)

end
