(* ===== verification/Rust_Str.thy ===== *)
theory Rust_Str
  imports Cortex_Prelude
begin

text \<open>
  The string functions of the Rust standard library that the kernel parses text with.  A \<^verbatim>\<open>&str\<close> is
  the list of its code points, obtained from bytes by the strict UTF-8 decoder; its \<^verbatim>\<open>len()\<close> is
  the number of bytes.  Slicing at a byte offset inside a character panics, which is
  \<^const>\<open>None\<close> here.
\<close>

type_synonym str = "nat list"

definition ascii :: "string \<Rightarrow> str" where
  "ascii s = map of_char s"

definition ascii_bytes :: "string \<Rightarrow> bytes" where
  "ascii_bytes s = map (\<lambda>c. of_nat (of_char c)) s"

section \<open>UTF-8\<close>

definition cont :: "nat \<Rightarrow> bool" where
  "cont b \<longleftrightarrow> 0x80 \<le> b \<and> b \<le> 0xBF"

text \<open>The first bytes of the well-formed sequences, with the range of the second byte.\<close>

definition second_ok :: "nat \<Rightarrow> nat \<Rightarrow> bool" where
  "second_ok b0 b1 \<longleftrightarrow>
     (if b0 = 0xE0 then 0xA0 \<le> b1 \<and> b1 \<le> 0xBF
      else if b0 = 0xED then 0x80 \<le> b1 \<and> b1 \<le> 0x9F
      else if b0 = 0xF0 then 0x90 \<le> b1 \<and> b1 \<le> 0xBF
      else if b0 = 0xF4 then 0x80 \<le> b1 \<and> b1 \<le> 0x8F
      else cont b1)"

fun utf8_points :: "nat list \<Rightarrow> str option" where
  "utf8_points [] = Some []"
| "utf8_points (b0 # bs) =
     (if b0 < 0x80 then map_option ((#) b0) (utf8_points bs)
      else if 0xC2 \<le> b0 \<and> b0 \<le> 0xDF then
        (case bs of b1 # bs' \<Rightarrow>
           if cont b1 then map_option ((#) ((b0 - 0xC0) * 64 + (b1 - 0x80))) (utf8_points bs') else None
         | _ \<Rightarrow> None)
      else if 0xE0 \<le> b0 \<and> b0 \<le> 0xEF then
        (case bs of b1 # b2 # bs' \<Rightarrow>
           if second_ok b0 b1 \<and> cont b2
           then map_option ((#) ((b0 - 0xE0) * 4096 + (b1 - 0x80) * 64 + (b2 - 0x80))) (utf8_points bs') else None
         | _ \<Rightarrow> None)
      else if 0xF0 \<le> b0 \<and> b0 \<le> 0xF4 then
        (case bs of b1 # b2 # b3 # bs' \<Rightarrow>
           if second_ok b0 b1 \<and> cont b2 \<and> cont b3
           then map_option ((#) ((b0 - 0xF0) * 262144 + (b1 - 0x80) * 4096 + (b2 - 0x80) * 64 + (b3 - 0x80))) (utf8_points bs')
           else None
         | _ \<Rightarrow> None)
      else None)"

definition from_utf8 :: "bytes \<Rightarrow> str option" where
  "from_utf8 bs = utf8_points (map unat bs)"

definition char_len :: "nat \<Rightarrow> nat" where
  "char_len c = (if c < 0x80 then 1 else if c < 0x800 then 2 else if c < 0x10000 then 3 else 4)"

definition str_len :: "str \<Rightarrow> nat" where
  "str_len s = sum_list (map char_len s)"

text \<open>\<^verbatim>\<open>as_bytes\<close>.\<close>

definition char_bytes :: "nat \<Rightarrow> nat list" where
  "char_bytes c =
     (if c < 0x80 then [c]
      else if c < 0x800 then [0xC0 + c div 64, 0x80 + c mod 64]
      else if c < 0x10000 then [0xE0 + c div 4096, 0x80 + c div 64 mod 64, 0x80 + c mod 64]
      else [0xF0 + c div 262144, 0x80 + c div 4096 mod 64, 0x80 + c div 64 mod 64, 0x80 + c mod 64])"

definition str_bytes :: "str \<Rightarrow> bytes" where
  "str_bytes s = map of_nat (concat (map char_bytes s))"

text \<open>\<^verbatim>\<open>(&s[..n], &s[n..])\<close>, or a panic when \<open>n\<close> is not a character boundary.\<close>

primrec split_at_byte :: "str \<Rightarrow> nat \<Rightarrow> (str \<times> str) option" where
  "split_at_byte [] n = (if n = 0 then Some ([], []) else None)"
| "split_at_byte (c # s) n =
     (if n = 0 then Some ([], c # s)
      else if n < char_len c then None
      else map_option (\<lambda>(a, b). (c # a, b)) (split_at_byte s (n - char_len c)))"

section \<open>Lines, words and numbers\<close>

text \<open>\<^verbatim>\<open>split_inclusive('\n')\<close>, then the line ending is removed.\<close>

primrec split_lines :: "str \<Rightarrow> str list" where
  "split_lines [] = []"
| "split_lines (c # s) =
     (if c = 10 then [c] # split_lines s
      else case split_lines s of [] \<Rightarrow> [[c]] | l # ls \<Rightarrow> (c # l) # ls)"

definition strip_suffix :: "nat \<Rightarrow> str \<Rightarrow> str option" where
  "strip_suffix c l = (if l \<noteq> [] \<and> last l = c then Some (butlast l) else None)"

definition strip_eol :: "str \<Rightarrow> str" where
  "strip_eol l = (case strip_suffix 10 l of None \<Rightarrow> l | Some l1 \<Rightarrow> (case strip_suffix 13 l1 of None \<Rightarrow> l1 | Some l2 \<Rightarrow> l2))"

definition str_lines :: "str \<Rightarrow> str list" where
  "str_lines s = map strip_eol (split_lines s)"

definition is_whitespace :: "nat \<Rightarrow> bool" where
  "is_whitespace c \<longleftrightarrow> (9 \<le> c \<and> c \<le> 13) \<or> c = 0x20 \<or> c = 0x85 \<or> c = 0xA0 \<or> c = 0x1680 \<or> (0x2000 \<le> c \<and> c \<le> 0x200A)
     \<or> c = 0x2028 \<or> c = 0x2029 \<or> c = 0x202F \<or> c = 0x205F \<or> c = 0x3000"

definition trim :: "str \<Rightarrow> str" where
  "trim s = rev (dropWhile is_whitespace (rev (dropWhile is_whitespace s)))"

function split_whitespace :: "str \<Rightarrow> str list" where
  "split_whitespace s =
     (let s1 = dropWhile is_whitespace s in
      if s1 = [] then [] else takeWhile (\<lambda>c. \<not> is_whitespace c) s1 # split_whitespace (dropWhile (\<lambda>c. \<not> is_whitespace c) s1))"
  by pat_completeness auto
termination
proof (relation "measure length")
  fix s s1 :: str
  assume s1: "s1 = dropWhile is_whitespace s" "s1 \<noteq> []"
  then have "\<not> is_whitespace (hd s1)" using hd_dropWhile by metis
  then have "length (dropWhile (\<lambda>c. \<not> is_whitespace c) s1) < length s1"
    using s1(2) by (cases s1) (auto simp: le_imp_less_Suc length_dropWhile_le)
  also have "length s1 \<le> length s" by (simp add: s1(1) length_dropWhile_le)
  finally show "(dropWhile (\<lambda>c. \<not> is_whitespace c) s1, s) \<in> measure length" by simp
qed simp

declare split_whitespace.simps [simp del]

definition to_ascii_lower :: "nat \<Rightarrow> nat" where
  "to_ascii_lower c = (if 65 \<le> c \<and> c \<le> 90 then c + 32 else c)"

definition eq_ignore_ascii_case :: "str \<Rightarrow> str \<Rightarrow> bool" where
  "eq_ignore_ascii_case a b \<longleftrightarrow> map to_ascii_lower a = map to_ascii_lower b"

text \<open>\<^verbatim>\<open>parse::<uN>()\<close>: decimal digits after an optional plus sign, failing on overflow.\<close>

primrec parse_digits :: "nat \<Rightarrow> nat \<Rightarrow> str \<Rightarrow> nat option" where
  "parse_digits bound acc [] = Some acc"
| "parse_digits bound acc (c # s) =
     (if 48 \<le> c \<and> c \<le> 57 \<and> acc * 10 + (c - 48) < bound then parse_digits bound (acc * 10 + (c - 48)) s else None)"

definition parse_unsigned :: "nat \<Rightarrow> str \<Rightarrow> nat option" where
  "parse_unsigned w s =
     (let ds = (if s \<noteq> [] \<and> hd s = 43 \<and> tl s \<noteq> [] then tl s else s) in
      if ds = [] then None else parse_digits (2 ^ w) 0 ds)"

text \<open>Formatting an unsigned number in decimal.\<close>

fun show_nat :: "nat \<Rightarrow> str" where
  "show_nat n = (if n < 10 then [48 + n] else show_nat (n div 10) @ [48 + n mod 10])"

declare show_nat.simps [simp del]

section \<open>Lemmas\<close>

lemma parse_digits_append:
  "parse_digits bound acc (a @ b) = Option.bind (parse_digits bound acc a) (\<lambda>v. parse_digits bound v b)"
  by (induction a arbitrary: acc) auto

lemma parse_show_digits: "n < bound \<Longrightarrow> parse_digits bound 0 (show_nat n) = Some n"
proof (induction n rule: show_nat.induct)
  case (1 n)
  show ?case
  proof (cases "n < 10")
    case False
    then have "parse_digits bound 0 (show_nat (n div 10)) = Some (n div 10)" using 1 by simp
    then show ?thesis using False "1.prems" by (subst show_nat.simps) (simp add: parse_digits_append)
  qed (use 1 in \<open>simp add: show_nat.simps\<close>)
qed

lemma show_nat_digits: "c \<in> set (show_nat n) \<Longrightarrow> 48 \<le> c \<and> c \<le> 57"
proof (induction n rule: show_nat.induct)
  case (1 n)
  then show ?case by (subst (asm) (2) show_nat.simps) (auto split: if_splits)
qed

lemma length_show_nat: "length (show_nat n) \<le> Suc n"
proof (induction n rule: show_nat.induct)
  case (1 n)
  show ?case
  proof (cases "n < 10")
    case False
    then have "length (show_nat (n div 10)) \<le> Suc (n div 10)" by (rule 1)
    moreover have "Suc (n div 10) \<le> n" using False by simp
    ultimately show ?thesis using False by (subst show_nat.simps) simp
  qed (subst show_nat.simps, simp)
qed

lemma show_nat_not_empty [simp]: "show_nat n \<noteq> []"
  by (subst show_nat.simps) simp

text \<open>Decimal text is read back.\<close>

lemma parse_show: "n < 2 ^ w \<Longrightarrow> parse_unsigned w (show_nat n) = Some n"
  using show_nat_digits [of "hd (show_nat n)" n] hd_in_set [OF show_nat_not_empty [of n]]
  by (auto simp: parse_unsigned_def parse_show_digits)

lemma parse_digits_bound: "acc < bound \<Longrightarrow> parse_digits bound acc s = Some v \<Longrightarrow> v < bound"
  by (induction s arbitrary: acc) (auto split: if_splits)

lemma parse_unsigned_bound: "parse_unsigned w s = Some v \<Longrightarrow> v < 2 ^ w"
  by (auto simp: parse_unsigned_def Let_def split: if_splits dest: parse_digits_bound [rotated])

end
