(* ===== verification/Pkg_Catalog.thy ===== *)
theory Pkg_Catalog
  imports App_Store Pkg_Hash Rust_Str
begin

text \<open>
  The package catalog (\<^verbatim>\<open>kernel/src/pkg/manifest.rs\<close>), a count followed by manifests of 128 bytes,
  and the cache of installed packages (\<^verbatim>\<open>kernel/src/pkg/cache.rs\<close>) with its replacement of the
  least recently used entry that is not pinned.
\<close>

section \<open>Manifests\<close>

definition MANIFEST_SIZE :: nat where [kernel_defs]: "MANIFEST_SIZE = 128"
definition FLAG_SYSTEM :: u32 where [kernel_defs]: "FLAG_SYSTEM = 1"

record pkg_manifest =
  pm_name :: bytes
  pm_version :: bytes
  pm_hash :: bytes
  pm_size_bytes :: u32
  pm_flags :: u32
  pm_reserved :: bytes

definition manifest_name_str :: "pkg_manifest \<Rightarrow> str" where
  "manifest_name_str m = (case from_utf8 (cstr 64 (pm_name m)) of Some s \<Rightarrow> s | None \<Rightarrow> ascii ''<invalid>'')"

definition manifest_version_str :: "pkg_manifest \<Rightarrow> str" where
  "manifest_version_str m = (case from_utf8 (cstr 16 (pm_version m)) of Some s \<Rightarrow> s | None \<Rightarrow> ascii ''?'')"

definition is_system :: "pkg_manifest \<Rightarrow> bool" where
  "is_system m \<longleftrightarrow> pm_flags m AND FLAG_SYSTEM \<noteq> 0"

definition manifest_of :: "bytes \<Rightarrow> pkg_manifest" where
  "manifest_of b = \<lparr> pm_name = slice 0 64 b, pm_version = slice 64 80 b, pm_hash = slice 80 112 b,
     pm_size_bytes = from_le (slice 112 116 b), pm_flags = from_le (slice 116 120 b), pm_reserved = slice 120 128 b \<rparr>"

definition manifest_bytes :: "pkg_manifest \<Rightarrow> bytes" where
  "manifest_bytes m = pm_name m @ pm_version m @ pm_hash m @ u32_to_le (pm_size_bytes m) @ u32_to_le (pm_flags m) @ pm_reserved m"

definition parse_catalog :: "bytes \<Rightarrow> pkg_manifest list option" where
  "parse_catalog data =
     (if length data < 4 then None
      else
        let cnt = unat (from_le (slice 0 4 data) :: u32) in
        if length data < 4 + cnt * MANIFEST_SIZE then None
        else Some (map (\<lambda>i. manifest_of (drop (4 + i * MANIFEST_SIZE) data)) [0..<cnt]))"

definition serialize_catalog :: "pkg_manifest list \<Rightarrow> bytes" where
  "serialize_catalog entries = u32_to_le (of_nat (length entries)) @ concat (map manifest_bytes entries)"

definition manifest_wf :: "pkg_manifest \<Rightarrow> bool" where
  "manifest_wf m \<longleftrightarrow> length (pm_name m) = 64 \<and> length (pm_version m) = 16 \<and> length (pm_hash m) = 32 \<and> length (pm_reserved m) = 8"

lemma manifest_of_bytes:
  assumes "manifest_wf m"
  shows "manifest_of (manifest_bytes m @ x) = m" "length (manifest_bytes m) = 128"
proof -
  note l = assms [unfolded manifest_wf_def]
  let ?n = "pm_name m" and ?v = "pm_version m" and ?h = "pm_hash m" and ?s = "u32_to_le (pm_size_bytes m)"
    and ?f = "u32_to_le (pm_flags m)" and ?r = "pm_reserved m"
  let ?b = "manifest_bytes m @ x"
  have b: "?b = ?n @ ?v @ ?h @ ?s @ ?f @ ?r @ x" by (simp add: manifest_bytes_def)
  have "slice 0 64 ?b = ?n" using slice_field [of "[]" 0 ?n 64] l by (simp add: b)
  moreover have "slice 64 80 ?b = ?v" using slice_field [of ?n 64 ?v 80] l by (simp add: b)
  moreover have "slice 80 112 ?b = ?h" using slice_field [of "?n @ ?v" 80 ?h 112] l by (simp add: b)
  moreover have "slice 112 116 ?b = ?s" using slice_field [of "?n @ ?v @ ?h" 112 ?s 116] l by (simp add: b)
  moreover have "slice 116 120 ?b = ?f" using slice_field [of "?n @ ?v @ ?h @ ?s" 116 ?f 120] l by (simp add: b)
  moreover have "slice 120 128 ?b = ?r" using slice_field [of "?n @ ?v @ ?h @ ?s @ ?f" 120 ?r 128] l by (simp add: b)
  ultimately show "manifest_of ?b = m" by (simp add: manifest_of_def)
  show "length (manifest_bytes m) = 128" using l by (simp add: manifest_bytes_def)
qed

lemma manifest_of_wf: "128 \<le> length b \<Longrightarrow> manifest_wf (manifest_of b)"
  by (simp add: manifest_wf_def manifest_of_def slice_def)

lemma parse_catalog_wf: "parse_catalog data = Some ms \<Longrightarrow> m \<in> set ms \<Longrightarrow> manifest_wf m"
proof -
  assume p: "parse_catalog data = Some ms" and m: "m \<in> set ms"
  define cnt where "cnt = unat (from_le (slice 0 4 data) :: u32)"
  obtain i where c: "4 + cnt * 128 \<le> length data" "i < cnt" "m = manifest_of (drop (4 + i * 128) data)"
    using p m by (auto simp: parse_catalog_def Let_def MANIFEST_SIZE_def cnt_def [symmetric] split: if_splits)
  have "i * 128 + 128 \<le> cnt * 128" using c(2) by linarith
  then show ?thesis using c by (auto intro: manifest_of_wf)
qed

lemma length_serialize:
  assumes "\<forall>m \<in> set ms. manifest_wf m"
  shows "length (serialize_catalog ms) = 4 + length ms * 128"
  using assms by (induction ms) (simp_all add: serialize_catalog_def manifest_of_bytes(2))

lemma serialize_count:
  assumes "length ms < 2 ^ 32" "4 \<le> n"
  shows "from_le (slice 0 4 (take n (serialize_catalog ms @ rest))) = (of_nat (length ms) :: u32)"
    "unat (of_nat (length ms) :: u32) = length ms"
  using assms by (simp_all add: slice_def serialize_catalog_def unat_of_nat)

lemma parse_serialized:
  assumes "\<forall>m \<in> set ms. manifest_wf m" "length ms < 2 ^ 32"
  shows "parse_catalog (serialize_catalog ms @ rest) = Some ms"
proof -
  let ?f = "\<lambda>i. manifest_bytes (ms ! i)" and ?n = "length ms" and ?d = "serialize_catalog ms @ rest"
  have f: "\<forall>i < ?n. length (?f i) = 128" using assms(1) manifest_of_bytes(2) by simp
  have body: "concat (map manifest_bytes ms) = concat (map ?f [0..<?n])"
    by (rule arg_cong [where f = concat]) (auto intro: nth_equalityI)
  have blen: "length (concat (map ?f [0..<?n])) = ?n * 128" by (rule length_blocks) (rule f)
  have at: "manifest_of (drop (4 + i * 128) ?d) = ms ! i" if i: "i < ?n" for i
  proof -
    have "drop (4 + i * 128) ?d = concat (map ?f [i..<?n]) @ rest"
      using drop_blocks [OF f, of i] i blen by (simp add: serialize_catalog_def body)
    also have "\<dots> = ?f i @ concat (map ?f [Suc i..<?n]) @ rest" using i by (simp add: upt_conv_Cons)
    finally show ?thesis using manifest_of_bytes(1) assms(1) i by simp
  qed
  have "parse_catalog ?d = Some (map (\<lambda>i. manifest_of (drop (4 + i * 128) ?d)) [0..<?n])"
    using serialize_count(1) [OF assms(2), where n = "length ?d" and rest = rest] serialize_count(2) [OF assms(2), of 4] length_serialize [OF assms(1)]
    by (simp add: parse_catalog_def MANIFEST_SIZE_def Let_def)
  also have "map (\<lambda>i. manifest_of (drop (4 + i * 128) ?d)) [0..<?n] = ms"
    by (rule nth_equalityI) (simp_all add: at del: drop_append)
  finally show ?thesis .
qed

text \<open>C38.  The catalog a package server writes is the catalog the kernel reads: for manifests with fields of the
  declared sizes, at most as many as the count field can hold, parsing the serialised catalog, also with
  further bytes behind it, gives back exactly the manifests; and every strict prefix is rejected.\<close>

theorem catalog_parse_serialize:
  assumes "\<forall>m \<in> set ms. manifest_wf m" "length ms < 2 ^ 32"
  shows "parse_catalog (serialize_catalog ms @ rest) = Some ms \<and>
    (\<forall>n < length (serialize_catalog ms). parse_catalog (take n (serialize_catalog ms)) = None)"
proof -
  have "parse_catalog (take n (serialize_catalog ms)) = None" if n: "n < length (serialize_catalog ms)" for n
    using serialize_count(1) [OF assms(2), where n = n and rest = "[]"] serialize_count(2) [OF assms(2), of 4] length_serialize [OF assms(1)] n
    by (cases "n < 4") (simp_all add: parse_catalog_def MANIFEST_SIZE_def)
  then show ?thesis using parse_serialized [OF assms] by blast
qed

definition sample_manifest :: pkg_manifest where
  "sample_manifest = \<lparr> pm_name = 65 # replicate 63 0, pm_version = replicate 16 0, pm_hash = replicate 32 7, pm_size_bytes = 100,
     pm_flags = 1, pm_reserved = replicate 8 0 \<rparr>"

theorem catalog_parse_serialize_witness:
  "parse_catalog (serialize_catalog [sample_manifest, sample_manifest]) = Some [sample_manifest, sample_manifest]"
  using catalog_parse_serialize [of "[sample_manifest, sample_manifest]" "[]"]
  by (simp add: manifest_wf_def sample_manifest_def)

section \<open>The cache\<close>

definition MAX_CACHED :: nat where [kernel_defs]: "MAX_CACHED = 16"

record cache_entry =
  cc_active :: bool
  cc_app_id :: u32
  cc_hash :: bytes
  cc_last_used :: u64
  cc_pinned :: bool

definition cache_entry_empty :: cache_entry where
  "cache_entry_empty = \<lparr> cc_active = False, cc_app_id = 0, cc_hash = replicate 32 0, cc_last_used = 0, cc_pinned = False \<rparr>"

type_synonym pkg_cache = "cache_entry list"

definition cache_new :: pkg_cache where
  "cache_new = replicate MAX_CACHED cache_entry_empty"

text \<open>\<open>now\<close> is the frame counter of the compositor.\<close>

definition cache_lookup :: "u64 \<Rightarrow> bytes \<Rightarrow> pkg_cache \<Rightarrow> u32 option \<times> pkg_cache" where
  "cache_lookup now h c =
     (case position (\<lambda>e. cc_active e \<and> hash_eq (cc_hash e) h) c of
        None \<Rightarrow> (None, c)
      | Some i \<Rightarrow> (Some (cc_app_id (c ! i)), c[i := (c ! i)\<lparr>cc_last_used := now\<rparr>]))"

definition cache_lookup_by_id :: "u32 \<Rightarrow> pkg_cache \<Rightarrow> bool" where
  "cache_lookup_by_id app_id c \<longleftrightarrow> list_ex (\<lambda>e. cc_active e \<and> cc_app_id e = app_id) c"

text \<open>\<^verbatim>\<open>min_by_key\<close>: the first index with the least key among those that pass the filter.\<close>

definition lru_victim :: "pkg_cache \<Rightarrow> nat option" where
  "lru_victim c =
     fold (\<lambda>i best. if cc_active (c ! i) \<and> \<not> cc_pinned (c ! i) then
             (case best of None \<Rightarrow> Some i | Some j \<Rightarrow> if cc_last_used (c ! i) < cc_last_used (c ! j) then Some i else Some j)
           else best) [0..<length c] None"

definition cached :: "u64 \<Rightarrow> u32 \<Rightarrow> bytes \<Rightarrow> bool \<Rightarrow> cache_entry" where
  "cached now app_id h pinned = \<lparr> cc_active = True, cc_app_id = app_id, cc_hash = h, cc_last_used = now, cc_pinned = pinned \<rparr>"

text \<open>The result is whether the entry was stored, the application to uninstall, and the cache.\<close>

definition cache_insert :: "u64 \<Rightarrow> u32 \<Rightarrow> bytes \<Rightarrow> bool \<Rightarrow> pkg_cache \<Rightarrow> bool \<times> u32 option \<times> pkg_cache" where
  "cache_insert now app_id h pinned c =
     (case position (\<lambda>e. \<not> cc_active e) c of
        Some i \<Rightarrow> (True, None, c[i := cached now app_id h pinned])
      | None \<Rightarrow>
          (case lru_victim c of
             Some i \<Rightarrow> (True, Some (cc_app_id (c ! i)), c[i := cached now app_id h pinned])
           | None \<Rightarrow> (False, None, c)))"

definition cache_remove :: "u32 \<Rightarrow> pkg_cache \<Rightarrow> bool \<times> u32 option \<times> pkg_cache" where
  "cache_remove app_id c =
     (case position (\<lambda>e. cc_active e \<and> cc_app_id e = app_id) c of
        None \<Rightarrow> (False, None, c)
      | Some i \<Rightarrow>
          if cc_pinned (c ! i) then (False, None, c)
          else (True, Some app_id, c[i := (c ! i)\<lparr>cc_active := False\<rparr>]))"

definition cache_touch :: "u64 \<Rightarrow> u32 \<Rightarrow> pkg_cache \<Rightarrow> pkg_cache" where
  "cache_touch now app_id c = modify_first (\<lambda>e. cc_active e \<and> cc_app_id e = app_id) (\<lambda>e. e\<lparr>cc_last_used := now\<rparr>) c"

definition cache_count :: "pkg_cache \<Rightarrow> u32 \<times> u32" where
  "cache_count c = (of_nat (length (filter cc_active c)), of_nat (length (filter (\<lambda>e. cc_active e \<and> cc_pinned e) c)))"

definition cache_status_text :: "pkg_cache \<Rightarrow> bytes \<Rightarrow> nat \<times> bytes" where
  "cache_status_text c buf =
     (let total = length (filter cc_active c); pinned = length (filter (\<lambda>e. cc_active e \<and> cc_pinned e) c);
          s = ascii ''slots='' @ show_nat total @ ascii ''/'' @ show_nat MAX_CACHED @ [10] @ ascii ''pinned='' @ show_nat pinned @ [10]
              @ ascii ''ephemeral='' @ show_nat (total - pinned) @ [10];
          bytes = str_bytes s; n = min (length bytes) (length buf)
      in (n, write_at 0 (take n bytes) buf))"

definition evictable :: "cache_entry \<Rightarrow> bool" where
  "evictable e \<longleftrightarrow> cc_active e \<and> \<not> cc_pinned e"

lemma lru_fold:
  "case fold (\<lambda>i best. if cc_active (c ! i) \<and> \<not> cc_pinned (c ! i) then
             (case best of None \<Rightarrow> Some i | Some j \<Rightarrow> if cc_last_used (c ! i) < cc_last_used (c ! j) then Some i else Some j)
           else best) [0..<n] None of
     None \<Rightarrow> \<forall>j < n. \<not> evictable (c ! j)
   | Some i \<Rightarrow> i < n \<and> evictable (c ! i) \<and> (\<forall>j < n. evictable (c ! j) \<longrightarrow> cc_last_used (c ! i) \<le> cc_last_used (c ! j))"
proof (induction n)
  case (Suc n)
  let ?b = "fold (\<lambda>i best. if cc_active (c ! i) \<and> \<not> cc_pinned (c ! i) then
             (case best of None \<Rightarrow> Some i | Some j \<Rightarrow> if cc_last_used (c ! i) < cc_last_used (c ! j) then Some i else Some j)
           else best) [0..<n] None"
  show ?case
  proof (cases ?b)
    case None
    then show ?thesis using Suc by (auto simp: evictable_def less_Suc_eq)
  next
    case (Some i)
    then have i: "i < n" "evictable (c ! i)" "\<forall>j < n. evictable (c ! j) \<longrightarrow> cc_last_used (c ! i) \<le> cc_last_used (c ! j)"
      using Suc by auto
    have "\<forall>j < n. evictable (c ! j) \<longrightarrow> cc_last_used (c ! n) \<le> cc_last_used (c ! j)" if "cc_last_used (c ! n) < cc_last_used (c ! i)"
      using i(3) that by (meson less_le_trans order_less_imp_le)
    then show ?thesis using Some i by (auto simp: evictable_def less_Suc_eq)
  qed
qed simp

lemma lru_victim_spec:
  "case lru_victim c of
     None \<Rightarrow> \<forall>j < length c. \<not> evictable (c ! j)
   | Some i \<Rightarrow> i < length c \<and> evictable (c ! i) \<and> (\<forall>j < length c. evictable (c ! j) \<longrightarrow> cc_last_used (c ! i) \<le> cc_last_used (c ! j))"
  unfolding lru_victim_def by (rule lru_fold)

text \<open>C39.  The cache replaces the least recently used package and never a pinned one: an insertion changes one
  slot, a free one if there is any; otherwise the slot of an unpinned package that was used least recently,
  whose application is the one to uninstall; it is refused only when every slot holds a pinned package; and
  after it the content hash is found.\<close>

theorem cache_insert_lru:
  assumes "cache_insert now app_id h pinned c = (ok, evicted, c')" "length h = 32"
  shows "if ok then
      (\<exists>i < length c. c' = c[i := cached now app_id h pinned] \<and> fst (cache_lookup later h c') \<noteq> None \<and>
         (if \<not> cc_active (c ! i) then evicted = None
          else evicted = Some (cc_app_id (c ! i)) \<and> \<not> cc_pinned (c ! i) \<and>
               (\<forall>j < length c. cc_active (c ! j) \<and> (cc_pinned (c ! j) \<or> cc_last_used (c ! i) \<le> cc_last_used (c ! j)))))
    else c' = c \<and> evicted = None \<and> (\<forall>j < length c. cc_active (c ! j) \<and> cc_pinned (c ! j))"
proof -
  have found: "fst (cache_lookup later h (c[i := cached now app_id h pinned])) \<noteq> None" if "i < length c" for i
  proof -
    have "cached now app_id h pinned \<in> set (c[i := cached now app_id h pinned])" using that by (rule set_update_memI)
    moreover have "cc_active (cached now app_id h pinned) \<and> hash_eq (cc_hash (cached now app_id h pinned)) h"
      using assms(2) by (simp add: cached_def hash_eq_iff)
    ultimately have "position (\<lambda>e. cc_active e \<and> hash_eq (cc_hash e) h) (c[i := cached now app_id h pinned]) \<noteq> None"
      unfolding position_None by blast
    then show ?thesis by (auto simp: cache_lookup_def)
  qed
  show ?thesis
  proof (cases "position (\<lambda>e. \<not> cc_active e) c")
    case (Some i)
    then show ?thesis using assms(1) found position_Some [OF Some] by (auto simp: cache_insert_def)
  next
    case None
    then have act: "\<forall>j < length c. cc_active (c ! j)" by (simp add: position_None)
    show ?thesis
    proof (cases "lru_victim c")
      case None
      then have "\<forall>j < length c. \<not> evictable (c ! j)" using lru_victim_spec [of c] by simp
      then show ?thesis using assms(1) \<open>position _ c = None\<close> None act by (auto simp: cache_insert_def evictable_def)
    next
      case (Some i)
      then have "i < length c" "evictable (c ! i)" "\<forall>j < length c. evictable (c ! j) \<longrightarrow> cc_last_used (c ! i) \<le> cc_last_used (c ! j)"
        using lru_victim_spec [of c] by auto
      then show ?thesis using assms(1) \<open>position _ c = None\<close> Some act found by (auto simp: cache_insert_def evictable_def)
    qed
  qed
qed

theorem cache_insert_lru_witness:
  "\<exists>evicted c'. cache_insert 5 3 (replicate 32 1) False cache_new = (True, evicted, c') \<and> fst (cache_lookup 6 (replicate 32 1) c') \<noteq> None"
proof -
  obtain evicted c' where c: "cache_insert 5 3 (replicate 32 1) False cache_new = (True, evicted, c')"
    by (simp add: cache_insert_def cache_new_def cache_entry_empty_def MAX_CACHED_def numeral_eq_Suc)
  then show ?thesis using cache_insert_lru [OF c, of 6] by auto
qed

end
