(* ===== verification/Pkg_Http.thy ===== *)
theory Pkg_Http
  imports Rust_Str "HOL-Library.Monad_Syntax"
begin

text \<open>
  The HTTP client of the package system (\<^verbatim>\<open>kernel/src/pkg/http.rs\<close>): building the request, the
  loops that wait for the connection, send, and read until the announced body has arrived, and the
  parser of the response.  The TCP stack below is the parameter \<open>tcp_peer\<close>: what each call of
  \<^verbatim>\<open>tcp_connect\<close>, \<^verbatim>\<open>tcp_is_established\<close>, \<^verbatim>\<open>tcp_write\<close> and \<^verbatim>\<open>tcp_read\<close> answers, by the number of
  the call.
\<close>

section \<open>Errors and the stack\<close>

datatype http_error = HttpConnect | HttpSend | HttpRecv | HttpStatus nat | HttpMalformed | HttpTooLarge

datatype http_result = HOk bytes | HErr http_error | HPanic

datatype tcp_write = WOk nat | WAgain | WErr

datatype tcp_read = ROk bytes | RAgain | RErr

record tcp_peer =
  tp_connect :: bool
  tp_established :: "nat \<Rightarrow> bool option"
  tp_write :: "nat \<Rightarrow> bytes \<Rightarrow> tcp_write"
  tp_read :: "nat \<Rightarrow> tcp_read"

text \<open>What a socket promises: a successful write takes at least one byte, a read at most a chunk.\<close>

definition tcp_sane :: "tcp_peer \<Rightarrow> bool" where
  "tcp_sane p \<longleftrightarrow>
     (\<forall>k d n. d \<noteq> [] \<longrightarrow> tp_write p k d = WOk n \<longrightarrow> 0 < n \<and> n \<le> length d) \<and>
     (\<forall>k bs. tp_read p k = ROk bs \<longrightarrow> length bs \<le> 4096)"

definition MAX_BODY_SIZE :: nat where [kernel_defs]: "MAX_BODY_SIZE = 8 * 1024 * 1024"

section \<open>Parsing\<close>

definition find_header_end :: "bytes \<Rightarrow> nat option" where
  "find_header_end d = List.find (\<lambda>i. slice i (i + 4) d = [13, 10, 13, 10]) [0..<length d - 3]"

definition parse_status_code :: "str \<Rightarrow> nat option" where
  "parse_status_code line =
     (case split_whitespace line of _ # code_str # _ \<Rightarrow> parse_unsigned 16 code_str | _ \<Rightarrow> None)"

text \<open>The outer \<^const>\<open>None\<close> is the panic of slicing inside a character.\<close>

primrec content_length_of :: "str list \<Rightarrow> nat option option" where
  "content_length_of [] = Some None"
| "content_length_of (line # rest) =
     (if 15 \<le> str_len line then do {
        (prefix, val) \<leftarrow> split_at_byte line 15;
        if eq_ignore_ascii_case prefix (ascii ''content-length:'') then Some (parse_unsigned 64 (trim val))
        else content_length_of rest }
      else content_length_of rest)"

definition parse_content_length :: "str \<Rightarrow> nat option option" where
  "parse_content_length headers = content_length_of (str_lines headers)"

definition parse_body :: "str \<Rightarrow> bytes \<Rightarrow> http_result" where
  "parse_body headers body =
     (case parse_content_length headers of
        None \<Rightarrow> HPanic
      | Some None \<Rightarrow> HOk body
      | Some (Some content_length) \<Rightarrow>
          if MAX_BODY_SIZE < content_length then HErr HttpTooLarge
          else if length body < content_length then HErr HttpMalformed
          else HOk (take content_length body))"

definition parse_response :: "bytes \<Rightarrow> http_result" where
  "parse_response d =
     (case find_header_end d of
        None \<Rightarrow> HErr HttpMalformed
      | Some header_end \<Rightarrow>
          (case from_utf8 (take header_end d) of
             None \<Rightarrow> HErr HttpMalformed
           | Some headers \<Rightarrow>
               (case str_lines headers of
                  [] \<Rightarrow> HErr HttpMalformed
                | status_line # _ \<Rightarrow>
                    (case parse_status_code status_line of
                       None \<Rightarrow> HErr HttpMalformed
                     | Some status_code \<Rightarrow>
                         if status_code \<noteq> 200 then HErr (HttpStatus status_code)
                         else if length d \<le> header_end + 4 then HOk []
                         else parse_body headers (drop (header_end + 4) d)))))"

section \<open>The request\<close>

definition format_ip :: "nat list \<Rightarrow> nat \<Rightarrow> str" where
  "format_ip b port =
     show_nat (b ! 0) @ ascii ''.'' @ show_nat (b ! 1) @ ascii ''.'' @ show_nat (b ! 2) @ ascii ''.'' @ show_nat (b ! 3)
     @ ascii '':'' @ show_nat port"

definition crlf :: str where
  "crlf = [13, 10]"

definition build_request :: "str \<Rightarrow> str \<Rightarrow> str" where
  "build_request path host =
     ascii ''GET '' @ path @ ascii '' HTTP/1.1'' @ crlf @ ascii ''Host: '' @ host @ crlf @ ascii ''Connection: close'' @ crlf
     @ ascii ''User-Agent: OSCortex/1.0'' @ crlf @ crlf"

section \<open>The loops\<close>

primrec wait_established :: "nat \<Rightarrow> tcp_peer \<Rightarrow> nat \<Rightarrow> bool" where
  "wait_established 0 p k = False"
| "wait_established (Suc n) p k =
     (case tp_established p k of Some True \<Rightarrow> True | Some False \<Rightarrow> wait_established n p (Suc k) | None \<Rightarrow> False)"

text \<open>The send loop: it does not end on a stack that keeps accepting nothing.\<close>

partial_function (option) send_request :: "tcp_peer \<Rightarrow> bytes \<Rightarrow> nat \<Rightarrow> nat \<Rightarrow> nat \<Rightarrow> bool option" where
  "send_request p req k sent eagain =
     (if sent < length req then
        (case tp_write p k (drop sent req) of
           WOk n \<Rightarrow> send_request p req (Suc k) (sent + n) 0
         | WAgain \<Rightarrow> if 300 < eagain + 1 then Some False else send_request p req (Suc k) sent (eagain + 1)
         | WErr \<Rightarrow> Some False)
      else Some True)"

text \<open>What the headers read so far say about the total length: a panic, too large, or known or not.\<close>

definition learn_length :: "bytes \<Rightarrow> (unit + nat option) option" where
  "learn_length response =
     (case find_header_end response of
        None \<Rightarrow> Some (Inr None)
      | Some header_end \<Rightarrow>
          (case from_utf8 (take header_end response) of
             None \<Rightarrow> Some (Inr None)
           | Some headers \<Rightarrow>
               (case parse_content_length headers of
                  None \<Rightarrow> None
                | Some None \<Rightarrow> Some (Inr None)
                | Some (Some cl) \<Rightarrow> Some (if MAX_BODY_SIZE < cl then Inl () else Inr (Some (header_end + 4 + cl))))))"

datatype read_end = Received bytes | ReadTooLarge | ReadPanic

definition eagain_cap :: "nat option \<Rightarrow> nat" where
  "eagain_cap expected_total = (if expected_total \<noteq> None then 20000 else 1500)"

definition complete :: "nat option \<Rightarrow> bytes \<Rightarrow> bool" where
  "complete expected_total response = (case expected_total of None \<Rightarrow> False | Some n \<Rightarrow> n \<le> length response)"

lemma room_shrinks:
  assumes "c \<noteq> []" "\<not> m < length r + length c"
  shows "Suc (m - (length r + length c)) \<le> m - length r"
proof -
  have "0 < length c" using assms(1) by simp
  then show ?thesis using assms(2) by linarith
qed

text \<open>The read loop, with the number of reads it made.\<close>

function read_response :: "tcp_peer \<Rightarrow> nat \<Rightarrow> bytes \<Rightarrow> nat \<Rightarrow> nat option \<Rightarrow> read_end \<times> nat" where
  "read_response p k response eagain expected =
     (case tp_read p k of
        ROk chunk \<Rightarrow>
          if chunk = [] then (Received response, Suc k)
          else if MAX_BODY_SIZE + 4096 < length (response @ chunk) then (ReadTooLarge, Suc k)
          else
            (case (if expected = None then learn_length (response @ chunk) else Some (Inr expected)) of
               None \<Rightarrow> (ReadPanic, Suc k)
             | Some (Inl _) \<Rightarrow> (ReadTooLarge, Suc k)
             | Some (Inr expected') \<Rightarrow>
                 if complete expected' (response @ chunk) then (Received (response @ chunk), Suc k)
                 else read_response p (Suc k) (response @ chunk) 0 expected')
      | RAgain \<Rightarrow>
          if eagain_cap expected < eagain + 1 then (Received response, Suc k)
          else read_response p (Suc k) response (eagain + 1) expected
      | RErr \<Rightarrow> (Received response, Suc k))"
  by pat_completeness auto
termination
  by (relation "measures [\<lambda>(p, k, response, eagain, expected). MAX_BODY_SIZE + 4096 - length response,
        \<lambda>(p, k, response, eagain, expected). 20001 - eagain]")
     (auto simp: eagain_cap_def split: if_splits dest: room_shrinks)

declare read_response.simps [simp del]

definition http_get :: "tcp_peer \<Rightarrow> nat list \<Rightarrow> nat \<Rightarrow> str \<Rightarrow> http_result option" where
  "http_get p ip port path =
     (if \<not> tp_connect p \<or> \<not> wait_established 240 p 0 then Some (HErr HttpConnect)
      else do {
        sent \<leftarrow> send_request p (str_bytes (build_request path (format_ip ip port))) 0 0 0;
        Some (if \<not> sent then HErr HttpSend
              else case fst (read_response p 0 [] 0 None) of
                ReadTooLarge \<Rightarrow> HErr HttpTooLarge
              | ReadPanic \<Rightarrow> HPanic
              | Received response \<Rightarrow> parse_response response) })"

section \<open>A fetch always returns\<close>

lemma send_request_returns:
  assumes sane: "tcp_sane p"
  shows "sent \<le> length req \<Longrightarrow> eagain \<le> 300 \<Longrightarrow> \<exists>r. send_request p req k sent eagain = Some r"
proof (induction "(length req - sent, 301 - eagain)" arbitrary: k sent eagain rule: wf_induct [OF wf_lex_prod [OF wf_less_than wf_less_than]])
  case 1
  have IH: "\<exists>r. send_request p req k' sent' eagain' = Some r"
    if "length req - sent' < length req - sent \<or> (sent' = sent \<and> 301 - eagain' < 301 - eagain)" "sent' \<le> length req" "eagain' \<le> 300"
    for k' sent' eagain'
    using 1(1) that by auto
  show ?case
  proof (cases "sent < length req")
    case True
    show ?thesis
    proof (cases "tp_write p k (drop sent req)")
      case (WOk n)
      have "0 < n" "n \<le> length req - sent"
        using sane WOk True unfolding tcp_sane_def by (metis drop_eq_Nil length_drop not_le)+
      then have "\<exists>r. send_request p req (Suc k) (sent + n) 0 = Some r" using True by (intro IH) auto
      then show ?thesis using True WOk by (subst send_request.simps) simp
    next
      case WAgain
      have "\<exists>r. send_request p req (Suc k) sent (eagain + 1) = Some r" if "\<not> 300 < eagain + 1"
        using that True by (intro IH) auto
      then show ?thesis using True WAgain by (subst send_request.simps) auto
    next
      case WErr
      then show ?thesis using True by (subst send_request.simps) auto
    qed
  qed (subst send_request.simps, auto)
qed

lemma read_response_bound:
  "length response \<le> MAX_BODY_SIZE + 4096 \<Longrightarrow> eagain \<le> 20000 \<Longrightarrow>
   snd (read_response p k response eagain expected) \<le> k + (MAX_BODY_SIZE + 4096 - length response) * 20001 + (20001 - eagain)"
proof (induction p k response eagain expected rule: read_response.induct)
  case (1 p k response eagain expected)
  let ?M = "MAX_BODY_SIZE + 4096"
  have stop: "Suc k \<le> k + (?M - length response) * 20001 + (20001 - eagain)" using "1.prems" by simp
  show ?case
  proof (cases "tp_read p k")
    case (ROk chunk)
    have more: "snd (read_response p (Suc k) (response @ chunk) 0 e) \<le> k + (?M - length response) * 20001 + (20001 - eagain)"
      if c: "chunk \<noteq> []" "\<not> ?M < length (response @ chunk)"
        and ih: "snd (read_response p (Suc k) (response @ chunk) 0 e) \<le> Suc k + (?M - length (response @ chunk)) * 20001 + (20001 - 0)" for e
    proof -
      have "?M - length (response @ chunk) + 1 \<le> ?M - length response" using room_shrinks [OF c(1), of ?M response] c(2) by simp
      then have "(?M - length (response @ chunk) + 1) * 20001 \<le> (?M - length response) * 20001" by (rule mult_le_mono1)
      then show ?thesis using ih "1.prems" by simp
    qed
    show ?thesis
      using ROk stop "1.IH"(1) more
      by (subst read_response.simps) (auto split: option.splits sum.splits if_splits)
  next
    case RAgain
    show ?thesis
    proof (cases "eagain_cap expected < eagain + 1")
      case False
      then have "eagain + 1 \<le> 20000" by (simp add: eagain_cap_def split: if_splits)
      then have "snd (read_response p (Suc k) response (eagain + 1) expected)
          \<le> Suc k + (?M - length response) * 20001 + (20001 - (eagain + 1))"
        using "1.IH"(2) RAgain False "1.prems" by blast
      then show ?thesis using RAgain False \<open>eagain + 1 \<le> 20000\<close> by (subst read_response.simps) simp
    qed (use RAgain stop in \<open>subst read_response.simps, simp\<close>)
  qed (use stop in \<open>subst read_response.simps, simp\<close>)
qed


section \<open>What a response means\<close>

lemma utf8_ascii: "\<forall>c \<in> set s. c < 128 \<Longrightarrow> utf8_points s = Some s"
  by (induction s) auto

lemma from_utf8_ascii:
  assumes "\<forall>c \<in> set s. c < 128"
  shows "from_utf8 (map of_nat s) = Some s"
proof -
  have "map unat (map of_nat s :: bytes) = s"
    using assms by (induction s) (auto simp: unat_of_nat)
  then show ?thesis using assms by (simp add: from_utf8_def utf8_ascii)
qed

lemma str_len_ascii: "\<forall>c \<in> set s. c < 128 \<Longrightarrow> str_len s = length s"
  by (induction s) (auto simp: str_len_def char_len_def)

lemma split_at_byte_ascii: "\<forall>c \<in> set a. c < 128 \<Longrightarrow> split_at_byte (a @ b) (length a) = Some (a, b)"
  by (induction a) (auto simp: char_len_def intro: list.exhaust [of b])

lemma slice_nth: "i + n \<le> length xs \<Longrightarrow> k < n \<Longrightarrow> slice i (i + n) xs ! k = xs ! (i + k)"
  by (simp add: slice_def)

lemma find_first_index:
  assumes "n < m" "P n" "\<And>i. i < n \<Longrightarrow> \<not> P i"
  shows "List.find P [0..<m] = Some n"
  using assms by (auto simp: find_Some_iff intro!: exI [of _ n])

text \<open>Two header lines and a body.\<close>

lemma header_end_two_lines:
  assumes "13 \<notin> set a" "13 \<notin> set b" "b \<noteq> []"
  shows "find_header_end (a @ [13, 10] @ b @ [13, 10, 13, 10] @ body) = Some (length a + 2 + length b)"
proof -
  let ?d = "a @ [13, 10] @ b @ [13, 10, 13, 10] @ body" and ?n = "length a + 2 + length b"
  have sl: "slice i (i + 4) ?d = [13, 10, 13, 10] \<Longrightarrow> ?d ! i = 13 \<and> ?d ! (i + 2) = 13" if "i + 4 \<le> length ?d" for i
  proof -
    assume eq: "slice i (i + 4) ?d = [13, 10, 13, 10]"
    from slice_nth [OF that, of 0] slice_nth [OF that, of 2] show ?thesis unfolding eq by simp
  qed
  have no: "\<not> slice i (i + 4) ?d = [13, 10, 13, 10]" if i: "i < ?n" for i
  proof
    assume "slice i (i + 4) ?d = [13, 10, 13, 10]"
    then have at: "?d ! i = 13" "?d ! (i + 2) = 13" using sl [of i] i by auto
    consider "i < length a" | "i = length a" | "i = length a + 1" | "length a + 2 \<le> i" by linarith
    then show False
    proof cases
      case 1
      then show ?thesis using at(1) assms(1) nth_mem [OF 1] by (simp add: nth_append)
    next
      case 2
      then show ?thesis using at(2) assms(2,3) by (cases b) (auto simp: nth_append)
    next
      case 3
      then show ?thesis using at(1) by (simp add: nth_append)
    next
      case 4
      then have "?d ! i = b ! (i - length a - 2)" "i - length a - 2 < length b" using i by (auto simp: nth_append nth_Cons')
      then show ?thesis using at(1) assms(2) nth_mem by metis
    qed
  qed
  show ?thesis
    unfolding find_header_end_def by (rule find_first_index) (use no in \<open>auto simp: slice_def\<close>)
qed

lemma split_lines_no_eol: "10 \<notin> set l \<Longrightarrow> split_lines l = (if l = [] then [] else [l])"
  by (induction l) auto

lemma split_lines_eol: "10 \<notin> set l \<Longrightarrow> split_lines (l @ 10 # s) = (l @ [10]) # split_lines s"
  by (induction l) auto

lemma str_lines_two:
  assumes "10 \<notin> set a" "10 \<notin> set b" "b \<noteq> []"
  shows "str_lines (a @ [13, 10] @ b) = [a, b]"
proof -
  have "split_lines ((a @ [13]) @ 10 # b) = [(a @ [13]) @ [10], b]"
    using assms by (subst split_lines_eol) (auto simp: split_lines_no_eol)
  moreover have "strip_eol ((a @ [13]) @ [10]) = a" by (simp add: strip_eol_def strip_suffix_def butlast_append)
  moreover have "last b \<noteq> 10" using assms(2) last_in_set [OF assms(3)] by metis
  then have "strip_eol b = b" using assms(3) by (simp add: strip_eol_def strip_suffix_def)
  ultimately show ?thesis by (simp add: str_lines_def)
qed

lemma trim_digits:
  assumes "s \<noteq> []" "\<And>c. c \<in> set s \<Longrightarrow> 48 \<le> c \<and> c \<le> 57"
  shows "trim (32 # s) = s"
proof -
  have nw: "\<not> is_whitespace c" if "c \<in> set s" for c using assms(2) [OF that] by (auto simp: is_whitespace_def)
  have drop: "dropWhile is_whitespace t = t" if "t \<noteq> []" "\<forall>c \<in> set t. \<not> is_whitespace c" for t
    using that by (cases t) auto
  have "dropWhile is_whitespace s = s" "dropWhile is_whitespace (rev s) = rev s"
    using nw assms(1) by (simp_all add: drop)
  moreover have "is_whitespace 32" by (simp add: is_whitespace_def)
  ultimately show ?thesis by (simp add: trim_def)
qed

definition status_line :: str where
  "status_line = ascii ''HTTP/1.1 200 OK''"

definition length_line :: "nat \<Rightarrow> str" where
  "length_line n = ascii ''Content-Length: '' @ show_nat n"

text \<open>A response as a server writes it.\<close>

definition http_response :: "nat \<Rightarrow> bytes \<Rightarrow> bytes" where
  "http_response n body = str_bytes (status_line @ crlf @ length_line n @ crlf @ crlf) @ body"

lemma status_line_points: "status_line = [72, 84, 84, 80, 47, 49, 46, 49, 32, 50, 48, 48, 32, 79, 75]"
  by (simp add: status_line_def ascii_def)

lemma ascii_facts:
  "13 \<notin> set status_line" "10 \<notin> set status_line" "\<forall>c \<in> set status_line. c < 128" "length status_line = 15"
  "\<not> eq_ignore_ascii_case status_line (ascii ''content-length:'')"
  by (simp_all add: status_line_points eq_ignore_ascii_case_def to_ascii_lower_def ascii_def)

lemma status_line_code: "parse_status_code status_line = Some 200"
  unfolding parse_status_code_def status_line_points
  by (subst split_whitespace.simps, simp add: is_whitespace_def, subst split_whitespace.simps)
     (simp add: is_whitespace_def parse_unsigned_def)

lemma length_line_facts:
  "13 \<notin> set (length_line n)" "10 \<notin> set (length_line n)" "\<forall>c \<in> set (length_line n). c < 128" "length_line n \<noteq> []"
proof -
  have "\<forall>c \<in> set (ascii ''Content-Length: ''). c < 128 \<and> c \<noteq> 13 \<and> c \<noteq> 10" by (simp add: ascii_def)
  moreover have "\<forall>c \<in> set (show_nat n). c < 128 \<and> c \<noteq> 13 \<and> c \<noteq> 10" using show_nat_digits [of _ n] by fastforce
  ultimately show "13 \<notin> set (length_line n)" "10 \<notin> set (length_line n)" "\<forall>c \<in> set (length_line n). c < 128" "length_line n \<noteq> []"
    unfolding length_line_def set_append by auto
qed

lemma content_length_two_lines:
  assumes "n < 2 ^ 64"
  shows "content_length_of [status_line, length_line n] = Some (Some n)"
proof -
  let ?p = "ascii ''Content-Length:''"
  have p: "\<forall>c \<in> set ?p. c < 128" "length ?p = 15" "eq_ignore_ascii_case ?p (ascii ''content-length:'')"
    by (simp_all add: ascii_def eq_ignore_ascii_case_def to_ascii_lower_def)
  have line: "length_line n = ?p @ 32 # show_nat n" by (simp add: length_line_def ascii_def)
  have split: "split_at_byte (length_line n) 15 = Some (?p, 32 # show_nat n)"
    using split_at_byte_ascii [OF p(1)] unfolding line p(2) .
  have "length (length_line n) = 15 + length (32 # show_nat n)" unfolding line length_append p(2) ..
  then have len: "15 \<le> str_len (length_line n)" using str_len_ascii [OF length_line_facts(3)] by simp
  have trim: "trim (32 # show_nat n) = show_nat n" by (rule trim_digits) (auto dest: show_nat_digits)
  have first: "split_at_byte status_line 15 = Some (status_line, [])"
    using split_at_byte_ascii [OF ascii_facts(3), of "[]"] unfolding ascii_facts(4) by simp
  show ?thesis using ascii_facts(5) p(3) parse_show [OF assms] split len trim first by simp
qed

lemma char_bytes_ascii: "\<forall>c \<in> set s. c < 128 \<Longrightarrow> str_bytes s = map of_nat s"
  by (induction s) (auto simp: str_bytes_def char_bytes_def)

lemma http_response_parts:
  "http_response n body = map of_nat status_line @ [13, 10] @ map of_nat (length_line n) @ [13, 10, 13, 10] @ body"
proof -
  have "\<forall>c \<in> set (status_line @ crlf @ length_line n @ crlf @ crlf). c < 128"
    using ascii_facts(3) length_line_facts(3) [of n] by (auto simp: crlf_def)
  from char_bytes_ascii [OF this] show ?thesis by (simp add: http_response_def crlf_def)
qed

lemma no_cr:
  assumes "\<forall>c \<in> set s. c < 128" "13 \<notin> set s"
  shows "13 \<notin> set (map of_nat s :: bytes)"
proof
  assume "13 \<in> set (map of_nat s :: bytes)"
  then obtain c where c: "c \<in> set s" "(of_nat c :: u8) = 13" by auto
  have "unat (of_nat c :: u8) = c" using c(1) assms(1) by (auto simp: unat_of_nat)
  then have "c = 13" using c(2) by simp
  then show False using c(1) assms(2) by simp
qed

text \<open>The headers of such a response, and what is read from them.\<close>

definition response_head :: "nat \<Rightarrow> str" where
  "response_head n = status_line @ [13, 10] @ length_line n"

lemma http_response_head:
  fixes n :: nat and body :: bytes
  defines "d \<equiv> http_response n body" and "h \<equiv> response_head n"
  shows "find_header_end d = Some (length h)" "from_utf8 (take (length h) d) = Some h"
    "str_lines h = [status_line, length_line n]" "length d = length h + 4 + length body" "drop (length h + 4) d = body"
proof -
  have d: "d = map of_nat h @ [13, 10, 13, 10] @ body" by (simp add: d_def h_def response_head_def http_response_parts)
  have "map of_nat (length_line n) \<noteq> ([] :: bytes)" using length_line_facts(4) by simp
  then show "find_header_end d = Some (length h)"
    unfolding d_def http_response_parts h_def response_head_def
    by (subst header_end_two_lines) (use no_cr ascii_facts(1,3) length_line_facts(1,3) in auto)
  have "\<forall>c \<in> set h. c < 128" using ascii_facts(3) length_line_facts(3) [of n] by (auto simp: h_def response_head_def)
  then show "from_utf8 (take (length h) d) = Some h" unfolding d by (simp add: from_utf8_ascii del: map_append)
  show "str_lines h = [status_line, length_line n]" unfolding h_def response_head_def
    by (rule str_lines_two) (rule ascii_facts length_line_facts)+
  show "length d = length h + 4 + length body" "drop (length h + 4) d = body" unfolding d by simp_all
qed

lemma response_head_length: "n < 2 ^ 64 \<Longrightarrow> parse_content_length (response_head n) = Some (Some n)"
  unfolding parse_content_length_def http_response_head(3) by (rule content_length_two_lines)

lemma parse_response_announced:
  assumes "n \<le> MAX_BODY_SIZE" "length body \<le> n"
  shows "parse_response (http_response n body) =
    (if length body = n \<or> body = [] then HOk body else HErr HttpMalformed)"
proof -
  have "n < 2 ^ 64" using assms(1) by (simp add: MAX_BODY_SIZE_def)
  then show ?thesis using assms
    by (auto simp: parse_response_def http_response_head status_line_code parse_body_def response_head_length)
qed



text \<open>A server that answers with one header line of fourteen characters followed by a two-byte character.\<close>

definition evil_response :: bytes where
  "evil_response = str_bytes (status_line @ crlf @ replicate 14 97 @ [233] @ crlf @ crlf)"

definition evil_peer :: tcp_peer where
  "evil_peer = \<lparr> tp_connect = True, tp_established = (\<lambda>k. Some True), tp_write = (\<lambda>k d. WOk (length d)),
     tp_read = (\<lambda>k. ROk evil_response) \<rparr>"

lemma evil_peer_sane: "tcp_sane evil_peer"
  by (simp add: tcp_sane_def evil_peer_def evil_response_def status_line_points crlf_def str_bytes_def char_bytes_def)

lemma utf8_ascii_prefix: "\<forall>c \<in> set a. c < 128 \<Longrightarrow> utf8_points (a @ b) = map_option ((@) a) (utf8_points b)"
  by (induction a) (cases "utf8_points b"; auto)+

lemma wait_established_now: "tp_established p k = Some True \<Longrightarrow> 0 < n \<Longrightarrow> wait_established n p k"
  by (cases n) auto

lemma send_at_once:
  assumes "tp_write p 0 = (\<lambda>d. WOk (length d))"
  shows "send_request p req 0 0 0 = Some True"
proof -
  have "send_request p req (Suc 0) (length req) 0 = Some True" by (subst send_request.simps) simp
  then show ?thesis using assms by (subst send_request.simps) simp
qed

lemma learn_length_evil: "learn_length evil_response = None"
proof -
  let ?b = "replicate 14 97 @ [195, 169] :: bytes" and ?l = "replicate 14 97 @ [233] :: str"
  have d: "evil_response = map of_nat status_line @ [13, 10] @ ?b @ [13, 10, 13, 10] @ []"
    by (simp add: evil_response_def status_line_points crlf_def str_bytes_def char_bytes_def)
  have he: "find_header_end evil_response = Some (length status_line + 2 + 16)"
    unfolding d by (subst header_end_two_lines) (use no_cr [OF ascii_facts(3,1)] in simp_all)
  have utf: "from_utf8 (take (length status_line + 2 + 16) evil_response) = Some (status_line @ [13, 10] @ ?l)"
    unfolding d status_line_points by (simp add: from_utf8_def cont_def utf8_ascii_prefix)
  have lines: "str_lines (status_line @ [13, 10] @ ?l) = [status_line, ?l]"
    by (rule str_lines_two) (use ascii_facts in simp_all)
  have "split_at_byte status_line 15 = Some (status_line, [])"
    using split_at_byte_ascii [OF ascii_facts(3), of "[]"] unfolding ascii_facts(4) by simp
  moreover have "?l = [97, 97, 97, 97, 97, 97, 97, 97, 97, 97, 97, 97, 97, 97, 233]" by (simp add: numeral_eq_Suc)
  then have "15 \<le> str_len ?l" "split_at_byte ?l 15 = None" by (simp_all add: str_len_def char_len_def)
  ultimately have "content_length_of [status_line, ?l] = None"
    using ascii_facts(5) by simp
  then show ?thesis unfolding learn_length_def he option.case utf parse_content_length_def lines by simp
qed

text \<open>C34.  A package server can crash the kernel: a response with a header line whose fifteenth byte is inside
  a two-byte character makes the fetch panic, because the test for the length header slices each line at
  byte 15 without regard to character boundaries.\<close>

theorem http_header_panics: "http_get evil_peer ip port path = Some HPanic"
proof -
  have sent: "send_request evil_peer (str_bytes (build_request path (format_ip ip port))) 0 0 0 = Some True"
    by (rule send_at_once) (simp add: evil_peer_def)
  have "evil_response \<noteq> []" "length evil_response \<le> MAX_BODY_SIZE + 4096"
    using evil_peer_sane by (auto simp: tcp_sane_def evil_peer_def) (simp add: evil_response_def status_line_points str_bytes_def char_bytes_def)
  then have "read_response evil_peer 0 [] 0 None = (ReadPanic, 1)"
    by (subst read_response.simps) (simp add: evil_peer_def learn_length_evil)
  moreover have "wait_established 240 evil_peer 0" by (rule wait_established_now) (simp_all add: evil_peer_def)
  ultimately show ?thesis using sent by (simp add: http_get_def) (simp add: evil_peer_def)
qed

text \<open>A server that answers every request with the given body.\<close>

definition honest_peer :: "bytes \<Rightarrow> tcp_peer" where
  "honest_peer body = \<lparr> tp_connect = True, tp_established = (\<lambda>k. Some True), tp_write = (\<lambda>k d. WOk (length d)),
     tp_read = (\<lambda>k. ROk (http_response (length body) body)) \<rparr>"

lemma http_get_honest:
  assumes "length (http_response (length body) body) \<le> 4096"
  shows "http_get (honest_peer body) ip port path = Some (HOk body)"
proof -
  let ?p = "honest_peer body" and ?d = "http_response (length body) body"
  have n: "length body \<le> MAX_BODY_SIZE" "length body < 2 ^ 64"
    using assms http_response_head(4) [of "length body" body] by (simp_all add: MAX_BODY_SIZE_def)
  have learn: "learn_length ?d = Some (Inr (Some (length ?d)))"
    using n by (simp add: learn_length_def http_response_head response_head_length)
  have "?d \<noteq> []" using http_response_head(4) [of "length body" body] by auto
  then have "read_response ?p 0 [] 0 None = (Received ?d, 1)"
    using assms by (subst read_response.simps) (simp add: honest_peer_def learn complete_def)
  moreover have "wait_established 240 ?p 0" by (rule wait_established_now) (simp_all add: honest_peer_def)
  moreover have "send_request ?p (str_bytes (build_request path (format_ip ip port))) 0 0 0 = Some True"
    by (rule send_at_once) (simp add: honest_peer_def)
  ultimately show ?thesis using n(1) by (simp add: http_get_def parse_response_announced) (simp add: honest_peer_def)
qed


end
