(* ===== verification/Pkg_Resolver.thy ===== *)
theory Pkg_Resolver
  imports Pkg_Catalog Pkg_Http
begin

text \<open>
  On-demand packages (\<^verbatim>\<open>kernel/src/pkg/resolver.rs\<close>): the catalog is fetched and authenticated with a
  signature, a package is found by name, taken from the cache or fetched, verified against the
  hash of its manifest, installed and cached.  The signature scheme (the crate
  \<^verbatim>\<open>ed25519_compact\<close>) is the parameter \<open>verify\<close>; the network below a fetch is a \<open>tcp_peer\<close>.
\<close>

section \<open>State and errors\<close>

datatype resolve_error = NoCatalog | NotFound | FetchFailed | HashMismatch | BadSignature | InstallFailed | CacheFull

datatype 'a resolved = ResOk 'a | ResErr resolve_error | ResPanic

record 'd pkg_state =
  ps_ip :: u32
  ps_port :: u16
  ps_catalog :: "pkg_manifest list"
  ps_cache :: pkg_cache
  ps_apps :: app_table
  ps_store :: "'d store"

definition CATALOG_PUBKEY :: bytes where
  "CATALOG_PUBKEY = [
     0x9e, 0x48, 0x65, 0x7d, 0x5f, 0x21, 0x44, 0x66, 0x79, 0x85, 0xe3, 0xb2, 0xbd, 0x8d, 0x34, 0xc3,
     0xc4, 0x03, 0x9b, 0xac, 0x6a, 0x44, 0x57, 0xff, 0x62, 0x5e, 0x8c, 0xe6, 0xf4, 0xdb, 0xa1, 0xb1]"

definition verify_catalog_sig :: "(bytes \<Rightarrow> bytes \<Rightarrow> bytes \<Rightarrow> bool) \<Rightarrow> bytes \<Rightarrow> bytes \<Rightarrow> bool" where
  "verify_catalog_sig verify msg sig \<longleftrightarrow> length sig = 64 \<and> verify CATALOG_PUBKEY msg sig"

section \<open>Operations\<close>

definition set_server :: "u32 \<Rightarrow> u16 \<Rightarrow> 'd pkg_state \<Rightarrow> 'd pkg_state" where
  "set_server ip port s = s\<lparr>ps_ip := ip, ps_port := port\<rparr>"

definition fetch :: "tcp_peer \<Rightarrow> str \<Rightarrow> 'd pkg_state \<Rightarrow> http_result option" where
  "fetch p path s = http_get p (map unat (rev (u32_to_le (ps_ip s)))) (unat (ps_port s)) path"

text \<open>The outer \<^const>\<open>None\<close> is a fetch that does not return.\<close>

definition refresh_catalog ::
    "(bytes \<Rightarrow> bytes \<Rightarrow> bytes \<Rightarrow> bool) \<Rightarrow> tcp_peer \<Rightarrow> tcp_peer \<Rightarrow> 'd pkg_state \<Rightarrow> (nat resolved \<times> 'd pkg_state) option" where
  "refresh_catalog verify p1 p2 s = do {
     r1 \<leftarrow> fetch p1 (ascii ''/catalog.bin'') s;
     case r1 of
       HPanic \<Rightarrow> Some (ResPanic, s)
     | HErr e \<Rightarrow> Some (ResErr FetchFailed, s)
     | HOk body \<Rightarrow> do {
         r2 \<leftarrow> fetch p2 (ascii ''/catalog.sig'') s;
         case r2 of
           HPanic \<Rightarrow> Some (ResPanic, s)
         | HErr e \<Rightarrow> Some (ResErr BadSignature, s)
         | HOk sig \<Rightarrow>
             Some (if \<not> verify_catalog_sig verify body sig then (ResErr BadSignature, s)
                   else case parse_catalog body of
                          None \<Rightarrow> (ResErr FetchFailed, s)
                        | Some entries \<Rightarrow> (ResOk (length entries), s\<lparr>ps_catalog := entries\<rparr>)) } }"

definition find_manifest :: "bytes \<Rightarrow> 'd pkg_state \<Rightarrow> pkg_manifest option" where
  "find_manifest name s =
     (let name_str = take (case position (\<lambda>b. b = 0) name of Some e \<Rightarrow> e | None \<Rightarrow> length name) name
      in List.find (\<lambda>m. cstr 64 (pm_name m) = name_str) (ps_catalog s))"

definition bundle_path :: "bytes \<Rightarrow> str" where
  "bundle_path h =
     ascii ''/pkg/'' @ (case hash_hex h (replicate 64 0) of
         None \<Rightarrow> ascii ''bad''
       | Some (n, hex) \<Rightarrow> (case from_utf8 hex of Some t \<Rightarrow> t | None \<Rightarrow> ascii ''bad'')) @ ascii ''.osx''"

text \<open>Steps 5 and 6: install the verified bundle, then enter it into the cache, which may evict another.\<close>

definition install_and_cache ::
    "'d blk \<Rightarrow> (nat \<Rightarrow> bytes) \<Rightarrow> u64 \<Rightarrow> pkg_manifest \<Rightarrow> bytes \<Rightarrow> 'd pkg_state \<Rightarrow> u32 resolved \<times> 'd pkg_state" where
  "install_and_cache B junk now m bundle s =
     (case app_install B junk bundle (ps_apps s, ps_store s) of
        (None, t, st) \<Rightarrow> (ResErr InstallFailed, s\<lparr>ps_apps := t, ps_store := st\<rparr>)
      | (Some app_id, t, st) \<Rightarrow>
          (case cache_insert now app_id (pm_hash m) (is_system m) (ps_cache s) of
             (ok, None, c) \<Rightarrow> (ResOk app_id, s\<lparr>ps_apps := t, ps_store := st, ps_cache := c\<rparr>)
           | (ok, Some old_id, c) \<Rightarrow>
               (case app_uninstall B junk old_id (t, st) of
                  (_, t', st') \<Rightarrow> (ResOk app_id, s\<lparr>ps_apps := t', ps_store := st', ps_cache := c\<rparr>))))"

text \<open>The frame counter is read at the lookup (\<open>now\<close>) and again, after the fetch, at the insertion (\<open>now'\<close>).\<close>

definition resolve ::
    "'d blk \<Rightarrow> (nat \<Rightarrow> bytes) \<Rightarrow> u64 \<Rightarrow> u64 \<Rightarrow> tcp_peer \<Rightarrow> bytes \<Rightarrow> 'd pkg_state \<Rightarrow> (u32 resolved \<times> 'd pkg_state) option" where
  "resolve B junk now now' p name s =
     (case find_manifest name s of
        None \<Rightarrow> Some (ResErr NotFound, s)
      | Some m \<Rightarrow>
          (case cache_lookup now (pm_hash m) (ps_cache s) of
             (Some app_id, c) \<Rightarrow> Some (ResOk app_id, s\<lparr>ps_cache := c\<rparr>)
           | (None, c) \<Rightarrow> do {
               r \<leftarrow> fetch p (bundle_path (pm_hash m)) s;
               Some (case r of
                       HPanic \<Rightarrow> (ResPanic, s)
                     | HErr e \<Rightarrow> (ResErr FetchFailed, s)
                     | HOk bundle \<Rightarrow>
                         if \<not> hash_eq (sha256_hash bundle) (pm_hash m) then (ResErr HashMismatch, s)
                         else install_and_cache B junk now' m bundle s) }))"

text \<open>\<^verbatim>\<open>cache::remove\<close> with the uninstallation it performs.\<close>

definition cache_evict :: "'d blk \<Rightarrow> (nat \<Rightarrow> bytes) \<Rightarrow> u32 \<Rightarrow> 'd pkg_state \<Rightarrow> bool \<times> 'd pkg_state" where
  "cache_evict B junk app_id s =
     (case cache_remove app_id (ps_cache s) of
        (ok, None, c) \<Rightarrow> (ok, s\<lparr>ps_cache := c\<rparr>)
      | (ok, Some i, c) \<Rightarrow>
          (case app_uninstall B junk i (ps_apps s, ps_store s) of
             (_, t, st) \<Rightarrow> (ok, s\<lparr>ps_cache := c, ps_apps := t, ps_store := st\<rparr>)))"

text \<open>At boot a failed refresh is ignored.\<close>

definition pkg_init :: "(bytes \<Rightarrow> bytes \<Rightarrow> bytes \<Rightarrow> bool) \<Rightarrow> tcp_peer \<Rightarrow> tcp_peer \<Rightarrow> 'd pkg_state \<Rightarrow> (unit option \<times> 'd pkg_state) option" where
  "pkg_init verify p1 p2 s = map_option (map_prod (\<lambda>r. if r = ResPanic then None else Some ()) id) (refresh_catalog verify p1 p2 s)"

section \<open>System calls\<close>

fun resolve_errno :: "resolve_error \<Rightarrow> int" where
  "resolve_errno NotFound = -2"
| "resolve_errno NoCatalog = -2"
| "resolve_errno FetchFailed = -5"
| "resolve_errno HashMismatch = -22"
| "resolve_errno BadSignature = -13"
| "resolve_errno InstallFailed = -12"
| "resolve_errno CacheFull = -28"

text \<open>
  \<open>name\<close> is what reading the user's buffer gave.  In a result the inner \<^const>\<open>None\<close> is a panic.
\<close>

definition sys_pkg_resolve ::
    "'d blk \<Rightarrow> (nat \<Rightarrow> bytes) \<Rightarrow> u64 \<Rightarrow> u64 \<Rightarrow> tcp_peer \<Rightarrow> bytes option \<Rightarrow> 'd pkg_state \<Rightarrow> (int option \<times> 'd pkg_state) option" where
  "sys_pkg_resolve B junk now now' p name s =
     (case name of
        None \<Rightarrow> Some (Some (-14), s)
      | Some n \<Rightarrow> map_option (map_prod (\<lambda>r. case r of ResOk i \<Rightarrow> Some (uint i) | ResErr e \<Rightarrow> Some (resolve_errno e) | ResPanic \<Rightarrow> None) id)
                    (resolve B junk now now' p n s))"

fun copy_manifests :: "pkg_manifest list \<Rightarrow> nat \<Rightarrow> bytes \<Rightarrow> bytes" where
  "copy_manifests [] written buf = buf"
| "copy_manifests (m # ms) written buf =
     (if length buf < written + MANIFEST_SIZE then buf
      else copy_manifests ms (written + MANIFEST_SIZE) (write_at written (manifest_bytes m) buf))"

text \<open>The buffer is absent when its address or its length is zero.\<close>

definition sys_pkg_catalog :: "bytes option \<Rightarrow> 'd pkg_state \<Rightarrow> int \<times> bytes option" where
  "sys_pkg_catalog buf s = (int (length (ps_catalog s)), map_option (copy_manifests (ps_catalog s) 0) buf)"

definition sys_pkg_set_server ::
    "(bytes \<Rightarrow> bytes \<Rightarrow> bytes \<Rightarrow> bool) \<Rightarrow> tcp_peer \<Rightarrow> tcp_peer \<Rightarrow> u64 \<Rightarrow> u64 \<Rightarrow> 'd pkg_state \<Rightarrow> (int option \<times> 'd pkg_state) option" where
  "sys_pkg_set_server verify p1 p2 ip port s =
     map_option (map_prod (\<lambda>r. if r = ResPanic then None else Some 0) id)
       (refresh_catalog verify p1 p2 (set_server (ucast ip) (ucast port) s))"

definition sys_pkg_evict :: "'d blk \<Rightarrow> (nat \<Rightarrow> bytes) \<Rightarrow> u64 \<Rightarrow> 'd pkg_state \<Rightarrow> int \<times> 'd pkg_state" where
  "sys_pkg_evict B junk app_id s = map_prod (\<lambda>ok. if ok then 0 else -2) id (cache_evict B junk (ucast app_id) s)"

section \<open>Runs\<close>

inductive pkg_step :: "(bytes \<Rightarrow> bytes \<Rightarrow> bytes \<Rightarrow> bool) \<Rightarrow> 'd blk \<Rightarrow> (nat \<Rightarrow> bytes) \<Rightarrow> 'd pkg_state \<Rightarrow> 'd pkg_state \<Rightarrow> bool"
  for verify B junk where
  step_init: "pkg_init verify p1 p2 s = Some (u, s') \<Longrightarrow> pkg_step verify B junk s s'"
| step_server: "sys_pkg_set_server verify p1 p2 ip port s = Some (r', s') \<Longrightarrow> pkg_step verify B junk s s'"
| step_resolve: "sys_pkg_resolve B junk now now' p name s = Some (r', s') \<Longrightarrow> pkg_step verify B junk s s'"
| step_touch: "pkg_step verify B junk s (s\<lparr>ps_cache := cache_touch now app_id (ps_cache s)\<rparr>)"
| step_evict: "sys_pkg_evict B junk i s = (e, s') \<Longrightarrow> pkg_step verify B junk s s'"

text \<open>A manifest is vouched for when it is in a catalog whose signature verifies.\<close>

definition vouched :: "(bytes \<Rightarrow> bytes \<Rightarrow> bytes \<Rightarrow> bool) \<Rightarrow> pkg_manifest \<Rightarrow> bool" where
  "vouched verify m \<longleftrightarrow> (\<exists>body sig ms. verify_catalog_sig verify body sig \<and> parse_catalog body = Some ms \<and> m \<in> set ms)"

definition authentic :: "(bytes \<Rightarrow> bytes \<Rightarrow> bytes \<Rightarrow> bool) \<Rightarrow> app_record \<Rightarrow> bool" where
  "authentic verify r \<longleftrightarrow> (\<exists>m bundle hdr i. vouched verify m \<and> std_sha256 bundle = pm_hash m \<and>
     parse_header bundle = Some hdr \<and> r = app_record_of i False bundle hdr)"

definition installed :: "'d pkg_state \<Rightarrow> app_record set" where
  "installed s = set (flatten (at_slots (ps_apps s)))"

definition pkg_inv :: "(bytes \<Rightarrow> bytes \<Rightarrow> bytes \<Rightarrow> bool) \<Rightarrow> app_record set \<Rightarrow> 'd pkg_state \<Rightarrow> bool" where
  "pkg_inv verify base s \<longleftrightarrow> (\<forall>m \<in> set (ps_catalog s). vouched verify m) \<and> (\<forall>r \<in> installed s. r \<in> base \<or> authentic verify r)"

lemma app_install_set:
  assumes "app_install B junk b (t, st) = (r, t', st')"
  shows "set (flatten (at_slots t')) \<subseteq> set (flatten (at_slots t)) \<union>
    {x. \<exists>hdr i. parse_header b = Some hdr \<and> x = app_record_of i False b hdr}"
proof -
  obtain r' where i: "install_in_table b t = (r', t')" using assms by (auto simp: app_install_def split: prod.splits option.splits)
  show ?thesis
  proof
    fix x assume x: "x \<in> set (flatten (at_slots t'))"
    show "x \<in> set (flatten (at_slots t)) \<union> {x. \<exists>hdr i. parse_header b = Some hdr \<and> x = app_record_of i False b hdr}"
      using i x by (auto simp: install_in_table_def Let_def app_insert_def dest!: slot_store_set split: option.splits if_splits)
  qed
qed

lemma app_uninstall_set:
  assumes "app_uninstall B junk i (t, st) = (r, t', st')"
  shows "set (flatten (at_slots t')) \<subseteq> set (flatten (at_slots t))"
proof -
  obtain r' where "uninstall_in_table i t = (r', t')" using assms by (auto simp: app_uninstall_def split: prod.splits bool.splits)
  then show ?thesis
    using clear_first_set [of "\<lambda>r. ar_id r = i" "at_slots t"]
    by (auto simp: uninstall_in_table_def app_remove_def slot_remove_def split: option.splits if_splits)
qed

section \<open>The chain of trust\<close>

lemma refresh_inv:
  assumes "refresh_catalog verify p1 p2 s = Some (r, s')" "pkg_inv verify base s"
  shows "pkg_inv verify base s'"
  using assms
  by (auto simp: refresh_catalog_def pkg_inv_def installed_def vouched_def
      split: Option.bind_split_asm http_result.split_asm option.split_asm if_split_asm)

lemma pkg_inv_server [simp]: "pkg_inv verify base (set_server ip port s) = pkg_inv verify base s"
  by (simp add: pkg_inv_def set_server_def installed_def)

lemma pkg_inv_cache [simp]: "pkg_inv verify base (s\<lparr>ps_cache := c\<rparr>) = pkg_inv verify base s"
  by (simp add: pkg_inv_def installed_def)

lemma pkg_inv_apps:
  assumes "pkg_inv verify base s" "set (flatten (at_slots t)) \<subseteq> installed s \<union> {x. authentic verify x}"
  shows "pkg_inv verify base (s\<lparr>ps_apps := t, ps_store := st, ps_cache := c\<rparr>)"
  using assms by (auto simp: pkg_inv_def installed_def)

lemma install_and_cache_inv:
  assumes "pkg_inv verify base s" "vouched verify m" "std_sha256 bundle = pm_hash m"
    "install_and_cache B junk now m bundle s = (r, s')"
  shows "pkg_inv verify base s'"
proof -
  obtain a t st where i: "app_install B junk bundle (ps_apps s, ps_store s) = (a, t, st)" by (metis prod.collapse)
  have "authentic verify (app_record_of k False bundle hdr)" if "parse_header bundle = Some hdr" for k hdr
    using that assms(2,3) by (auto simp: authentic_def)
  then have t: "set (flatten (at_slots t)) \<subseteq> installed s \<union> {x. authentic verify x}"
    using app_install_set [OF i] by (auto simp: installed_def)
  have u: "pkg_inv verify base (s\<lparr>ps_apps := t', ps_store := st', ps_cache := c\<rparr>)"
    if "app_uninstall B junk k (t, st) = (b, t', st')" for k b t' st' c
    using pkg_inv_apps [OF assms(1), of t'] app_uninstall_set [OF that] t by blast
  have "pkg_inv verify base (s\<lparr>ps_apps := t, ps_store := st\<rparr>)"
    using pkg_inv_apps [OF assms(1) t, where st = st and c = "ps_cache s"] by simp
  then show ?thesis using assms(4) i pkg_inv_apps [OF assms(1) t] u
    by (auto simp: install_and_cache_def split: option.splits prod.splits)
qed

lemma find_manifest_in: "find_manifest name s = Some m \<Longrightarrow> m \<in> set (ps_catalog s)"
  by (auto simp: find_manifest_def Let_def find_Some_iff)

lemma vouched_hash_length: "vouched verify m \<Longrightarrow> length (pm_hash m) = 32"
  using parse_catalog_wf by (fastforce simp: vouched_def manifest_wf_def)

lemma resolve_inv:
  assumes "resolve B junk now now' p name s = Some (r, s')" "pkg_inv verify base s"
  shows "pkg_inv verify base s'"
proof (cases "find_manifest name s")
  case (Some m)
  then have v: "vouched verify m" using assms(2) by (auto dest: find_manifest_in simp: pkg_inv_def)
  have h: "std_sha256 b = pm_hash m" if "hash_eq (sha256_hash b) (pm_hash m)" for b
    using that hash_eq_iff [OF length_sha256_hash vouched_hash_length [OF v]] by (simp add: sha256_hash_std)
  have "pkg_inv verify base s''" if "install_and_cache B junk now' m b s = (r'', s'')" "hash_eq (sha256_hash b) (pm_hash m)" for b r'' s''
    using install_and_cache_inv [OF assms(2) v h [OF that(2)] that(1)] .
  then show ?thesis using assms Some
    by (auto simp: resolve_def split: Option.bind_split_asm option.split_asm prod.split_asm http_result.split_asm if_split_asm)
qed (use assms in \<open>auto simp: resolve_def\<close>)

lemma evict_inv:
  assumes "cache_evict B junk app_id s = (r, s')" "pkg_inv verify base s"
  shows "pkg_inv verify base s'"
proof -
  have u: "pkg_inv verify base (s\<lparr>ps_cache := c, ps_apps := t', ps_store := st'\<rparr>)"
    if "app_uninstall B junk k (ps_apps s, ps_store s) = (b, t', st')" for k b t' st' c
    using assms(2) app_uninstall_set [OF that] by (auto simp: pkg_inv_def installed_def)
  then show ?thesis using assms by (auto simp: cache_evict_def split: option.splits prod.splits)
qed

lemma pkg_step_inv: "pkg_step verify B junk s s' \<Longrightarrow> pkg_inv verify base s \<Longrightarrow> pkg_inv verify base s'"
proof (induction rule: pkg_step.induct)
  case (step_resolve now now' p name s r' s')
  then show ?case by (cases name) (auto simp: sys_pkg_resolve_def dest: resolve_inv)
next
  case (step_evict i s e s')
  then show ?case by (cases "cache_evict B junk (ucast i) s") (auto simp: sys_pkg_evict_def dest: evict_inv)
qed (auto simp: pkg_init_def sys_pkg_set_server_def dest!: refresh_inv)

lemma pkg_run_inv: "(pkg_step verify B junk)\<^sup>*\<^sup>* s s' \<Longrightarrow> pkg_inv verify base s \<Longrightarrow> pkg_inv verify base s'"
  by (induction rule: rtranclp_induct) (auto dest: pkg_step_inv)

text \<open>C4.  Only authenticated code is delivered: whatever the package servers send and however refreshes,
  resolutions and evictions are mixed, an application in the registry was there at boot, or its record is
  made from a bundle whose SHA-256 is in a manifest of a catalog whose signature verifies under the key in
  the kernel.\<close>

theorem packages_authentic:
  assumes "(pkg_step verify B junk)\<^sup>*\<^sup>* s s'" "ps_catalog s = []" "r \<in> installed s'"
  shows "r \<in> installed s \<or> authentic verify r"
proof -
  have "pkg_inv verify (installed s) s" using assms(2) by (simp add: pkg_inv_def)
  from pkg_run_inv [OF assms(1) this] show ?thesis using assms(3) by (auto simp: pkg_inv_def)
qed

text \<open>A server that offers one package, and what a boot and a resolution do with it.\<close>

definition demo_manifest :: pkg_manifest where
  "demo_manifest = sample_manifest\<lparr>pm_hash := sha256_hash small_bundle, pm_flags := 0\<rparr>"

definition demo_boot :: "(nat \<Rightarrow> bytes) pkg_state" where
  "demo_boot = \<lparr> ps_ip = 0x0A000202, ps_port = 8080, ps_catalog = [], ps_cache = cache_new, ps_apps = app_table_empty, ps_store = empty_store \<rparr>"

lemma honest_fetch:
  assumes "length body < 1000"
  shows "fetch (honest_peer body) path s = Some (HOk body)"
proof -
  have "length (http_response (length body) body) \<le> 4096"
    using assms length_show_nat [of "length body"] by (simp add: http_response_parts status_line_points length_line_def ascii_def)
  then show ?thesis unfolding fetch_def by (rule http_get_honest)
qed

lemma demo_runs:
  "\<exists>s r. (pkg_step (\<lambda>k m sig. True) mem_blk (\<lambda>i. replicate 4 0))\<^sup>*\<^sup>* demo_boot s \<and> r \<in> installed s \<and> r \<notin> installed demo_boot"
proof -
  let ?c = "serialize_catalog [demo_manifest]" and ?step = "pkg_step (\<lambda>k m sig. True) mem_blk (\<lambda>i. replicate 4 0)"
  define s1 where "s1 = demo_boot\<lparr>ps_catalog := [demo_manifest]\<rparr>"
  have wf: "\<forall>m \<in> set [demo_manifest]. manifest_wf m" by (simp add: manifest_wf_def demo_manifest_def sample_manifest_def)
  have "pkg_init (\<lambda>k m sig. True) (honest_peer ?c) (honest_peer (replicate 64 0)) demo_boot = Some (Some (), s1)"
    using length_serialize [OF wf] parse_serialized [OF wf, of "[]"]
    by (simp add: pkg_init_def refresh_catalog_def honest_fetch verify_catalog_sig_def s1_def)
  then have 1: "?step demo_boot s1" by (rule step_init)
  obtain hdr where hdr: "parse_header small_bundle = Some hdr" using small_bundle_header by blast
  have "replicate 63 (0 :: u8) = 0 # replicate 62 0" by (simp flip: replicate_Suc)
  then have nm: "cstr 64 (pm_name demo_manifest) = [65]" by (simp add: demo_manifest_def sample_manifest_def cstr_def)
  then have f: "find_manifest [65] s1 = Some demo_manifest" by (simp add: find_manifest_def s1_def)
  have "position (\<lambda>e. cc_active e \<and> hash_eq (cc_hash e) (pm_hash demo_manifest)) cache_new = None"
    unfolding position_None by (simp add: cache_new_def cache_entry_empty_def)
  then have c: "cache_lookup 1 (pm_hash demo_manifest) (ps_cache s1) = (None, ps_cache s1)"
    by (simp add: s1_def demo_boot_def cache_lookup_def)
  have h: "hash_eq (sha256_hash small_bundle) (pm_hash demo_manifest)"
    by (simp add: demo_manifest_def hash_eq_iff)
  have len: "length small_bundle < 1000" by (simp add: small_bundle_def OSX_MAGIC_def)
  let ?i = "install_and_cache mem_blk (\<lambda>i. replicate 4 0) 2 demo_manifest small_bundle s1"
  have "sys_pkg_resolve mem_blk (\<lambda>i. replicate 4 0) 1 2 (honest_peer small_bundle) (Some [65]) s1
      = Some (map_prod (\<lambda>r. case r of ResOk i \<Rightarrow> Some (uint i) | ResErr e \<Rightarrow> Some (resolve_errno e) | ResPanic \<Rightarrow> None) id ?i)"
    by (simp add: sys_pkg_resolve_def resolve_def f c h honest_fetch [OF len])
  then have 2: "?step s1 (snd ?i)" by (intro step_resolve) (simp add: map_prod_def split_beta)
  have "app_record_of 1 False small_bundle hdr \<in> installed (snd ?i)"
    by (simp add: install_and_cache_def app_install_def install_in_table_def hdr s1_def demo_boot_def app_table_empty_def
        find_by_name_def slot_lookup_def app_insert_def slot_store_def MAX_APPS_def cache_insert_def cache_new_def
        MAX_CACHED_def cache_entry_empty_def installed_def Let_def numeral_eq_Suc)
  moreover have "app_record_of 1 False small_bundle hdr \<notin> installed demo_boot"
    by (simp add: installed_def demo_boot_def app_table_empty_def)
  ultimately show ?thesis using 1 2 by (meson converse_rtranclp_into_rtranclp rtranclp.rtrancl_refl)
qed

theorem packages_authentic_witness:
  "\<exists>s r. (pkg_step (\<lambda>k m sig. True) mem_blk (\<lambda>i. replicate 4 0))\<^sup>*\<^sup>* demo_boot s \<and> r \<in> installed s \<and> authentic (\<lambda>k m sig. True) r"
proof -
  have "ps_catalog demo_boot = []" by (simp add: demo_boot_def)
  then show ?thesis using demo_runs packages_authentic by blast
qed

end
