(* ===== verification/App_Recovery.thy ===== *)
theory App_Recovery
  imports App_Store Proc_Sched
begin

text \<open>
  Launching applications and recovering them after a crash (\<^verbatim>\<open>kernel/src/app_registry/mod.rs\<close>): an
  application runs in a host process of its own; the exit of a process is reported to the registry,
  which queues the application for a relaunch when its thread group died abnormally; the event pump
  of the shell takes one queued application at a time, tears the old group down, gives the focus
  back to the shell and launches the application again, unless it crashed too often.

  The state joins the process table, the window manager, the registry and the three recovery
  tables.  The outer \<^const>\<open>None\<close> of a result is an operation that does not return.
\<close>

section \<open>State\<close>

definition RECOVERY_SLOTS :: nat where [kernel_defs]: "RECOVERY_SLOTS = 8"
definition MAX_RELAUNCHES :: u32 where [kernel_defs]: "MAX_RELAUNCHES = 3"
definition RELAUNCH_WINDOW_NS :: u64 where [kernel_defs]: "RELAUNCH_WINDOW_NS = 30000000000"
definition HOST_ELF_PATH :: string where "HOST_ELF_PATH = ''/bin/oscortex-host''"
definition APP_LAUNCH :: u32 where "APP_LAUNCH = 1"

type_synonym relaunch_history = "(u32 \<times> u32 \<times> u64) list"

record recovery =
  rc_running :: "(u32 \<times> u32) list"
  rc_pending :: "(u32 \<times> u32) list"
  rc_history :: relaunch_history

definition recovery_new :: recovery where
  "recovery_new = \<lparr> rc_running = replicate RECOVERY_SLOTS (0, 0), rc_pending = replicate RECOVERY_SLOTS (0, 0),
     rc_history = replicate RECOVERY_SLOTS (0, 0, 0) \<rparr>"

record host_state =
  hs_proc :: kproc
  hs_wm :: wm
  hs_apps :: app_table
  hs_rec :: recovery

section \<open>Recording starts and deaths\<close>

text \<open>\<^verbatim>\<open>iter_mut().find(P)\<close> followed by an assignment: the first slot that satisfies \<open>P\<close> is replaced.\<close>

definition note_running :: "u32 \<Rightarrow> u32 \<Rightarrow> recovery \<Rightarrow> recovery" where
  "note_running root_pid app_id r =
     r\<lparr>rc_running := modify_first (\<lambda>s. fst s = 0) (\<lambda>_. (root_pid, app_id)) (rc_running r)\<rparr>"

text \<open>The two flags say whether the attempts to take the locks of \<^verbatim>\<open>RUNNING\<close> and \<^verbatim>\<open>PENDING\<close> succeed.\<close>

definition note_thread_exit :: "bool \<times> bool \<Rightarrow> u32 \<Rightarrow> u32 \<Rightarrow> i32 \<Rightarrow> recovery \<Rightarrow> recovery" where
  "note_thread_exit free leader pid code r =
     (if \<not> fst free then r
      else
        case position (\<lambda>s. fst s = leader \<and> fst s \<noteq> 0) (rc_running r) of
          None \<Rightarrow> r
        | Some i \<Rightarrow>
            let app_id = snd (rc_running r ! i);
                forget = r\<lparr>rc_running := (rc_running r)[i := (0, 0)]\<rparr>
            in if code = 0 then (if pid = leader then forget else r)
               else if \<not> snd free then forget
               else forget\<lparr>rc_pending := modify_first (\<lambda>s. fst s = 0) (\<lambda>_. (app_id, leader)) (rc_pending r)\<rparr>)"

text \<open>The notifications a process operation sent, in their order; \<open>free i\<close> are the flags of the \<open>i\<close>-th call.\<close>

primrec deliver_notes :: "(nat \<Rightarrow> bool \<times> bool) \<Rightarrow> nat \<Rightarrow> proc_call list \<Rightarrow> recovery \<Rightarrow> recovery" where
  "deliver_notes free i [] r = r"
| "deliver_notes free i (c # cs) r =
     deliver_notes free (Suc i) cs
       (case c of NoteThreadExit leader pid code \<Rightarrow> note_thread_exit (free i) leader pid code r | _ \<Rightarrow> r)"

definition with_notes :: "(nat \<Rightarrow> bool \<times> bool) \<Rightarrow> kproc \<Rightarrow> host_state \<Rightarrow> host_state" where
  "with_notes free k s =
     s\<lparr>hs_proc := k, hs_rec := deliver_notes free 0 (drop (length (kp_calls (hs_proc s))) (kp_calls k)) (hs_rec s)\<rparr>"

definition exit_process :: "(nat \<Rightarrow> bool \<times> bool) \<Rightarrow> u32 \<Rightarrow> i32 \<Rightarrow> host_state \<Rightarrow> host_state option" where
  "exit_process free pid code s = map_option (\<lambda>k. with_notes free k s) (proc_exit pid code (hs_proc s))"

section \<open>Launching\<close>

text \<open>An operation of the window manager, followed by the wake-ups it asks for.\<close>

definition post :: "(ptable \<Rightarrow> wm \<Rightarrow> (u32 list \<times> wm) option) \<Rightarrow> host_state \<Rightarrow> host_state option" where
  "post f s = do {
     (ks, w) \<leftarrow> f (kp_table (hs_proc s)) (hs_wm s);
     let (wakes, t) = run_wakes ks (kp_wakes (hs_proc s), kp_table (hs_proc s));
     Some (s\<lparr>hs_wm := w, hs_proc := (hs_proc s)\<lparr>kp_wakes := wakes, kp_table := t\<rparr>\<rparr>) }"

definition host_bootstrap :: "u32 \<Rightarrow> spawn_bootstrap" where
  "host_bootstrap app_id = \<lparr> sb_rdi = HOST_MODE_APP, sb_rsi = ucast app_id, sb_rdx = 0, sb_parent_pid = 1 \<rparr>"

definition launch :: "paging_ops \<Rightarrow> (string \<Rightarrow> bytes option) \<Rightarrow> u32 \<Rightarrow> host_state \<Rightarrow> (int \<times> host_state) option" where
  "launch po fs app_id s =
     (case app_find (hs_apps s) app_id of
        None \<Rightarrow> Some (-2, s)
      | Some record \<Rightarrow>
     (case fs HOST_ELF_PATH of
        None \<Rightarrow> Some (-2, s)
      | Some elf \<Rightarrow>
     (case spawn_with_bootstrap po elf (host_bootstrap app_id) (hs_proc s) of
        (Inl e, k) \<Rightarrow> Some (-12, s\<lparr>hs_proc := k\<rparr>)
      | (Inr child_pid, k) \<Rightarrow>
          let k1 = k\<lparr>kp_table := set_bootstrap_regs child_pid HOST_MODE_APP (ucast app_id) 0 (kp_table k)\<rparr>;
              s1 = s\<lparr>hs_proc := k1, hs_rec := note_running child_pid app_id (hs_rec s)\<rparr>
          in do {
            s2 \<leftarrow> post (\<lambda>t. push_app_event t child_pid APP_LAUNCH 0) s1;
            s3 \<leftarrow> post (\<lambda>t. set_focus_pid t child_pid) s2;
            Some (uint child_pid, s3) })))"

section \<open>Relaunching\<close>

text \<open>The bookkeeping of the attempts of one application: a slot is found or claimed, an expired window
  starts anew, and the attempt is counted unless three were made.\<close>

definition history_slot :: "u64 \<Rightarrow> u32 \<Rightarrow> relaunch_history \<Rightarrow> (nat \<times> relaunch_history) option" where
  "history_slot now app_id h =
     (case position (\<lambda>s. fst s = app_id) h of
        Some i \<Rightarrow> Some (i, h)
      | None \<Rightarrow>
          (case position (\<lambda>s. fst s = 0) h of
             Some i \<Rightarrow> Some (i, h[i := (app_id, 0, now)])
           | None \<Rightarrow> None))"

definition backoff :: "u64 \<Rightarrow> u32 \<Rightarrow> relaunch_history \<Rightarrow> bool \<times> relaunch_history" where
  "backoff now app_id h =
     (case history_slot now app_id h of
        None \<Rightarrow> (False, h)
      | Some (i, h1) \<Rightarrow>
          let h2 = (if RELAUNCH_WINDOW_NS < sat_sub now (snd (snd (h1 ! i))) then h1[i := (app_id, 0, now)] else h1);
              (a, attempts, start) = h2 ! i
          in if MAX_RELAUNCHES \<le> attempts then (False, h2)
             else (True, h2[i := (a, attempts + 1, start)]))"

text \<open>The steps of a drain: the survivors are killed, the shell gets the focus, the attempt is counted and the
  application launched.  The result names the application that is launched again, if any.\<close>

definition refocus_shell :: "host_state \<Rightarrow> host_state option" where
  "refocus_shell s = (if wm_focus (hs_wm s) \<noteq> 1 then post (\<lambda>t. set_focus_pid t 1) s else Some s)"

definition relaunch ::
    "paging_ops \<Rightarrow> (string \<Rightarrow> bytes option) \<Rightarrow> u64 \<Rightarrow> u32 \<Rightarrow> host_state \<Rightarrow> (u32 option \<times> host_state) option" where
  "relaunch po fs now app_id s =
     (case backoff now app_id (rc_history (hs_rec s)) of
        (False, h) \<Rightarrow> Some (None, s\<lparr>hs_rec := (hs_rec s)\<lparr>rc_history := h\<rparr>\<rparr>)
      | (True, h) \<Rightarrow> map_option (\<lambda>(pid, s'). (Some app_id, s')) (launch po fs app_id (s\<lparr>hs_rec := (hs_rec s)\<lparr>rc_history := h\<rparr>\<rparr>)))"

definition recover ::
    "paging_ops \<Rightarrow> (string \<Rightarrow> bytes option) \<Rightarrow> (nat \<Rightarrow> bool \<times> bool) \<Rightarrow> u64 \<Rightarrow> u32 \<Rightarrow> u32 \<Rightarrow> host_state \<Rightarrow> (u32 option \<times> host_state) option" where
  "recover po fs free now app_id dead_leader s = do {
     (killed, k) \<leftarrow> kill_group dead_leader (hs_proc s);
     s1 \<leftarrow> refocus_shell (with_notes free k s);
     relaunch po fs now app_id s1 }"

definition drain_relaunches ::
    "paging_ops \<Rightarrow> (string \<Rightarrow> bytes option) \<Rightarrow> bool \<Rightarrow> (nat \<Rightarrow> bool \<times> bool) \<Rightarrow> u64 \<Rightarrow> host_state \<Rightarrow> (u32 option \<times> host_state) option" where
  "drain_relaunches po fs pending_free free now s =
     (case (if pending_free then position (\<lambda>p. fst p \<noteq> 0) (rc_pending (hs_rec s)) else None) of
        None \<Rightarrow> Some (None, s)
      | Some i \<Rightarrow>
          (case rc_pending (hs_rec s) ! i of
             (app_id, dead_leader) \<Rightarrow>
               recover po fs free now app_id dead_leader
                 (s\<lparr>hs_rec := (hs_rec s)\<lparr>rc_pending := (rc_pending (hs_rec s))[i := (0, 0)]\<rparr>\<rparr>)))"

section \<open>System calls\<close>

definition sys_app_launch ::
    "paging_ops \<Rightarrow> (string \<Rightarrow> bytes option) \<Rightarrow> u64 \<Rightarrow> host_state \<Rightarrow> (int \<times> host_state) option" where
  "sys_app_launch po fs app_id = launch po fs (ucast app_id)"

definition sys_app_close_foreground :: "u32 \<Rightarrow> host_state \<Rightarrow> (int \<times> host_state) option" where
  "sys_app_close_foreground caller s =
     (if caller = 1 then Some (1, s)
      else do {
        s1 \<leftarrow> post (\<lambda>t. set_focus_pid t 1) s;
        let k = hs_proc s1;
        Some (1, if is_blocked 1 (kp_table k) then s1\<lparr>hs_proc := k\<lparr>kp_table := snd (set_state 1 Running (kp_table k))\<rparr>\<rparr> else s1) })"

section \<open>Runs\<close>

datatype rec_op = RecLaunch u32 | RecExit "nat \<Rightarrow> bool \<times> bool" u32 i32 | RecDrain bool "nat \<Rightarrow> bool \<times> bool" u64 | RecClose u32

primrec rec_exec :: "paging_ops \<Rightarrow> (string \<Rightarrow> bytes option) \<Rightarrow> rec_op \<Rightarrow> host_state \<Rightarrow> ((u32 \<times> u64) list \<times> host_state) option" where
  "rec_exec po fs (RecLaunch app_id) s = map_option (\<lambda>(pid, s'). ([], s')) (launch po fs app_id s)"
| "rec_exec po fs (RecExit free pid code) s = map_option (Pair []) (exit_process free pid code s)"
| "rec_exec po fs (RecDrain pending_free free now) s =
     map_option (\<lambda>(a, s'). (case a of None \<Rightarrow> [] | Some app_id \<Rightarrow> [(app_id, now)], s')) (drain_relaunches po fs pending_free free now s)"
| "rec_exec po fs (RecClose caller) s = map_option (\<lambda>(r, s'). ([], s')) (sys_app_close_foreground caller s)"

text \<open>A run with the relaunches it made, each with the time of the clock.\<close>

primrec rec_run :: "paging_ops \<Rightarrow> (string \<Rightarrow> bytes option) \<Rightarrow> rec_op list \<Rightarrow> host_state \<Rightarrow> ((u32 \<times> u64) list \<times> host_state) option" where
  "rec_run po fs [] s = Some ([], s)"
| "rec_run po fs (x # xs) s = do { (a, s1) \<leftarrow> rec_exec po fs x s; (b, s2) \<leftarrow> rec_run po fs xs s1; Some (a @ b, s2) }"

primrec drain_time :: "rec_op \<Rightarrow> nat list" where
  "drain_time (RecLaunch app_id) = []"
| "drain_time (RecExit free pid code) = []"
| "drain_time (RecDrain pending_free free now) = [unat now]"
| "drain_time (RecClose caller) = []"

definition times_of :: "u32 \<Rightarrow> (u32 \<times> u64) list \<Rightarrow> nat list" where
  "times_of app_id as = map (unat \<circ> snd) (filter (\<lambda>a. fst a = app_id) as)"

section \<open>How often an application is relaunched\<close>

text \<open>The attempts of an application fall into windows: \<open>H\<close> marks the attempts that opened one.  At most
  two attempts follow an opening, and openings are more than \<open>gap\<close> apart.\<close>

definition windowed :: "nat \<Rightarrow> (nat \<Rightarrow> bool) \<Rightarrow> nat list \<Rightarrow> nat \<Rightarrow> nat \<Rightarrow> bool" where
  "windowed gap H ts n start \<longleftrightarrow> 1 \<le> n \<and> n \<le> 3 \<and> n \<le> length ts \<and> H (length ts - n) \<and> ts ! (length ts - n) = start \<and>
     (\<forall>j < length ts. H j \<longrightarrow> j \<le> length ts - n) \<and>
     (\<forall>i. i + 3 < length ts \<longrightarrow> (\<exists>j. i < j \<and> j \<le> i + 3 \<and> H j)) \<and>
     (\<forall>j k. H j \<longrightarrow> H k \<longrightarrow> j < k \<longrightarrow> k < length ts \<longrightarrow> ts ! j + gap < ts ! k)"

lemma windowedD:
  assumes "windowed gap H ts n start"
  shows "1 \<le> n" "n \<le> 3" "n \<le> length ts" "H (length ts - n)" "ts ! (length ts - n) = start"
    "j < length ts \<Longrightarrow> H j \<Longrightarrow> j \<le> length ts - n"
    "i + 3 < length ts \<Longrightarrow> \<exists>j. i < j \<and> j \<le> i + 3 \<and> H j"
    "H j \<Longrightarrow> H k \<Longrightarrow> j < k \<Longrightarrow> k < length ts \<Longrightarrow> ts ! j + gap < ts ! k"
  using assms by (simp_all add: windowed_def)

lemma windowed_first: "windowed gap (\<lambda>j. j = 0) [t] 1 t"
  unfolding windowed_def by auto

lemma windowed_next:
  assumes w: "windowed gap H ts n start" and n: "n < 3"
  shows "windowed gap (\<lambda>j. H j \<and> j < length ts) (ts @ [t]) (Suc n) start"
proof -
  note l = windowedD(1,3,4) [OF w]
  have lt: "length ts - n < length ts" using l by linarith
  have "\<exists>j. i < j \<and> j \<le> i + 3 \<and> H j \<and> j < length ts" if i: "i + 3 < Suc (length ts)" for i
  proof (cases "i + 3 < length ts")
    case True
    then show ?thesis using windowedD(7) [OF w True] by fastforce
  next
    case False
    then have "i + 3 = length ts" using i by simp
    then show ?thesis using l n by (intro exI [of _ "length ts - n"]) auto
  qed
  moreover have "(ts @ [t]) ! j + gap < (ts @ [t]) ! k" if "H j \<and> j < length ts" "H k \<and> k < length ts" "j < k" for j k
    using that windowedD(8) [OF w, of j k] by (simp add: nth_append)
  moreover have "(ts @ [t]) ! (length ts - n) = start" using windowedD(5) [OF w] lt by (simp add: nth_append)
  ultimately show ?thesis using n l lt windowedD(6) [OF w] unfolding windowed_def by simp
qed

lemma windowed_new:
  assumes w: "windowed gap H ts n start" and t: "start + gap < t" and s: "sorted ts"
  shows "windowed gap (\<lambda>j. H j \<and> j < length ts \<or> j = length ts) (ts @ [t]) 1 t"
proof -
  have sep: "ts ! j + gap < t" if "H j" "j < length ts" for j
  proof -
    have "ts ! j \<le> ts ! (length ts - n)" using windowedD(1,3) [OF w] windowedD(6) [OF w that(2,1)] s by (intro sorted_nth_mono) auto
    then show ?thesis using windowedD(5) [OF w] t by simp
  qed
  have "\<exists>j. i < j \<and> j \<le> i + 3 \<and> (H j \<and> j < length ts \<or> j = length ts)" if i: "i + 3 < Suc (length ts)" for i
  proof (cases "i + 3 < length ts")
    case True
    then show ?thesis using windowedD(7) [OF w True] by fastforce
  qed (use i in \<open>auto intro: exI [of _ "length ts"]\<close>)
  then show ?thesis using sep windowedD(8) [OF w] unfolding windowed_def by (auto simp: nth_append)
qed

lemma windowed_rate:
  assumes w: "windowed gap H ts n start" and s: "sorted ts" and i: "i + 6 < length ts"
  shows "ts ! i + gap < ts ! (i + 6)"
proof -
  obtain j where j: "i < j" "j \<le> i + 3" "H j" using windowedD(7) [OF w, of i] i by auto
  obtain k where k: "j < k" "k \<le> j + 3" "H k" using windowedD(7) [OF w, of j] i j by auto
  have "ts ! j + gap < ts ! k" using windowedD(8) [OF w j(3) k(3,1)] i j k by auto
  moreover have "ts ! i \<le> ts ! j" "ts ! k \<le> ts ! (i + 6)" using s i j k by (auto intro!: sorted_nth_mono)
  ultimately show ?thesis by simp
qed

lemma windowed_count:
  assumes w: "windowed gap H ts n start" and s: "sorted ts"
  shows "length (filter (\<lambda>x. t \<le> x \<and> x \<le> t + gap) ts) \<le> 6"
proof (rule ccontr)
  let ?I = "{j. j < length ts \<and> t \<le> ts ! j \<and> ts ! j \<le> t + gap}"
  assume "\<not> length (filter (\<lambda>x. t \<le> x \<and> x \<le> t + gap) ts) \<le> 6"
  then have c: "7 \<le> card ?I" by (simp add: length_filter_conv_card)
  then have "card ?I \<noteq> 0" by linarith
  then have ne: "?I \<noteq> {}" by (metis card.empty)
  have f: "finite ?I" by simp
  define i k where "i = Min ?I" and "k = Max ?I"
  have ik: "i \<in> ?I" "k \<in> ?I" using Min_in [OF f ne] Max_in [OF f ne] by (simp_all add: i_def k_def)
  have "?I \<subseteq> {i..k}" using f by (auto simp: i_def k_def)
  then have "card ?I \<le> Suc k - i" using card_mono [of "{i..k}" ?I] by simp
  then have k: "i + 6 \<le> k" using c by simp
  then have "ts ! i + gap < ts ! (i + 6)" using ik by (intro windowed_rate [OF w s]) auto
  moreover have "ts ! (i + 6) \<le> ts ! k" using s k ik by (auto intro: sorted_nth_mono)
  ultimately show False using ik by simp
qed

text \<open>The history remembers the last window of every application.\<close>

definition hist_ok :: "relaunch_history \<Rightarrow> u32 \<Rightarrow> nat list \<Rightarrow> nat \<Rightarrow> bool" where
  "hist_ok h app_id ts now \<longleftrightarrow> sorted ts \<and> (\<forall>t \<in> set ts. t \<le> now) \<and>
     (case find (\<lambda>s. fst s = app_id) h of
        None \<Rightarrow> ts = []
      | Some s \<Rightarrow> \<exists>H. windowed (unat RELAUNCH_WINDOW_NS) H ts (unat (fst (snd s))) (unat (snd (snd s))))"

lemma hist_ok_mono: "hist_ok h a ts now \<Longrightarrow> now \<le> later \<Longrightarrow> hist_ok h a ts later"
  by (auto simp: hist_ok_def)

lemma find_position: "find P xs = map_option (\<lambda>i. xs ! i) (position P xs)"
  by (induction xs) (auto simp: option.map_comp comp_def)

lemma find_update_other: "i < length xs \<Longrightarrow> \<not> P (xs ! i) \<Longrightarrow> \<not> P x \<Longrightarrow> find P (xs[i := x]) = find P xs"
  by (induction xs arbitrary: i) (auto split: nat.splits)

lemma find_update_position: "position P xs = Some i \<Longrightarrow> P x \<Longrightarrow> find P (xs[i := x]) = Some x"
  by (induction xs arbitrary: i) (auto split: if_splits)

lemma find_update_new: "find P xs = None \<Longrightarrow> i < length xs \<Longrightarrow> P x \<Longrightarrow> find P (xs[i := x]) = Some x"
  by (induction xs arbitrary: i) (auto split: nat.splits if_splits)

lemma backoff_other:
  assumes "backoff now a h = (ok, h')" "b \<noteq> a" "b \<noteq> 0"
  shows "find (\<lambda>s. fst s = b) h' = find (\<lambda>s. fst s = b) h"
proof (cases "history_slot now a h")
  case (Some x)
  obtain i h1 where x: "x = (i, h1)" by fastforce
  have i: "i < length h1" "fst (h1 ! i) = a" and f: "find (\<lambda>s. fst s = b) h1 = find (\<lambda>s. fst s = b) h"
    using Some assms(2,3) unfolding x history_slot_def
    by (auto dest!: position_Some simp: find_update_other split: option.splits)
  define h2 where "h2 = (if RELAUNCH_WINDOW_NS < sat_sub now (snd (snd (h1 ! i))) then h1[i := (a, 0, now)] else h1)"
  have h2: "i < length h2" "fst (h2 ! i) = a" "find (\<lambda>s. fst s = b) h2 = find (\<lambda>s. fst s = b) h"
    using i f assms(2) by (simp_all add: h2_def find_update_other)
  have "h' = h2 \<or> (\<exists>n start. h' = h2[i := (a, n, start)])"
    using assms(1) Some h2(2) by (auto simp: backoff_def x h2_def [symmetric] Let_def split: prod.splits if_splits)
  then show ?thesis using h2 assms(2) by (auto simp: find_update_other)
qed (use assms in \<open>simp add: backoff_def\<close>)

lemma hist_ok_append:
  assumes "hist_ok h a ts prev" "prev \<le> now" "find (\<lambda>s. fst s = a) h' = Some (a, n, start)"
    "windowed (unat RELAUNCH_WINDOW_NS) H (ts @ [now]) (unat n) (unat start)"
  shows "hist_ok h' a (ts @ [now]) now"
  using assms by (auto simp: hist_ok_def sorted_append)

lemma backoff_same:
  assumes b: "backoff now a h = (ok, h')" and a: "a \<noteq> 0" and h: "hist_ok h a ts prev" "prev \<le> unat now"
  shows "hist_ok h' a (if ok then ts @ [unat now] else ts) (unat now)"
proof (cases "position (\<lambda>s. fst s = a) h")
  case None
  then have f: "find (\<lambda>s. fst s = a) h = None" by (simp add: find_position)
  then have ts: "ts = []" using h by (simp add: hist_ok_def)
  show ?thesis
  proof (cases "position (\<lambda>s. fst s = 0) h")
    case (Some i)
    then have i: "i < length h" by (simp add: position_Some)
    have "ok" "h' = h[i := (a, 1, now)]"
      using b None Some i by (simp_all add: backoff_def history_slot_def sat_sub_def MAX_RELAUNCHES_def RELAUNCH_WINDOW_NS_def)
    then show ?thesis using find_update_new [OF f i, of "(a, 1, now)"]
      by (auto simp: ts hist_ok_def intro: windowed_first [simplified])
  next
    case None2: None
    then have "\<not> ok" "h' = h" using b None by (simp_all add: backoff_def history_slot_def)
    then show ?thesis using h hist_ok_mono by simp
  qed
next
  case (Some i)
  note p = position_Some [OF Some]
  obtain n start where e: "h ! i = (a, n, start)" using p by (cases "h ! i") auto
  then have f: "find (\<lambda>s. fst s = a) h = Some (a, n, start)" using Some by (simp add: find_position)
  then obtain H where w: "windowed (unat RELAUNCH_WINDOW_NS) H ts (unat n) (unat start)" and s: "sorted ts"
    using h by (auto simp: hist_ok_def)
  have up: "find (\<lambda>s. fst s = a) (h[i := (a, n', start')]) = Some (a, n', start')" for n' start'
    using Some by (rule find_update_position) simp
  show ?thesis
  proof (cases "RELAUNCH_WINDOW_NS < sat_sub now start")
    case True
    then have "ok" "h' = h[i := (a, 1, now)]"
      using b Some e p by (simp_all add: backoff_def history_slot_def MAX_RELAUNCHES_def)
    moreover have "unat start + unat RELAUNCH_WINDOW_NS < unat now"
      using True by (simp add: word_less_nat_alt sat_sub_unat)
    ultimately show ?thesis using hist_ok_append [OF h up [of 1 now]] windowed_new [OF w _ s] by auto
  next
    case False
    show ?thesis
    proof (cases "MAX_RELAUNCHES \<le> n")
      case True
      then have "\<not> ok" "h' = h" using b Some e p False by (simp_all add: backoff_def history_slot_def)
      then show ?thesis using h hist_ok_mono by simp
    next
      case less: False
      then have "ok" "h' = h[i := (a, n + 1, start)]"
        using b Some e p False by (simp_all add: backoff_def history_slot_def)
      moreover have n: "unat n < 3" using less by (simp add: MAX_RELAUNCHES_def word_le_nat_alt)
      then have "unat (n + 1) = Suc (unat n)" by (subst unat_Suc_bounded) simp_all
      ultimately show ?thesis using hist_ok_append [OF h up [of "n + 1" start]] windowed_next [OF w n] by auto
    qed
  qed
qed

text \<open>Only the drain touches the history.\<close>

lemma note_history [simp]:
  "rc_history (note_running pid a r) = rc_history r" "rc_history (note_thread_exit free leader pid code r) = rc_history r"
  by (simp_all add: note_running_def note_thread_exit_def Let_def split: option.split)

lemma deliver_history [simp]: "rc_history (deliver_notes free i cs r) = rc_history r"
  by (induction cs arbitrary: i r) (simp_all split: proc_call.split)

lemma with_notes_history [simp]: "rc_history (hs_rec (with_notes free k s)) = rc_history (hs_rec s)"
  by (simp add: with_notes_def)

lemma post_rec: "post f s = Some s' \<Longrightarrow> hs_rec s' = hs_rec s"
  by (auto simp: post_def split: Option.bind_split_asm prod.split_asm)

lemma launch_history: "launch po fs a s = Some (pid, s') \<Longrightarrow> rc_history (hs_rec s') = rc_history (hs_rec s)"
  by (auto simp: launch_def Let_def dest!: post_rec split: Option.bind_split_asm option.split_asm prod.split_asm sum.split_asm)

lemma refocus_history: "refocus_shell s = Some s' \<Longrightarrow> rc_history (hs_rec s') = rc_history (hs_rec s)"
  by (auto simp: refocus_shell_def dest: post_rec split: if_splits)

lemma relaunch_history_cases:
  assumes "relaunch po fs now a s = Some (again, s')"
  shows "\<exists>ok. backoff now a (rc_history (hs_rec s)) = (ok, rc_history (hs_rec s')) \<and> again = (if ok then Some a else None)"
proof -
  obtain ok h where b: "backoff now a (rc_history (hs_rec s)) = (ok, h)" by fastforce
  have "rc_history (hs_rec s') = h" "again = (if ok then Some a else None)"
    using assms launch_history [of po fs a "s\<lparr>hs_rec := (hs_rec s)\<lparr>rc_history := h\<rparr>\<rparr>"]
    by (cases ok; auto simp: relaunch_def b)+
  then show ?thesis using b by blast
qed

lemma recover_history:
  assumes "recover po fs free now a l s = Some (again, s')"
  shows "\<exists>ok. backoff now a (rc_history (hs_rec s)) = (ok, rc_history (hs_rec s')) \<and> again = (if ok then Some a else None)"
proof -
  obtain n k s1 where "kill_group l (hs_proc s) = Some (n, k)" and s1: "refocus_shell (with_notes free k s) = Some s1"
    and r: "relaunch po fs now a s1 = Some (again, s')"
    using assms by (auto simp: recover_def split: Option.bind_split_asm)
  from refocus_history [OF s1] have "rc_history (hs_rec s1) = rc_history (hs_rec s)" by simp
  then show ?thesis using relaunch_history_cases [OF r] by simp
qed

lemma drain_history:
  assumes d: "drain_relaunches po fs pf free now s = Some (again, s')"
  shows "(again = None \<and> rc_history (hs_rec s') = rc_history (hs_rec s)) \<or>
    (\<exists>a ok. a \<noteq> 0 \<and> backoff now a (rc_history (hs_rec s)) = (ok, rc_history (hs_rec s')) \<and> again = (if ok then Some a else None))"
proof (cases "if pf then position (\<lambda>p. fst p \<noteq> 0) (rc_pending (hs_rec s)) else None")
  case None
  then show ?thesis using d unfolding drain_relaunches_def by simp
next
  case (Some i)
  obtain a l where al: "rc_pending (hs_rec s) ! i = (a, l)" by fastforce
  have "position (\<lambda>p. fst p \<noteq> 0) (rc_pending (hs_rec s)) = Some i" using Some by (simp split: if_splits)
  from position_Some [OF this] have "a \<noteq> 0" using al by simp
  moreover have "recover po fs free now a l (s\<lparr>hs_rec := (hs_rec s)\<lparr>rc_pending := (rc_pending (hs_rec s))[i := (0, 0)]\<rparr>\<rparr>) = Some (again, s')"
    using d unfolding drain_relaunches_def Some option.case al prod.case .
  from recover_history [OF this] have "\<exists>ok. backoff now a (rc_history (hs_rec s)) = (ok, rc_history (hs_rec s')) \<and> again = (if ok then Some a else None)"
    by simp
  ultimately show ?thesis by blast
qed

definition rates_ok :: "(u32 \<times> u64) list \<Rightarrow> nat \<Rightarrow> host_state \<Rightarrow> bool" where
  "rates_ok as now s \<longleftrightarrow> times_of 0 as = [] \<and> (\<forall>a. a \<noteq> 0 \<longrightarrow> hist_ok (rc_history (hs_rec s)) a (times_of a as) now)"

lemma rates_ok_history:
  assumes "rates_ok as prev s" "rc_history (hs_rec s') = rc_history (hs_rec s)" "prev \<le> now"
  shows "rates_ok as now s'"
  using assms hist_ok_mono unfolding rates_ok_def by metis

lemma close_history: "sys_app_close_foreground caller s = Some (r, s') \<Longrightarrow> rc_history (hs_rec s') = rc_history (hs_rec s)"
  by (auto simp: sys_app_close_foreground_def Let_def dest!: post_rec split: Option.bind_split_asm if_split_asm)

lemma drain_rates:
  assumes d: "drain_relaunches po fs pf free now s = Some (again, s')" and r: "rates_ok as prev s" and p: "prev \<le> unat now"
  shows "rates_ok (as @ (case again of None \<Rightarrow> [] | Some a \<Rightarrow> [(a, now)])) (unat now) s'"
  using drain_history [OF d]
proof (elim disjE exE conjE)
  assume "again = None" "rc_history (hs_rec s') = rc_history (hs_rec s)"
  then show ?thesis using rates_ok_history [OF r _ p] by simp
next
  fix a ok
  assume a: "a \<noteq> 0" "backoff now a (rc_history (hs_rec s)) = (ok, rc_history (hs_rec s'))" "again = (if ok then Some a else None)"
  let ?as = "as @ (case again of None \<Rightarrow> [] | Some a \<Rightarrow> [(a, now)])"
  have ts: "times_of b ?as = (if ok \<and> b = a then times_of b as @ [unat now] else times_of b as)" for b
    by (simp add: a(3) times_of_def)
  have "hist_ok (rc_history (hs_rec s')) b (times_of b ?as) (unat now)" if "b \<noteq> 0" for b
  proof (cases "b = a")
    case True
    have "hist_ok (rc_history (hs_rec s)) a (times_of a as) prev" using r a(1) by (simp add: rates_ok_def)
    from backoff_same [OF a(2,1) this p] show ?thesis by (simp add: ts True)
  next
    case False
    have "hist_ok (rc_history (hs_rec s)) b (times_of b as) (unat now)" using r that p hist_ok_mono by (auto simp: rates_ok_def)
    then show ?thesis using False by (simp add: ts hist_ok_def backoff_other [OF a(2) False that])
  qed
  then show ?thesis using a(1) r by (simp add: rates_ok_def ts)
qed

lemma rec_exec_rates:
  assumes "rec_exec po fs x s = Some (as', s')" "rates_ok as prev s" "\<forall>t \<in> set (drain_time x). prev \<le> t"
  shows "rates_ok (as @ as') (last (prev # drain_time x)) s'"
proof (cases x)
  case (RecLaunch a)
  then show ?thesis using assms(1) rates_ok_history [OF assms(2) _ order_refl] by (auto dest: launch_history)
next
  case (RecExit free pid code)
  then show ?thesis using assms(1) rates_ok_history [OF assms(2) _ order_refl] by (auto simp: exit_process_def)
next
  case (RecDrain pf free now)
  then show ?thesis using assms(1,3) drain_rates [OF _ assms(2)] by auto
next
  case (RecClose caller)
  then show ?thesis using assms(1) rates_ok_history [OF assms(2) _ order_refl] by (auto dest: close_history)
qed

lemma rec_run_rates:
  assumes "rec_run po fs xs s = Some (as', s')" "rates_ok as prev s" "sorted (prev # concat (map drain_time xs))"
  shows "\<exists>now. rates_ok (as @ as') now s'"
  using assms
proof (induction xs arbitrary: s as as' prev)
  case (Cons x xs)
  obtain a b s1 where r: "rec_exec po fs x s = Some (a, s1)" "rec_run po fs xs s1 = Some (b, s')" "as' = a @ b"
    using Cons.prems(1) by (auto split: Option.bind_split_asm)
  have "rates_ok (as @ a) (last (prev # drain_time x)) s1"
    using Cons.prems(3) by (intro rec_exec_rates [OF r(1) Cons.prems(2)]) auto
  moreover have "sorted (last (prev # drain_time x) # concat (map drain_time xs))"
    using Cons.prems(3) by (cases x) auto
  ultimately show ?case using Cons.IH [OF r(2), of "as @ a"] r(3) by simp
qed auto

text \<open>C14.  A crashing application is relaunched at a bounded rate: over all sequences of launches, process
  exits, closings and drains with a clock that does not run backwards, at most six relaunches of the same
  application are tried in any period of 30 seconds.\<close>

theorem relaunch_rate_bounded:
  assumes "rec_run po fs xs s = Some (relaunches, s')"
    and "rc_history (hs_rec s) = replicate RECOVERY_SLOTS (0, 0, 0)" and "sorted (concat (map drain_time xs))"
  shows "length (filter (\<lambda>x. t \<le> x \<and> x \<le> t + unat RELAUNCH_WINDOW_NS) (times_of app_id relaunches)) \<le> 6"
proof -
  have "find (\<lambda>s. fst s = a) (replicate RECOVERY_SLOTS (0, 0 :: u32, 0 :: u64)) = None" if "a \<noteq> 0" for a :: u32
    using that by (auto simp: find_None_iff)
  then have "rates_ok [] 0 s" by (simp add: rates_ok_def times_of_def hist_ok_def assms(2))
  from rec_run_rates [OF assms(1) this] assms(3) obtain now where r: "rates_ok relaunches now s'" by auto
  show ?thesis
  proof (cases "times_of app_id relaunches = []")
    case False
    then have "app_id \<noteq> 0" using r by (auto simp: rates_ok_def)
    then have "hist_ok (rc_history (hs_rec s')) app_id (times_of app_id relaunches) now" using r by (simp add: rates_ok_def)
    then obtain H n start where "windowed (unat RELAUNCH_WINDOW_NS) H (times_of app_id relaunches) n start"
      "sorted (times_of app_id relaunches)"
      using False by (auto simp: hist_ok_def split: option.split_asm)
    then show ?thesis by (rule windowed_count)
  qed simp
qed

section \<open>Recovery returns\<close>

lemma push_event_for_returns:
  assumes "table_inv n t"
  shows "\<exists>ks w'. push_event_for t owner kind flags a b w = Some (ks, w') \<and> wm_focus w' = wm_focus w"
  by (auto simp: push_event_for_def Let_def canonical_eq [OF assms])

lemma maybe_push_returns:
  assumes "table_inv n t"
  shows "\<exists>ks w'. (if c then push_event_for t owner kind flags a b w else Some ([], w)) = Some (ks, w') \<and> wm_focus w' = wm_focus w"
  using push_event_for_returns [OF assms] by (cases c) auto

lemma set_focus_returns:
  assumes "table_inv n t"
  shows "\<exists>ks w'. set_focus_pid t pid w = Some (ks, w') \<and> wm_focus w' = (if pid \<le> 1 then pid else leader_of t pid)"
proof -
  define p where "p = (if pid \<le> 1 then pid else leader_of t pid)"
  have c: "canonical_pid t pid = Some p" by (simp add: p_def canonical_eq [OF assms])
  show ?thesis
  proof (cases "wm_focus w = p")
    case True
    then show ?thesis by (simp add: set_focus_pid_def c p_def [symmetric] Let_def)
  next
    case False
    obtain k1 w1 where 1: "(if wm_focus w \<noteq> 0 then push_event_for t (wm_focus w) EV_FOCUS FOCUS_LOST (ucast p) 0 (w\<lparr>wm_focus := p\<rparr>)
        else Some ([], w\<lparr>wm_focus := p\<rparr>)) = Some (k1, w1)" "wm_focus w1 = p"
      using maybe_push_returns [OF assms, of "wm_focus w \<noteq> 0" "wm_focus w" EV_FOCUS FOCUS_LOST "ucast p" 0 "w\<lparr>wm_focus := p\<rparr>"] by auto
    obtain k2 w2 where 2: "(if p \<noteq> 0 then push_event_for t p EV_FOCUS FOCUS_GAINED (ucast (wm_focus w)) 0 w1 else Some ([], w1)) = Some (k2, w2)"
      "wm_focus w2 = p"
      using maybe_push_returns [OF assms, of "p \<noteq> 0" p EV_FOCUS FOCUS_GAINED "ucast (wm_focus w)" 0 w1] 1(2) by auto
    obtain k3 w3 where 3: "(if wm_mirror w2 then push_event t EV_FOCUS FOCUS_MIRROR (ucast (wm_focus w)) (ucast p) w2 else Some ([], w2)) = Some (k3, w3)"
      "wm_focus w3 = p"
      using maybe_push_returns [OF assms, of "wm_mirror w2" 0 EV_FOCUS FOCUS_MIRROR "ucast (wm_focus w)" "ucast p" w2] 2(2)
      unfolding push_event_def by auto
    have "set_focus_pid t pid w = Some (k1 @ k2 @ k3, w3)"
      unfolding set_focus_pid_def c using False 1(1) 2(1) 3(1) by (simp only: Option.bind.simps Let_def if_False prod.case)
    then show ?thesis using 3(2) by (simp add: p_def)
  qed
qed

lemma run_wakes_lengths: "length wakes = 8 \<Longrightarrow> run_wakes ks (wakes, t) = (wakes', t') \<Longrightarrow> table_inv n t \<Longrightarrow> length wakes' = 8"
proof (induction ks arbitrary: wakes t)
  case (Cons k ks)
  obtain bc w1 t1 where c: "wake_process True k (wakes, t) = (bc, w1, t1)" by (metis prod_cases3)
  have "run_wakes ks (w1, t1) = (wakes', t')" using Cons.prems(2) c by (simp add: run_wakes_def)
  then show ?case using Cons.IH wake_process_inv [OF Cons.prems(3,1) c] by blast
qed (simp add: run_wakes_def)

text \<open>An operation of the window manager leaves the process table alone except for wake-ups.\<close>

definition woken_only :: "kproc \<Rightarrow> kproc \<Rightarrow> bool" where
  "woken_only k k' \<longleftrightarrow> kp_next_pid k' = kp_next_pid k \<and> (\<exists>P. \<forall>i < MAX_PROCS. kp_table k' ! i = (if P i then woken (kp_table k ! i) else kp_table k ! i))"

lemma post_returns:
  assumes inv: "proc_inv (hs_proc s)" and f: "f (kp_table (hs_proc s)) (hs_wm s) = Some (ks, w)"
  shows "\<exists>s'. post f s = Some s' \<and> hs_wm s' = w \<and> hs_rec s' = hs_rec s \<and> hs_apps s' = hs_apps s \<and> proc_inv (hs_proc s') \<and>
    woken_only (hs_proc s) (hs_proc s')"
proof -
  let ?k = "hs_proc s"
  have i: "table_inv (unat (kp_next_pid ?k)) (kp_table ?k)" "length (kp_wakes ?k) = 8" using inv by (simp_all add: proc_inv_def)
  obtain wakes t where r: "run_wakes ks (kp_wakes ?k, kp_table ?k) = (wakes, t)" by fastforce
  have "length wakes = 8" using r i run_wakes_lengths by blast
  moreover have "\<exists>P. \<forall>j < MAX_PROCS. t ! j = (if P j then woken (kp_table ?k ! j) else kp_table ?k ! j)"
    using run_wakes_slots [OF i(2) table_inv_length [OF i(1)] r] by blast
  ultimately show ?thesis using inv f run_wakes_table(1) [OF i r]
    by (simp add: post_def r proc_inv_def woken_only_def)
qed

lemma woken_only_refl [simp]: "woken_only k k"
  by (auto simp: woken_only_def intro: exI [of _ "\<lambda>i. False"])

lemma woken_only_trans:
  assumes "woken_only k k'" "woken_only k' k''"
  shows "woken_only k k''"
proof -
  obtain P Q where "\<forall>i < MAX_PROCS. kp_table k' ! i = (if P i then woken (kp_table k ! i) else kp_table k ! i)"
    "\<forall>i < MAX_PROCS. kp_table k'' ! i = (if Q i then woken (kp_table k' ! i) else kp_table k' ! i)"
    using assms by (auto simp: woken_only_def)
  then have "\<forall>i < MAX_PROCS. kp_table k'' ! i = (if P i \<or> Q i then woken (kp_table k ! i) else kp_table k ! i)" by simp
  moreover have "kp_next_pid k'' = kp_next_pid k" using assms by (simp add: woken_only_def)
  ultimately show ?thesis unfolding woken_only_def by (intro conjI exI [of _ "\<lambda>i. P i \<or> Q i"])
qed

lemma woken_only_slot:
  assumes "woken_only k k'" "i < MAX_PROCS"
  shows "kp_table k' ! i = kp_table k ! i \<or> kp_table k' ! i = woken (kp_table k ! i)"
  using assms by (auto simp: woken_only_def split: if_splits)

lemma woken_only_leader: "woken_only k k' \<Longrightarrow> leader_of (kp_table k') pid = leader_of (kp_table k) pid"
  using woken_only_slot [of k k' "idx_of pid"] by (auto simp: leader_of_def is_thread_def proc_at_def)

lemma woken_only_active:
  assumes "woken_only k k'" "i < MAX_PROCS"
  shows "active_member (kp_table k') l (kp_table k' ! i) = active_member (kp_table k) l (kp_table k ! i)"
    "p_pid (kp_table k' ! i) = p_pid (kp_table k ! i)"
  using woken_only_slot [OF assms] by (auto simp: active_member_def woken_only_leader [OF assms(1)] woken_def)

text \<open>All active members of the group of \<open>l\<close> have the pid \<open>f\<close>.\<close>

definition group_only :: "u32 \<Rightarrow> u32 \<Rightarrow> kproc \<Rightarrow> bool" where
  "group_only l f k \<longleftrightarrow> (\<forall>i < MAX_PROCS. active_member (kp_table k) l (kp_table k ! i) \<longrightarrow> p_pid (kp_table k ! i) = f)"

lemma group_only_woken: "woken_only k k' \<Longrightarrow> group_only l f k \<Longrightarrow> group_only l f k'"
  by (simp add: group_only_def woken_only_active)

text \<open>A host process that was started for an application.\<close>

definition fresh_host :: "u32 \<Rightarrow> u32 \<Rightarrow> ptable \<Rightarrow> bool" where
  "fresh_host app_id pid t \<longleftrightarrow> p_pid (proc_at t pid) = pid \<and> p_state (proc_at t pid) = Running \<and> \<not> p_is_thread (proc_at t pid) \<and>
     r_rdi (p_regs (proc_at t pid)) = HOST_MODE_APP \<and> r_rsi (p_regs (proc_at t pid)) = ucast app_id"

lemma fresh_host_woken: "woken_only k k' \<Longrightarrow> fresh_host a pid (kp_table k) \<Longrightarrow> fresh_host a pid (kp_table k')"
  using woken_only_slot [of k k' "idx_of pid"] by (auto simp: fresh_host_def proc_at_def woken_def)

lemma install_group:
  assumes t: "table_inv n t" and g: "\<forall>i < MAX_PROCS. \<not> active_member t l (t ! i)" and q: "p_pid q = pid"
  shows "\<forall>i < MAX_PROCS. active_member (t[idx_of pid := q]) l (t[idx_of pid := q] ! i) \<longrightarrow> p_pid (t[idx_of pid := q] ! i) = pid"
proof (intro allI impI)
  fix i assume i: "i < MAX_PROCS" and a: "active_member (t[idx_of pid := q]) l (t[idx_of pid := q] ! i)"
  show "p_pid (t[idx_of pid := q] ! i) = pid"
  proof (cases "i = idx_of pid")
    case False
    let ?p = "t ! i"
    have p: "p_state ?p = Running \<or> p_state ?p = Blocked" using a False by (simp add: active_member_def)
    then have "idx_of (p_pid ?p) = i" using live_at_slot(1) [OF t i] by auto
    then have "proc_at (t[idx_of pid := q]) (p_pid ?p) = proc_at t (p_pid ?p)" using False by (simp add: proc_at_def)
    then have "active_member t l ?p" using a False by (auto simp: active_member_def leader_of_def is_thread_def)
    then show ?thesis using g i by simp
  qed (use q i table_inv_length [OF t] in simp)
qed

lemma spawn_host:
  assumes inv: "proc_inv k" "next_bound k" and sp: "spawn_with_bootstrap po elf (host_bootstrap a) k = (r, k')"
    and g: "\<forall>i < MAX_PROCS. \<not> active_member (kp_table k) l (kp_table k ! i)"
  shows "proc_inv k' \<and> (case r of
      Inl e \<Rightarrow> group_only l 0 k'
    | Inr pid \<Rightarrow> pid \<noteq> 0 \<and> (let t = set_bootstrap_regs pid HOST_MODE_APP (ucast a) 0 (kp_table k') in
        proc_inv (k'\<lparr>kp_table := t\<rparr>) \<and> fresh_host a pid t \<and> group_only l pid (k'\<lparr>kp_table := t\<rparr>)))"
proof -
  obtain q k1 where al: "alloc_pid k = (q, k1)" by fastforce
  have b: "unat (kp_next_pid k) + MAX_PROCS < 2 ^ 32" using inv(2) by (simp add: next_bound_def)
  note A = alloc_pid_inv [OF inv(1) b al]
  have ok: "proc_inv k'" using spawn_ok [OF inv sp] by (simp add: proc_ok_def)
  show ?thesis
  proof (cases r)
    case (Inl e)
    then have "kp_table k' = kp_table k" using spawn_cases [OF sp al] A(2) by (simp add: core_def)
    then show ?thesis using Inl ok g by (simp add: group_only_def)
  next
    case (Inr pid)
    then obtain pml4 entry stk home where q: "q = Some pid" and eq: "core k' = ((kp_table k1)[idx_of pid :=
        spawned pid pml4 entry stk home (host_bootstrap a) (proc_at (kp_table k1) pid)], kp_wakes k1, kp_next_pid k1)"
      using spawn_cases [OF sp al] by auto
    have "unat (kp_next_pid k) \<le> unat pid" using A(4) [OF q] by simp
    moreover have "0 < unat (kp_next_pid k)" using inv(1) by (simp add: proc_inv_def unat_gt_0)
    ultimately have nz: "pid \<noteq> 0" by auto
    let ?p = "spawned pid pml4 entry stk home (host_bootstrap a) (proc_at (kp_table k1) pid)"
    let ?f = "\<lambda>p. p\<lparr>p_regs := (p_regs p)\<lparr>r_rdi := HOST_MODE_APP, r_rsi := ucast a, r_rdx := 0\<rparr>\<rparr>"
    have t': "kp_table k' = (kp_table k)[idx_of pid := ?p]" using eq A(2) by (simp add: core_def)
    have len: "length (kp_table k) = MAX_PROCS" using inv(1) by (auto simp: proc_inv_def table_inv_def)
    have t: "set_bootstrap_regs pid HOST_MODE_APP (ucast a) 0 (kp_table k') = (kp_table k)[idx_of pid := ?f ?p]"
      by (simp add: set_bootstrap_regs_def update_pid_def t' proc_at_def len spawned_def)
    have "keeps_identity ?f" by (simp add: keeps_identity_def)
    then have "proc_inv (k'\<lparr>kp_table := set_bootstrap_regs pid HOST_MODE_APP (ucast a) 0 (kp_table k')\<rparr>)"
      using ok by (simp add: proc_inv_def set_bootstrap_regs_def table_inv_update_pid)
    moreover have "fresh_host a pid ((kp_table k)[idx_of pid := ?f ?p])"
      by (simp add: fresh_host_def proc_at_def len spawned_def)
    moreover have "group_only l pid (k'\<lparr>kp_table := (kp_table k)[idx_of pid := ?f ?p]\<rparr>)"
      using install_group [of "unat (kp_next_pid k)" "kp_table k" l "?f ?p" pid] inv(1) g
      by (simp add: group_only_def proc_inv_def spawned_def)
    ultimately show ?thesis using Inr ok nz t by (simp add: Let_def)
  qed
qed

lemma launch_returns:
  assumes inv: "proc_inv (hs_proc s)" "next_bound (hs_proc s)"
    and g: "\<forall>i < MAX_PROCS. \<not> active_member (kp_table (hs_proc s)) l (kp_table (hs_proc s) ! i)"
  shows "\<exists>r s'. launch po fs a s = Some (r, s') \<and> proc_inv (hs_proc s') \<and>
    (wm_focus (hs_wm s') = wm_focus (hs_wm s) \<and> group_only l 0 (hs_proc s') \<or>
     (\<exists>pid. wm_focus (hs_wm s') = pid \<and> fresh_host a pid (kp_table (hs_proc s')) \<and> group_only l pid (hs_proc s')))"
proof (cases "app_find (hs_apps s) a = None \<or> fs HOST_ELF_PATH = None")
  case True
  have "group_only l 0 (hs_proc s)" using g by (simp add: group_only_def)
  then show ?thesis using True inv(1) by (auto simp: launch_def split: option.split)
next
  case False
  then obtain rec elf where f: "app_find (hs_apps s) a = Some rec" "fs HOST_ELF_PATH = Some elf" by auto
  obtain r k where sp: "spawn_with_bootstrap po elf (host_bootstrap a) (hs_proc s) = (r, k)" by fastforce
  note S = spawn_host [OF inv sp g]
  show ?thesis
  proof (cases r)
    case (Inl e)
    then show ?thesis using f sp S by (simp add: launch_def)
  next
    case (Inr pid)
    define s1 where "s1 = s\<lparr>hs_proc := k\<lparr>kp_table := set_bootstrap_regs pid HOST_MODE_APP (ucast a) 0 (kp_table k)\<rparr>,
      hs_rec := note_running pid a (hs_rec s)\<rparr>"
    have s1: "proc_inv (hs_proc s1)" "fresh_host a pid (kp_table (hs_proc s1))" "group_only l pid (hs_proc s1)"
      using S Inr by (simp_all add: s1_def Let_def)
    have t1: "table_inv (unat (kp_next_pid (hs_proc s1))) (kp_table (hs_proc s1))" using s1(1) by (simp add: proc_inv_def)
    obtain s2 where s2: "post (\<lambda>t. push_app_event t pid APP_LAUNCH 0) s1 = Some s2" "proc_inv (hs_proc s2)" "woken_only (hs_proc s1) (hs_proc s2)"
      using push_event_for_returns [OF t1, of pid] post_returns [OF s1(1), of "\<lambda>t. push_app_event t pid APP_LAUNCH 0"]
      unfolding push_app_event_def by blast
    have t2: "table_inv (unat (kp_next_pid (hs_proc s2))) (kp_table (hs_proc s2))" using s2(2) by (simp add: proc_inv_def)
    obtain ks w where w: "set_focus_pid (kp_table (hs_proc s2)) pid (hs_wm s2) = Some (ks, w)"
      "wm_focus w = (if pid \<le> 1 then pid else leader_of (kp_table (hs_proc s2)) pid)"
      using set_focus_returns [OF t2] by blast
    from post_returns [OF s2(2), of "\<lambda>t. set_focus_pid t pid", OF w(1)] obtain s3 where
      s3: "post (\<lambda>t. set_focus_pid t pid) s2 = Some s3" "hs_wm s3 = w" "proc_inv (hs_proc s3)" "woken_only (hs_proc s2) (hs_proc s3)"
      by blast
    note w13 = woken_only_trans [OF s2(3) s3(4)]
    have "fresh_host a pid (kp_table (hs_proc s2))" by (rule fresh_host_woken [OF s2(3) s1(2)])
    then have foc: "wm_focus (hs_wm s3) = pid" using s3(2) w(2) by (simp add: leader_of_def is_thread_def fresh_host_def)
    have "launch po fs a s = Some (uint pid, s3)"
      using f sp Inr s2(1) s3(1) by (simp add: launch_def Let_def s1_def)
    then show ?thesis using s3(3) foc fresh_host_woken [OF w13 s1(2)] group_only_woken [OF w13 s1(3)] by blast
  qed
qed

lemma kill_group_next:
  assumes "proc_inv k" "kill_group l k = Some (n, k')"
  shows "kp_next_pid k' = kp_next_pid k"
proof -
  have t: "table_inv (unat (kp_next_pid k)) (kp_table k)" using assms(1) by (simp add: proc_inv_def)
  show ?thesis using assms(2) exit_all_table [OF assms(1), of "map p_pid (filter (active_member (kp_table k) l) (kp_table k))"]
    by (auto simp: kill_group_def group_victims_eq [OF t])
qed

lemma refocus_returns:
  assumes inv: "proc_inv (hs_proc s)"
  shows "\<exists>s'. refocus_shell s = Some s' \<and> wm_focus (hs_wm s') = 1 \<and> proc_inv (hs_proc s') \<and> woken_only (hs_proc s) (hs_proc s')"
proof (cases "wm_focus (hs_wm s) = 1")
  case False
  have "table_inv (unat (kp_next_pid (hs_proc s))) (kp_table (hs_proc s))" using inv by (simp add: proc_inv_def)
  from set_focus_returns [OF this, of 1 "hs_wm s"] obtain ks w where "set_focus_pid (kp_table (hs_proc s)) 1 (hs_wm s) = Some (ks, w)" "wm_focus w = 1"
    by auto
  then show ?thesis using post_returns [OF inv, of "\<lambda>t. set_focus_pid t 1"] False by (auto simp: refocus_shell_def)
qed (use inv in \<open>simp add: refocus_shell_def\<close>)

text \<open>C9.  Recovery always comes back and leaves the machine usable: with a dead application queued, the drain
  returns, keeps the process table consistent, and afterwards the focus is on the shell or on a freshly
  started, running host of that application; no other process of the dead thread group is running or
  blocked any more.\<close>

theorem crash_recovery_returns:
  assumes "proc_inv (hs_proc s)" "next_bound (hs_proc s)"
    and "position (\<lambda>p. fst p \<noteq> 0) (rc_pending (hs_rec s)) = Some i" "rc_pending (hs_rec s) ! i = (app_id, leader)"
  shows "\<exists>again s'. drain_relaunches po fs True free now s = Some (again, s') \<and> proc_inv (hs_proc s') \<and>
    (wm_focus (hs_wm s') = 1 \<or> again = Some app_id \<and> fresh_host app_id (wm_focus (hs_wm s')) (kp_table (hs_proc s'))) \<and>
    (\<forall>p \<in> set (kp_table (hs_proc s')). active_member (kp_table (hs_proc s')) leader p \<longrightarrow> p_pid p = wm_focus (hs_wm s'))"
proof -
  define s1 where "s1 = s\<lparr>hs_rec := (hs_rec s)\<lparr>rc_pending := (rc_pending (hs_rec s))[i := (0, 0)]\<rparr>\<rparr>"
  obtain n k where k: "kill_group leader (hs_proc s) = Some (n, k)" "proc_inv k" "\<not> (\<exists>p \<in> set (kp_table k). active_member (kp_table k) leader p)"
    using kill_group_effect [OF assms(1), of leader] by blast
  obtain s2 where s2: "refocus_shell (with_notes free k s1) = Some s2" "wm_focus (hs_wm s2) = 1" "proc_inv (hs_proc s2)" "woken_only k (hs_proc s2)"
    using refocus_returns [of "with_notes free k s1"] k(2) by (auto simp: with_notes_def)
  have len: "length (kp_table k) = MAX_PROCS" using k(2) by (auto simp: proc_inv_def table_inv_def)
  have dead: "\<forall>j < MAX_PROCS. \<not> active_member (kp_table (hs_proc s2)) leader (kp_table (hs_proc s2) ! j)"
    using woken_only_active(1) [OF s2(4)] k(3) nth_mem [of _ "kp_table k"] unfolding len by blast
  have nb: "next_bound (hs_proc s2)"
    using assms(2) kill_group_next [OF assms(1) k(1)] s2(4) by (simp add: next_bound_def woken_only_def)
  obtain ok h where b: "backoff now app_id (rc_history (hs_rec s2)) = (ok, h)" by fastforce
  let ?s3 = "s2\<lparr>hs_rec := (hs_rec s2)\<lparr>rc_history := h\<rparr>\<rparr>"
  have "\<exists>again s'. relaunch po fs now app_id s2 = Some (again, s') \<and> proc_inv (hs_proc s') \<and>
    (wm_focus (hs_wm s') = 1 \<and> group_only leader 0 (hs_proc s') \<or>
     again = Some app_id \<and> fresh_host app_id (wm_focus (hs_wm s')) (kp_table (hs_proc s')) \<and> group_only leader (wm_focus (hs_wm s')) (hs_proc s'))"
  proof (cases ok)
    case True
    then show ?thesis using launch_returns [of ?s3 leader po fs app_id] s2(2,3) nb dead b by (auto simp: relaunch_def)
  qed (use s2(2,3) dead b in \<open>auto simp: relaunch_def group_only_def\<close>)
  then obtain again s' where r: "relaunch po fs now app_id s2 = Some (again, s')" "proc_inv (hs_proc s')"
    "wm_focus (hs_wm s') = 1 \<and> group_only leader 0 (hs_proc s') \<or> again = Some app_id \<and>
      fresh_host app_id (wm_focus (hs_wm s')) (kp_table (hs_proc s')) \<and> group_only leader (wm_focus (hs_wm s')) (hs_proc s')" by blast
  have "drain_relaunches po fs True free now s = Some (again, s')"
    using k(1) s2(1) r(1) by (simp add: drain_relaunches_def assms(3,4) recover_def s1_def)
  moreover have "length (kp_table (hs_proc s')) = MAX_PROCS" using r(2) by (auto simp: proc_inv_def table_inv_def)
  then have "\<forall>p \<in> set (kp_table (hs_proc s')). active_member (kp_table (hs_proc s')) leader p \<longrightarrow> p_pid p = wm_focus (hs_wm s')"
    using r(3) by (auto simp: in_set_conv_nth group_only_def active_member_def)
  ultimately show ?thesis using r(2,3) by blast
qed

text \<open>A machine with one blocked process, whose application is queued for a relaunch but not installed.\<close>

definition crashed_host :: host_state where
  "crashed_host = \<lparr> hs_proc = witness_kproc, hs_wm = wm_new\<lparr>wm_focus := 1\<rparr>, hs_apps = app_table_empty,
     hs_rec = recovery_new\<lparr>rc_pending := [(5, 9)]\<rparr> \<rparr>"

lemma crashed_host_facts:
  "proc_inv (hs_proc crashed_host)" "next_bound (hs_proc crashed_host)"
  "position (\<lambda>p. fst p \<noteq> 0) (rc_pending (hs_rec crashed_host)) = Some 0" "rc_pending (hs_rec crashed_host) ! 0 = (5, 9)"
  using witness_inv by (simp_all add: crashed_host_def next_bound_def witness_kproc_def MAX_PROCS_def)

theorem crash_recovery_returns_witness:
  "\<forall>po. \<exists>again s'. drain_relaunches po (\<lambda>path. None) True (\<lambda>i. (True, True)) 100 crashed_host = Some (again, s') \<and> proc_inv (hs_proc s')"
  using crash_recovery_returns [OF crashed_host_facts] by blast

theorem relaunch_rate_bounded_witness:
  "\<forall>po fs. \<exists>s'. rec_run po fs [RecDrain True (\<lambda>i. (True, True)) 100] crashed_host = Some ([(5, 100)], s') \<and>
     length (filter (\<lambda>x. 50 \<le> x \<and> x \<le> 50 + unat RELAUNCH_WINDOW_NS) (times_of 5 [(5, 100)])) \<le> 6"
proof (intro allI)
  fix po fs
  obtain n k where k: "kill_group 9 witness_kproc = Some (n, k)" using kill_group_effect [OF witness_inv] by blast
  have "position (\<lambda>s. fst s = 5) (replicate 8 (0 :: u32, 0 :: u32, 0 :: u64)) = None" by (simp add: position_None)
  moreover have "position (\<lambda>s. fst s = 0) (replicate 8 (0 :: u32, 0 :: u32, 0 :: u64)) = Some 0"
    by (simp add: replicate_Suc [of 7, simplified] del: replicate_Suc)
  ultimately have "backoff 100 5 (replicate 8 (0, 0, 0)) = (True, (replicate 8 (0, 0, 0))[0 := (5, 1, 100)])"
    by (simp add: backoff_def history_slot_def sat_sub_def MAX_RELAUNCHES_def RELAUNCH_WINDOW_NS_def)
  then have "\<exists>s'. rec_run po fs [RecDrain True (\<lambda>i. (True, True)) 100] crashed_host = Some ([(5, 100)], s')"
    using k by (simp add: crashed_host_def drain_relaunches_def recover_def refocus_shell_def with_notes_def relaunch_def recovery_new_def
        RECOVERY_SLOTS_def launch_def app_find_def app_table_empty_def slot_lookup_def)
  then obtain s' where r: "rec_run po fs [RecDrain True (\<lambda>i. (True, True)) 100] crashed_host = Some ([(5, 100)], s')" by blast
  have "rc_history (hs_rec crashed_host) = replicate RECOVERY_SLOTS (0, 0, 0)" by (simp add: crashed_host_def recovery_new_def)
  from relaunch_rate_bounded [OF r this, of 50 5] r
  show "\<exists>s'. rec_run po fs [RecDrain True (\<lambda>i. (True, True)) 100] crashed_host = Some ([(5, 100)], s') \<and>
     length (filter (\<lambda>x. 50 \<le> x \<and> x \<le> 50 + unat RELAUNCH_WINDOW_NS) (times_of 5 [(5, 100)])) \<le> 6" by auto
qed

end
