(* ===== verification/Page_Tables.thy ===== *)
theory Page_Tables
  imports Frame_Alloc "HOL-Library.Monad_Syntax"
begin

text \<open>
  Virtual memory (\<^verbatim>\<open>kernel/src/mm/paging.rs\<close>, the \<^verbatim>\<open>x86_64\<close> walker and the public functions over
  it).  Physical memory is a store of 64-bit words addressed by the frame and the index of the word
  in it; the kernel reaches a frame through the direct map, a constant offset, so a table pointer
  is the frame's physical address.  Every table pointer the walkers follow is masked to a frame
  boundary, so two entries of different frames never overlap.  A function whose value is
  \<^term>\<open>None\<close> panics (\<^verbatim>\<open>phys_to_virt\<close> on an address outside the supported memory).

  The four-level tables of an address space implement a finite map from virtual pages to frames
  with their access rights: the walkers never panic on a well-formed space, every operation keeps
  it well-formed, and what a translation returns is the entry of the map.
\<close>

section \<open>Flags and indices\<close>

definition PRESENT :: u64 where [kernel_defs]: "PRESENT = push_bit 0 1"
definition WRITABLE :: u64 where [kernel_defs]: "WRITABLE = push_bit 1 1"
definition USER :: u64 where [kernel_defs]: "USER = push_bit 2 1"
definition WRITE_THROUGH :: u64 where [kernel_defs]: "WRITE_THROUGH = push_bit 3 1"
definition CACHE_DISABLE :: u64 where [kernel_defs]: "CACHE_DISABLE = push_bit 4 1"
definition HUGE :: u64 where [kernel_defs]: "HUGE = push_bit 7 1"
definition NO_EXECUTE :: u64 where [kernel_defs]: "NO_EXECUTE = push_bit 63 1"

definition mmio_flags :: u64 where
  "mmio_flags = PRESENT OR WRITABLE OR CACHE_DISABLE OR WRITE_THROUGH OR NO_EXECUTE"

definition PHYS_MASK :: u64 where [kernel_defs]: "PHYS_MASK = 0x000ffffffffff000"
definition PHYS_LIMIT :: u64 where [kernel_defs]: "PHYS_LIMIT = 0x0000000400000000"

definition pml4_idx :: "u64 \<Rightarrow> nat" where "pml4_idx virt = unat (drop_bit 39 virt AND 0x1ff)"
definition pdpt_idx :: "u64 \<Rightarrow> nat" where "pdpt_idx virt = unat (drop_bit 30 virt AND 0x1ff)"
definition pd_idx :: "u64 \<Rightarrow> nat" where "pd_idx virt = unat (drop_bit 21 virt AND 0x1ff)"
definition pt_idx :: "u64 \<Rightarrow> nat" where "pt_idx virt = unat (drop_bit 12 virt AND 0x1ff)"

section \<open>The store\<close>

type_synonym phys_mem = "u64 \<Rightarrow> nat \<Rightarrow> u64"

record vm_state =
  vm_mem :: phys_mem
  vm_frames :: frame_bitmap
  vm_cr3 :: u64
  vm_unmap_not_present :: u64
  vm_unmap_freed :: u64
  vm_unmap_calls :: u64

definition read_entry :: "vm_state \<Rightarrow> u64 \<Rightarrow> nat \<Rightarrow> u64" where
  "read_entry vm table i = vm_mem vm table i"

definition write_entry :: "u64 \<Rightarrow> nat \<Rightarrow> u64 \<Rightarrow> vm_state \<Rightarrow> vm_state" where
  "write_entry table i e vm =
     vm\<lparr> vm_mem := (vm_mem vm)(table := (vm_mem vm table)(i := e)) \<rparr>"

definition zero_frame :: "u64 \<Rightarrow> vm_state \<Rightarrow> vm_state" where
  "zero_frame phys vm = vm\<lparr> vm_mem := (vm_mem vm)(phys := (\<lambda>_. 0)) \<rparr>"

definition read_present :: "vm_state \<Rightarrow> u64 \<Rightarrow> nat \<Rightarrow> u64 option" where
  "read_present vm table i =
     (let e = read_entry vm table i in if e AND PRESENT = 0 then None else Some e)"

definition phys_to_virt :: "u64 \<Rightarrow> u64 option" where
  "phys_to_virt phys = (if phys \<ge> PHYS_LIMIT then None else Some phys)"

definition walk_table :: "u64 \<Rightarrow> u64 option" where
  "walk_table phys = (if phys = 0 \<or> phys \<ge> PHYS_LIMIT then None else Some phys)"

section \<open>The walkers\<close>

definition alloc_page_table :: "vm_state \<Rightarrow> (u64 option \<times> vm_state) option" where
  "alloc_page_table vm =
     (case frame_alloc (vm_frames vm) of
        (None, fb) \<Rightarrow> Some (None, vm\<lparr> vm_frames := fb \<rparr>)
      | (Some phys, fb) \<Rightarrow> do {
          p \<leftarrow> phys_to_virt phys;
          Some (Some phys, zero_frame p (vm\<lparr> vm_frames := fb \<rparr>)) })"

definition ensure_next_table_flags ::
    "u64 \<Rightarrow> nat \<Rightarrow> u64 \<Rightarrow> vm_state \<Rightarrow> (u64 option \<times> vm_state) option" where
  "ensure_next_table_flags table i flags vm =
     (let e = read_entry vm table i in
      if e AND PRESENT \<noteq> 0 then Some (Some (e AND PHYS_MASK), vm)
      else do {
        (r, vm1) \<leftarrow> alloc_page_table vm;
        case r of None \<Rightarrow> Some (None, vm1)
        | Some phys \<Rightarrow> Some (Some phys, write_entry table i (phys OR flags) vm1) })"

definition ensure_next_table :: "u64 \<Rightarrow> nat \<Rightarrow> vm_state \<Rightarrow> (u64 option \<times> vm_state) option" where
  "ensure_next_table table i vm =
     (let e = read_entry vm table i in
      if e AND PRESENT \<noteq> 0 then Some (Some (e AND PHYS_MASK), vm)
      else do {
        (r, vm1) \<leftarrow> alloc_page_table vm;
        case r of None \<Rightarrow> Some (None, vm1)
        | Some phys \<Rightarrow> Some (Some phys, write_entry table i (phys OR (PRESENT OR WRITABLE)) vm1) })"

text \<open>Kernel mappings extend the active tables; an allocation failure is logged and ignored.\<close>

definition map_page :: "u64 \<Rightarrow> u64 \<Rightarrow> u64 \<Rightarrow> vm_state \<Rightarrow> vm_state option" where
  "map_page virt phys flags vm = do {
     pml4 \<leftarrow> phys_to_virt (vm_cr3 vm AND PHYS_MASK);
     (r, vm) \<leftarrow> ensure_next_table pml4 (pml4_idx virt) vm;
     case r of None \<Rightarrow> Some vm | Some pdpt_phys \<Rightarrow> do {
       pdpt \<leftarrow> phys_to_virt pdpt_phys;
       (r, vm) \<leftarrow> ensure_next_table pdpt (pdpt_idx virt) vm;
       case r of None \<Rightarrow> Some vm | Some pd_phys \<Rightarrow> do {
         pd \<leftarrow> phys_to_virt pd_phys;
         (r, vm) \<leftarrow> ensure_next_table pd (pd_idx virt) vm;
         case r of None \<Rightarrow> Some vm | Some pt_phys \<Rightarrow> do {
           pt \<leftarrow> phys_to_virt pt_phys;
           Some (write_entry pt (pt_idx virt) ((phys AND PHYS_MASK) OR flags) vm) } } } }"

fun map_mmio_from :: "nat \<Rightarrow> u64 \<Rightarrow> u64 \<Rightarrow> vm_state \<Rightarrow> vm_state option" where
  "map_mmio_from 0 phys virt vm = Some vm"
| "map_mmio_from (Suc n) phys virt vm =
     do { vm \<leftarrow> map_page virt phys mmio_flags vm; map_mmio_from n (phys + 4096) (virt + 4096) vm }"

definition map_mmio :: "u64 \<Rightarrow> u64 \<Rightarrow> nat \<Rightarrow> vm_state \<Rightarrow> vm_state option" where
  "map_mmio phys virt len vm = map_mmio_from ((len + 4095) div 4096) phys virt vm"

definition copy_kernel_half :: "u64 \<Rightarrow> u64 \<Rightarrow> vm_state \<Rightarrow> vm_state" where
  "copy_kernel_half src dst vm =
     fold (\<lambda>i vm. write_entry dst i (read_entry vm src i) vm) [256..<512] vm"

definition alloc_user_pml4 :: "vm_state \<Rightarrow> (u64 option \<times> vm_state) option" where
  "alloc_user_pml4 vm = do {
     (r, vm) \<leftarrow> alloc_page_table vm;
     case r of None \<Rightarrow> Some (None, vm)
     | Some new_pml4_phys \<Rightarrow> do {
         new_pml4 \<leftarrow> phys_to_virt new_pml4_phys;
         kernel_pml4 \<leftarrow> phys_to_virt (vm_cr3 vm AND PHYS_MASK);
         Some (Some new_pml4_phys, copy_kernel_half kernel_pml4 new_pml4 vm) } }"

definition map_page_in ::
    "u64 \<Rightarrow> u64 \<Rightarrow> u64 \<Rightarrow> u64 \<Rightarrow> vm_state \<Rightarrow> ((string + unit) \<times> vm_state) option" where
  "map_page_in pml4_phys virt phys flags vm = do {
     let user_flags = PRESENT OR WRITABLE OR USER;
     pml4 \<leftarrow> phys_to_virt pml4_phys;
     (r, vm) \<leftarrow> ensure_next_table_flags pml4 (pml4_idx virt) user_flags vm;
     case r of None \<Rightarrow> Some (Inl ''OOM: PDPT'', vm) | Some pdpt_phys \<Rightarrow> do {
       pdpt \<leftarrow> phys_to_virt pdpt_phys;
       (r, vm) \<leftarrow> ensure_next_table_flags pdpt (pdpt_idx virt) user_flags vm;
       case r of None \<Rightarrow> Some (Inl ''OOM: PD'', vm) | Some pd_phys \<Rightarrow> do {
         pd \<leftarrow> phys_to_virt pd_phys;
         (r, vm) \<leftarrow> ensure_next_table_flags pd (pd_idx virt) user_flags vm;
         case r of None \<Rightarrow> Some (Inl ''OOM: PT'', vm) | Some pt_phys \<Rightarrow> do {
           pt \<leftarrow> phys_to_virt pt_phys;
           Some (Inr (), write_entry pt (pt_idx virt) ((phys AND PHYS_MASK) OR flags) vm) } } } }"

definition translate_pte :: "vm_state \<Rightarrow> u64 \<Rightarrow> u64 \<Rightarrow> u64 option" where
  "translate_pte vm pml4_phys virt = do {
     pml4 \<leftarrow> walk_table pml4_phys;
     pml4e \<leftarrow> read_present vm pml4 (pml4_idx virt);
     pdpt \<leftarrow> walk_table (pml4e AND PHYS_MASK);
     pdpte \<leftarrow> read_present vm pdpt (pdpt_idx virt);
     pd \<leftarrow> walk_table (pdpte AND PHYS_MASK);
     pde \<leftarrow> read_present vm pd (pd_idx virt);
     pt \<leftarrow> walk_table (pde AND PHYS_MASK);
     read_present vm pt (pt_idx virt) }"

text \<open>The pointer to a leaf entry that the two updating walkers compute, with the entry read there.\<close>

definition pte_ptr :: "vm_state \<Rightarrow> u64 \<Rightarrow> u64 \<Rightarrow> (string + u64 \<times> u64) option" where
  "pte_ptr vm pml4_phys virt = do {
     pml4 \<leftarrow> phys_to_virt pml4_phys;
     case read_present vm pml4 (pml4_idx virt) of None \<Rightarrow> Some (Inl ''not present'')
     | Some pml4e \<Rightarrow> do {
         pdpt \<leftarrow> phys_to_virt (pml4e AND PHYS_MASK);
         case read_present vm pdpt (pdpt_idx virt) of None \<Rightarrow> Some (Inl ''not present'')
         | Some pdpte \<Rightarrow> do {
             pd \<leftarrow> phys_to_virt (pdpte AND PHYS_MASK);
             case read_present vm pd (pd_idx virt) of None \<Rightarrow> Some (Inl ''not present'')
             | Some pde \<Rightarrow> do {
                 pt \<leftarrow> phys_to_virt (pde AND PHYS_MASK);
                 case read_present vm pt (pt_idx virt) of None \<Rightarrow> Some (Inl ''not present'')
                 | Some pte \<Rightarrow> Some (Inr (pt, pte)) } } } }"

definition user_page_flags :: "bool \<Rightarrow> bool \<Rightarrow> u64" where
  "user_page_flags writable exec =
     PRESENT OR USER OR (if writable then WRITABLE else 0) OR (if \<not> exec then NO_EXECUTE else 0)"

definition update_user_page_flags ::
    "u64 \<Rightarrow> u64 \<Rightarrow> bool \<Rightarrow> bool \<Rightarrow> vm_state \<Rightarrow> ((string + unit) \<times> vm_state) option" where
  "update_user_page_flags pml4_phys virt writable exec vm = do {
     r \<leftarrow> pte_ptr vm pml4_phys virt;
     case r of Inl err \<Rightarrow> Some (Inl err, vm)
     | Inr (pt, pte) \<Rightarrow>
         Some (Inr (), write_entry pt (pt_idx virt) ((pte AND PHYS_MASK) OR user_page_flags writable exec) vm) }"

definition unmap_page :: "u64 \<Rightarrow> u64 \<Rightarrow> vm_state \<Rightarrow> ((string + u64) \<times> vm_state) option" where
  "unmap_page pml4_phys virt vm = do {
     r \<leftarrow> pte_ptr vm pml4_phys virt;
     case r of Inl err \<Rightarrow> Some (Inl err, vm)
     | Inr (pt, pte) \<Rightarrow> Some (Inr (pte AND PHYS_MASK), write_entry pt (pt_idx virt) 0 vm) }"

text \<open>Tearing down an address space reads the tables and only changes the frame allocator.\<close>

definition free_pt :: "vm_state \<Rightarrow> u64 \<Rightarrow> frame_bitmap \<Rightarrow> frame_bitmap" where
  "free_pt vm pt = fold (\<lambda>l fb. let pte = read_entry vm pt l in
     if pte AND PRESENT \<noteq> 0 then frame_free (pte AND PHYS_MASK) fb else fb) [0..<512]"

definition free_pd :: "vm_state \<Rightarrow> u64 \<Rightarrow> frame_bitmap \<Rightarrow> frame_bitmap" where
  "free_pd vm pd = fold (\<lambda>k fb. let pde = read_entry vm pd k; pt_phys = pde AND PHYS_MASK in
     if pde AND PRESENT = 0 then fb
     else if pde AND HUGE \<noteq> 0 then frame_free pt_phys fb
     else case walk_table pt_phys of None \<Rightarrow> fb
          | Some pt \<Rightarrow> frame_free pt_phys (free_pt vm pt fb)) [0..<512]"

definition free_pdpt :: "vm_state \<Rightarrow> u64 \<Rightarrow> frame_bitmap \<Rightarrow> frame_bitmap" where
  "free_pdpt vm pdpt = fold (\<lambda>j fb. let pdpte = read_entry vm pdpt j; pd_phys = pdpte AND PHYS_MASK in
     if pdpte AND PRESENT = 0 then fb
     else if pdpte AND HUGE \<noteq> 0 then frame_free pd_phys fb
     else case walk_table pd_phys of None \<Rightarrow> fb
          | Some pd \<Rightarrow> frame_free pd_phys (free_pd vm pd fb)) [0..<512]"

definition free_pml4 :: "u64 \<Rightarrow> vm_state \<Rightarrow> vm_state" where
  "free_pml4 pml4_phys vm =
     (case walk_table pml4_phys of None \<Rightarrow> vm
      | Some pml4 \<Rightarrow> vm\<lparr> vm_frames := frame_free pml4_phys
          (fold (\<lambda>i fb. let pml4e = read_entry vm pml4 i; pdpt_phys = pml4e AND PHYS_MASK in
             if pml4e AND PRESENT = 0 then fb
             else case walk_table pdpt_phys of None \<Rightarrow> fb
                  | Some pdpt \<Rightarrow> frame_free pdpt_phys (free_pdpt vm pdpt fb)) [0..<256]
             (vm_frames vm)) \<rparr>)"

section \<open>The public functions\<close>

definition pml4_root_walkable :: "u64 \<Rightarrow> bool" where
  "pml4_root_walkable pml4_phys \<longleftrightarrow> pml4_phys \<noteq> 0 \<and> pml4_phys < PHYS_LIMIT"

definition map_user_page ::
    "u64 \<Rightarrow> u64 \<Rightarrow> u64 \<Rightarrow> vm_state \<Rightarrow> ((string + unit) \<times> vm_state) option" where
  "map_user_page pml4_phys virt phys vm =
     map_page_in pml4_phys virt phys (PRESENT OR WRITABLE OR USER OR NO_EXECUTE) vm"

definition map_user_page_with_flags ::
    "u64 \<Rightarrow> u64 \<Rightarrow> u64 \<Rightarrow> bool \<Rightarrow> bool \<Rightarrow> vm_state \<Rightarrow> ((string + unit) \<times> vm_state) option" where
  "map_user_page_with_flags pml4_phys virt phys writable exec vm =
     map_page_in pml4_phys virt phys (user_page_flags writable exec) vm"

definition translate_user_page :: "vm_state \<Rightarrow> u64 \<Rightarrow> u64 \<Rightarrow> u64 option" where
  "translate_user_page vm pml4_phys virt =
     (if \<not> pml4_root_walkable pml4_phys then None
      else do { pte \<leftarrow> translate_pte vm pml4_phys virt; Some (pte AND PHYS_MASK) })"

definition translate_user_page_flags :: "vm_state \<Rightarrow> u64 \<Rightarrow> u64 \<Rightarrow> (u64 \<times> bool \<times> bool) option" where
  "translate_user_page_flags vm pml4_phys virt =
     (if \<not> pml4_root_walkable pml4_phys then None
      else do { pte \<leftarrow> translate_pte vm pml4_phys virt;
                Some (pte AND PHYS_MASK, pte AND WRITABLE \<noteq> 0, pte AND NO_EXECUTE = 0) })"

definition free_user_pml4 :: "u64 \<Rightarrow> vm_state \<Rightarrow> vm_state" where
  "free_user_pml4 pml4_phys vm = (if \<not> pml4_root_walkable pml4_phys then vm else free_pml4 pml4_phys vm)"

definition update_user_page ::
    "u64 \<Rightarrow> u64 \<Rightarrow> bool \<Rightarrow> bool \<Rightarrow> vm_state \<Rightarrow> ((string + unit) \<times> vm_state) option" where
  "update_user_page = update_user_page_flags"

definition unmap_user_page :: "u64 \<Rightarrow> u64 \<Rightarrow> vm_state \<Rightarrow> ((string + u64) \<times> vm_state) option" where
  "unmap_user_page pml4_phys virt vm =
     (if \<not> pml4_root_walkable pml4_phys then Some (Inl ''dead/null pml4'', vm)
      else unmap_page pml4_phys virt vm)"

text \<open>\<^verbatim>\<open>(start..end).step_by(4096)\<close> over page boundaries, with the counts of the two outcomes.\<close>

fun unmap_pages :: "u64 \<Rightarrow> u64 list \<Rightarrow> u64 \<Rightarrow> u64 \<Rightarrow> vm_state \<Rightarrow> (u64 \<times> u64 \<times> vm_state) option" where
  "unmap_pages pml4_phys [] freed missing vm = Some (freed, missing, vm)"
| "unmap_pages pml4_phys (virt # virts) freed missing vm = do {
     (r, vm) \<leftarrow> unmap_user_page pml4_phys virt vm;
     case r of
       Inr phys \<Rightarrow> unmap_pages pml4_phys virts (freed + 1) missing
                     (vm\<lparr> vm_frames := frame_free phys (vm_frames vm) \<rparr>)
     | Inl _ \<Rightarrow> unmap_pages pml4_phys virts freed (missing + 1) vm }"

definition page_range :: "u64 \<Rightarrow> u64 \<Rightarrow> u64 list" where
  "page_range start end_va = map (\<lambda>i. start + of_nat (4096 * i)) [0..<(unat end_va - unat start) div 4096]"

definition unmap_user_range :: "u64 \<Rightarrow> u64 \<Rightarrow> u64 \<Rightarrow> vm_state \<Rightarrow> vm_state option" where
  "unmap_user_range pml4_phys start_va len vm =
     (if \<not> pml4_root_walkable pml4_phys then Some vm
      else if len = 0 then Some vm
      else do {
        (freed, missing, vm) \<leftarrow> unmap_pages pml4_phys
           (page_range (start_va AND NOT 0xFFF) ((start_va + len + 4095) AND NOT 0xFFF)) 0 0 vm;
        Some (vm\<lparr> vm_unmap_freed := vm_unmap_freed vm + freed,
                  vm_unmap_not_present := vm_unmap_not_present vm + missing,
                  vm_unmap_calls := vm_unmap_calls vm + 1 \<rparr>) })"

section \<open>Demand paging\<close>

definition demand_anon :: "u64 \<Rightarrow> u64 \<Rightarrow> vm_state \<Rightarrow> (bool \<times> vm_state) option" where
  "demand_anon cr3_phys page_va vm =
     (if page_va \<ge> 0x300000000 \<and> page_va < 0x10000000000 then
        case frame_alloc (vm_frames vm) of
          (Some phys, fb) \<Rightarrow> do {
            (r, vm) \<leftarrow> map_user_page_with_flags cr3_phys page_va phys True True
                          (zero_frame phys (vm\<lparr> vm_frames := fb \<rparr>));
            case r of Inr _ \<Rightarrow> Some (True, vm)
            | Inl _ \<Rightarrow> Some (False, vm\<lparr> vm_frames := frame_free phys (vm_frames vm) \<rparr>) }
        | (None, fb) \<Rightarrow> Some (False, vm\<lparr> vm_frames := fb \<rparr>)
      else Some (False, vm))"

definition demand_page :: "u64 \<Rightarrow> u64 \<Rightarrow> vm_state \<Rightarrow> (bool \<times> vm_state) option" where
  "demand_page cr2 err vm =
     (if err AND 1 \<noteq> 0 then Some (False, vm)
      else
        let cr3_phys = vm_cr3 vm AND 0x000ffffffffff000; page_va = cr2 AND NOT 0xFFF in
        if translate_user_page vm cr3_phys page_va \<noteq> None then Some (True, vm)
        else
          case (if page_va \<ge> 0x100000000 \<and> page_va < 0x300000000
                then translate_user_page_flags vm cr3_phys (page_va - 0x100000000) else None) of
            Some (phys, writable, exec) \<Rightarrow> do {
              (r, vm) \<leftarrow> map_user_page_with_flags cr3_phys page_va phys writable exec vm;
              case r of Inl _ \<Rightarrow> Some (False, vm) | Inr _ \<Rightarrow> Some (True, vm) }
          | None \<Rightarrow> demand_anon cr3_phys page_va vm)"

section \<open>Paths through the tables\<close>

text \<open>A path is the list of indices from the root; a user path stays in the lower half.\<close>

fun table_at :: "phys_mem \<Rightarrow> u64 \<Rightarrow> nat list \<Rightarrow> u64 option" where
  "table_at m t [] = Some t"
| "table_at m t (i # p) = (if m t i AND PRESENT = 0 then None else table_at m (m t i AND PHYS_MASK) p)"

definition user_path :: "nat list \<Rightarrow> bool" where
  "user_path p \<longleftrightarrow> length p \<le> 3 \<and> (\<forall>i \<in> set p. i < 512) \<and> (p \<noteq> [] \<longrightarrow> hd p < 256)"

definition pte_at :: "phys_mem \<Rightarrow> u64 \<Rightarrow> nat list \<Rightarrow> nat \<Rightarrow> u64 option" where
  "pte_at m t p l = do { T \<leftarrow> table_at m t p; if m T l AND PRESENT = 0 then None else Some (m T l) }"

definition path_of :: "u64 \<Rightarrow> nat list" where
  "path_of virt = [pml4_idx virt, pdpt_idx virt, pd_idx virt]"

definition user_va :: "u64 \<Rightarrow> bool" where "user_va virt \<longleftrightarrow> virt < 0x800000000000"

definition frame_no :: "u64 \<Rightarrow> nat" where "frame_no phys = unat (phys div of_nat FRAME_SIZE)"

definition table_frame :: "frame_bitmap \<Rightarrow> u64 \<Rightarrow> bool" where
  "table_frame fb t \<longleftrightarrow> (\<exists>f. t = of_nat f * of_nat FRAME_SIZE \<and> MIN_ALLOC_FRAME \<le> f \<and> f < MAX_FRAMES \<and>
     f \<notin> free_frames fb)"

text \<open>A well-formed address space: the tables reachable in the lower half form a tree of frames that
  the allocator has handed out, linked by entries that are not large pages.\<close>

definition vm_wf :: "u64 \<Rightarrow> vm_state \<Rightarrow> bool" where
  "vm_wf root vm \<longleftrightarrow> bitmap_wf (vm_frames vm) \<and>
     (\<forall>p t. user_path p \<and> table_at (vm_mem vm) root p = Some t \<longrightarrow> table_frame (vm_frames vm) t) \<and>
     (\<forall>p q t. user_path p \<and> user_path q \<and> table_at (vm_mem vm) root p = Some t \<and>
        table_at (vm_mem vm) root q = Some t \<longrightarrow> p = q) \<and>
     (\<forall>p i t. user_path (p @ [i]) \<and> table_at (vm_mem vm) root p = Some t \<and> vm_mem vm t i AND PRESENT \<noteq> 0 \<longrightarrow>
        vm_mem vm t i AND HUGE = 0)"

lemma table_at_snoc:
  "table_at m t (p @ [i]) = do { T \<leftarrow> table_at m t p; if m T i AND PRESENT = 0 then None else Some (m T i AND PHYS_MASK) }"
  by (induction p arbitrary: t) auto

lemma user_path_snoc: "user_path (p @ [i]) \<Longrightarrow> user_path p"
  by (cases p) (auto simp: user_path_def)

lemma index_field: "unat (w AND 0x1ff :: u64) = unat w mod 512"
proof -
  have "unat w AND 511 = take_bit 9 (unat w)" by (simp add: take_bit_eq_mask mask_eq_exp_minus_1)
  then show ?thesis by (simp add: unsigned_and_eq take_bit_eq_mod)
qed

lemma index_shift: "unat (drop_bit k w AND 0x1ff :: u64) = unat w div 2 ^ k mod 512"
  unfolding index_field unat_drop_bit_eq by (simp add: drop_bit_eq_div)

lemma four_digits:
  fixes a b :: nat
  assumes "a < 2 ^ 36" "b < 2 ^ 36" "a mod 512 = b mod 512" "a div 512 mod 512 = b div 512 mod 512"
    "a div 512 div 512 mod 512 = b div 512 div 512 mod 512"
    "a div 512 div 512 div 512 mod 512 = b div 512 div 512 div 512 mod 512"
  shows "a = b"
proof -
  have step: "x = y" if "x div 512 = y div 512" "x mod 512 = y mod 512" for x y :: nat
    using that by (metis div_mult_mod_eq)
  have "a div 512 div 512 div 512 < 512" "b div 512 div 512 div 512 < 512"
    using assms(1,2) by (simp_all add: div_mult2_eq [symmetric] less_mult_imp_div_less)
  with assms(6) have "a div 512 div 512 div 512 = b div 512 div 512 div 512" by simp
  with assms(3-5) show ?thesis by (metis step)
qed

lemma indices:
  "pt_idx v = unat v div 4096 mod 512"
  "pd_idx v = unat v div 4096 div 512 mod 512"
  "pdpt_idx v = unat v div 4096 div 512 div 512 mod 512"
  "pml4_idx v = unat v div 4096 div 512 div 512 div 512 mod 512"
  by (simp_all add: pt_idx_def pd_idx_def pdpt_idx_def pml4_idx_def index_shift div_mult2_eq [symmetric])

lemma user_va_page: "user_va v \<Longrightarrow> unat v div 4096 < 2 ^ 35"
  by (simp add: user_va_def word_less_nat_alt less_mult_imp_div_less)

lemma user_path_of: "user_va v \<Longrightarrow> user_path (path_of v)"
proof -
  assume "user_va v"
  from user_va_page [OF this] have "unat v div 4096 div 512 div 512 div 512 < 256"
    by (simp add: div_mult2_eq [symmetric] less_mult_imp_div_less)
  then show ?thesis by (simp add: user_path_def path_of_def indices)
qed

lemma same_page: "drop_bit 12 v = drop_bit 12 w \<longleftrightarrow> unat v div 4096 = unat (w :: u64) div 4096"
proof -
  have "unat (drop_bit 12 x) = unat x div 4096" for x :: u64
    unfolding unat_drop_bit_eq by (simp add: drop_bit_eq_div)
  then have "unat (drop_bit 12 v) = unat (drop_bit 12 w) \<longleftrightarrow> unat v div 4096 = unat w div 4096"
    by (simp only:)
  then show ?thesis by (simp only: word_unat_eq_iff)
qed

lemma page_of_indices:
  assumes "user_va v" "user_va w"
  shows "path_of v = path_of w \<and> pt_idx v = pt_idx w \<longleftrightarrow> drop_bit 12 v = drop_bit 12 w"
proof -
  define a b where "a = unat v div 4096" and "b = unat w div 4096"
  have "a < 2 ^ 36" "b < 2 ^ 36" using user_va_page [OF assms(1)] user_va_page [OF assms(2)] by (simp_all add: a_def b_def)
  note d = four_digits [OF this]
  have "path_of v = path_of w \<and> pt_idx v = pt_idx w \<longleftrightarrow>
      a mod 512 = b mod 512 \<and> a div 512 mod 512 = b div 512 mod 512 \<and>
      a div 512 div 512 mod 512 = b div 512 div 512 mod 512 \<and>
      a div 512 div 512 div 512 mod 512 = b div 512 div 512 div 512 mod 512"
    unfolding path_of_def indices a_def [symmetric] b_def [symmetric] by blast
  also have "\<dots> \<longleftrightarrow> a = b" using d by blast
  finally show ?thesis by (simp only: same_page a_def b_def)
qed

lemma frame_address_mask:
  assumes "f < MAX_FRAMES"
  shows "(of_nat f * of_nat FRAME_SIZE :: u64) AND PHYS_MASK = of_nat f * of_nat FRAME_SIZE"
proof -
  have m: "PHYS_MASK = push_bit 12 (mask 40)" by (simp add: PHYS_MASK_def mask_eq_exp_minus_1 push_bit_eq_mult)
  have p: "of_nat f * of_nat FRAME_SIZE = push_bit 12 (of_nat f :: u64)"
    by (simp add: FRAME_SIZE_def push_bit_eq_mult mult.commute)
  have "take_bit 40 (of_nat f :: u64) = of_nat f"
    using assms by (simp add: take_bit_of_nat take_bit_nat_eq_self MAX_FRAMES_def)
  then show ?thesis unfolding m p by (simp add: push_bit_and [symmetric] take_bit_eq_mask)
qed

lemma frame_flags_mask:
  assumes "f < MAX_FRAMES" "flags AND PHYS_MASK = 0"
  shows "(of_nat f * of_nat FRAME_SIZE OR flags :: u64) AND PHYS_MASK = of_nat f * of_nat FRAME_SIZE"
  using assms by (simp add: bit.conj_disj_distrib2 frame_address_mask)

lemma table_frame_sane:
  assumes "table_frame fb t"
  shows "t \<noteq> 0" "t < PHYS_LIMIT" "phys_to_virt t = Some t" "walk_table t = Some t"
proof -
  from assms obtain f where f: "t = of_nat f * of_nat FRAME_SIZE" "MIN_ALLOC_FRAME \<le> f" "f < MAX_FRAMES"
    by (auto simp: table_frame_def)
  from unat_frame_phys [OF f(3)] f have u: "unat t = f * 4096" by (simp add: FRAME_SIZE_def)
  with f show z: "t \<noteq> 0" by (auto simp: kernel_defs unat_eq_zero)
  from u f show l: "t < PHYS_LIMIT" by (simp add: word_less_nat_alt kernel_defs)
  from z l show "phys_to_virt t = Some t" "walk_table t = Some t"
    by (simp_all add: phys_to_virt_def walk_table_def not_le)
qed

lemma phys_mask_bits: "bit PHYS_MASK n \<longleftrightarrow> 12 \<le> n \<and> n < 52"
proof -
  have m: "PHYS_MASK = push_bit 12 (mask 40)" by (simp add: PHYS_MASK_def mask_eq_exp_minus_1 push_bit_eq_mult)
  show ?thesis unfolding m by (auto simp: bit_push_bit_iff bit_mask_iff)
qed

lemma shifted_bit: "bit (push_bit k 1 :: u64) n \<longleftrightarrow> n = k \<and> k < 64"
  by (auto simp add: bit_push_bit_iff bit_1_iff simp del: push_bit_of_1)

lemma shifted_test: "(x :: u64) AND push_bit k 1 = 0 \<longleftrightarrow> \<not> bit x k"
  by (simp add: bit_iff_and_push_bit_not_eq_0 del: push_bit_of_1)

lemma flag_bits:
  "bit PRESENT n \<longleftrightarrow> n = 0" "bit WRITABLE n \<longleftrightarrow> n = 1" "bit USER n \<longleftrightarrow> n = 2" "bit HUGE n \<longleftrightarrow> n = 7" "bit NO_EXECUTE n \<longleftrightarrow> n = 63"
  unfolding PRESENT_def WRITABLE_def USER_def HUGE_def NO_EXECUTE_def shifted_bit by simp_all

lemma flag_tests:
  "x AND PRESENT = 0 \<longleftrightarrow> \<not> bit x 0" "x AND WRITABLE = 0 \<longleftrightarrow> \<not> bit x 1" "x AND HUGE = 0 \<longleftrightarrow> \<not> bit x 7" "x AND NO_EXECUTE = 0 \<longleftrightarrow> \<not> bit x 63"
  unfolding PRESENT_def WRITABLE_def HUGE_def NO_EXECUTE_def shifted_test by (rule refl)+

lemma user_page_flags_bits:
  "bit (user_page_flags w e) n \<longleftrightarrow> n = 0 \<or> n = 2 \<or> (n = 1 \<and> w) \<or> (n = 63 \<and> \<not> e)"
  by (auto simp: user_page_flags_def bit_or_iff flag_bits)

lemma user_flags_facts:
  "(x OR (PRESENT OR WRITABLE OR USER)) AND PRESENT \<noteq> 0" "(PRESENT OR WRITABLE OR USER) AND PHYS_MASK = 0"
  by (simp add: flag_tests bit_or_iff flag_bits)
    (rule bit_word_eqI, auto simp: bit_or_iff bit_and_iff flag_bits phys_mask_bits)

lemma table_entry_not_huge:
  assumes "f < MAX_FRAMES"
  shows "(of_nat f * of_nat FRAME_SIZE OR (PRESENT OR WRITABLE OR USER)) AND HUGE = 0"
proof -
  have "\<not> bit ((of_nat f * of_nat FRAME_SIZE) AND PHYS_MASK) 7" unfolding bit_and_iff phys_mask_bits by simp
  then have "\<not> bit (of_nat f * of_nat FRAME_SIZE :: u64) 7" unfolding frame_address_mask [OF assms] .
  then show ?thesis by (simp add: flag_tests bit_or_iff flag_bits)
qed

lemma page_flags_facts:
  "(x OR user_page_flags w e) AND PRESENT \<noteq> 0"
  "((x AND PHYS_MASK) OR user_page_flags w e) AND PHYS_MASK = x AND PHYS_MASK"
  "((x AND PHYS_MASK) OR user_page_flags w e) AND WRITABLE = 0 \<longleftrightarrow> \<not> w"
  "((x AND PHYS_MASK) OR user_page_flags w e) AND NO_EXECUTE = 0 \<longleftrightarrow> e"
  by (simp add: flag_tests bit_or_iff user_page_flags_bits)
    (rule bit_word_eqI, auto simp: flag_tests bit_or_iff bit_and_iff user_page_flags_bits phys_mask_bits)

lemma rw_page_flags: "PRESENT OR WRITABLE OR USER OR NO_EXECUTE = user_page_flags True False"
  by (simp add: user_page_flags_def or.assoc or.left_commute or.commute)

section \<open>The tree of tables\<close>

lemma vm_wfD:
  assumes "vm_wf root vm"
  shows "bitmap_wf (vm_frames vm)"
    "user_path p \<Longrightarrow> table_at (vm_mem vm) root p = Some t \<Longrightarrow> table_frame (vm_frames vm) t"
    "user_path p \<Longrightarrow> user_path q \<Longrightarrow> table_at (vm_mem vm) root p = Some t \<Longrightarrow>
       table_at (vm_mem vm) root q = Some t \<Longrightarrow> p = q"
    "user_path (p @ [i]) \<Longrightarrow> table_at (vm_mem vm) root p = Some t \<Longrightarrow> vm_mem vm t i AND PRESENT \<noteq> 0 \<Longrightarrow>
       vm_mem vm t i AND HUGE = 0"
  using assms unfolding vm_wf_def by blast+

lemma table_frame_no: "table_frame fb t \<Longrightarrow> frame_no t \<notin> free_frames fb \<and> frame_no t < MAX_FRAMES"
  by (auto simp: table_frame_def frame_no_def frame_phys)

lemma root_path [simp]: "user_path []"
  by (simp add: user_path_def)

lemma table_at_write_leaf:
  assumes wf: "vm_wf root vm" and m: "m = vm_mem vm" and p: "user_path p" "length p = 3" "table_at m root p = Some t"
    and q: "user_path q"
  shows "table_at (m(t := (m t)(l := e))) root q = table_at m root q"
  using q
proof (induction q rule: rev_induct)
  case (snoc j q)
  from snoc.prems have q: "user_path q" "length q < 3" by (auto simp: user_path_snoc user_path_def)
  with vm_wfD(3) [OF wf, folded m, OF p(1) q(1) p(3)] p(2) have "table_at m root q \<noteq> Some t" by auto
  with snoc.IH [OF q(1)] show ?case by (auto simp: table_at_snoc split: Option.bind_split)
qed simp

lemma table_at_zero_fresh:
  assumes wf: "vm_wf root vm" and m: "m = vm_mem vm" and f: "frame_no t \<in> free_frames (vm_frames vm)"
    and q: "user_path q"
  shows "table_at (m(t := g)) root q = table_at m root q"
  using q
proof (induction q rule: rev_induct)
  case (snoc j q)
  from snoc.prems have q: "user_path q" by (rule user_path_snoc)
  with vm_wfD(2) [OF wf, folded m, OF q] table_frame_no f have "table_at m root q \<noteq> Some t" by blast
  with snoc.IH [OF q] show ?case by (auto simp: table_at_snoc split: Option.bind_split)
qed simp

text \<open>The store after a new table at the fresh frame \<open>t'\<close> is linked at entry \<open>i\<close> of \<open>t\<close>.\<close>

definition linked :: "phys_mem \<Rightarrow> u64 \<Rightarrow> nat \<Rightarrow> u64 \<Rightarrow> u64 \<Rightarrow> phys_mem" where
  "linked m t i e t' = (let m0 = m(t' := (\<lambda>_. 0)) in m0(t := (m0 t)(i := e)))"

lemma linked_at:
  assumes "t \<noteq> t'"
  shows "linked m t i e t' t i = e" "j \<noteq> i \<Longrightarrow> linked m t i e t' t j = m t j" "linked m t i e t' t' j = 0"
    "u \<noteq> t \<Longrightarrow> u \<noteq> t' \<Longrightarrow> linked m t i e t' u j = m u j"
  using assms by (simp_all add: linked_def)

lemma table_at_new_table:
  assumes wf: "vm_wf root vm" and m: "m = vm_mem vm" and f: "frame_no t' \<in> free_frames (vm_frames vm)"
    and p: "user_path (p @ [i])" "table_at m root p = Some t" "m t i AND PRESENT = 0"
    and e: "e AND PRESENT \<noteq> 0" "e AND PHYS_MASK = t'"
    and q: "user_path q"
  shows "table_at (linked m t i e t') root q = (if q = p @ [i] then Some t' else table_at m root q)"
  using q
proof (induction q rule: rev_induct)
  case (snoc j q)
  let ?m = "linked m t i e t'"
  from snoc.prems have q: "user_path q" by (rule user_path_snoc)
  have up: "user_path p" using p(1) by (rule user_path_snoc)
  have fresh: "table_at m root r \<noteq> Some t'" if "user_path r" for r
    using vm_wfD(2) [OF wf, folded m, OF that] table_frame_no f by blast
  then have "t \<noteq> t'" using p(2) up by blast
  note at = linked_at [where m = m and i = i and e = e, OF this]
  show ?case
  proof (cases "q = p @ [i]")
    case True
    with snoc.IH [OF q] have "table_at ?m root q = Some t'" by simp
    then have "table_at ?m root (q @ [j]) = None" by (simp add: table_at_snoc at)
    moreover have "table_at m root q = None" using True p(2,3) by (simp add: table_at_snoc)
    then have "table_at m root (q @ [j]) = None" unfolding table_at_snoc by simp
    moreover have "q @ [j] \<noteq> p @ [i]" using True by simp
    ultimately show ?thesis by simp
  next
    case False
    with snoc.IH [OF q] have IH: "table_at ?m root q = table_at m root q" by simp
    show ?thesis
    proof (cases "table_at m root q")
      case None
      with p(2) have "q \<noteq> p" by auto
      with None IH show ?thesis by (simp add: table_at_snoc)
    next
      case (Some u)
      have "u \<noteq> t'" using fresh [OF q] Some by blast
      moreover have "u = t \<longleftrightarrow> q = p"
        using Some p(2) vm_wfD(3) [OF wf, folded m, OF q up Some] by auto
      ultimately show ?thesis using IH Some e p(2,3)
        by (cases "u = t"; cases "j = i") (simp_all add: table_at_snoc at)
    qed
  qed
qed simp

text \<open>A frame that is in use and is not a table of the address space.\<close>

definition data_frame :: "u64 \<Rightarrow> vm_state \<Rightarrow> u64 \<Rightarrow> bool" where
  "data_frame root vm t \<longleftrightarrow> frame_no t \<notin> free_frames (vm_frames vm) \<and>
     (\<forall>q. user_path q \<longrightarrow> table_at (vm_mem vm) root q \<noteq> Some t)"

text \<open>What every mapping operation does to the tables: it keeps the space well-formed, every
  table it adds was a free frame, and it writes no frame of data.\<close>

definition grows :: "u64 \<Rightarrow> vm_state \<Rightarrow> vm_state \<Rightarrow> bool" where
  "grows root vm vm' \<longleftrightarrow> vm_wf root vm' \<and> vm_cr3 vm' = vm_cr3 vm \<and>
     free_frames (vm_frames vm') \<subseteq> free_frames (vm_frames vm) \<and>
     (\<forall>q t. user_path q \<and> table_at (vm_mem vm') root q = Some t \<longrightarrow>
        table_at (vm_mem vm) root q = Some t \<or> frame_no t \<in> free_frames (vm_frames vm)) \<and>
     (\<forall>t. data_frame root vm t \<longrightarrow> vm_mem vm' t = vm_mem vm t)"

lemma grows_refl: "vm_wf root vm \<Longrightarrow> grows root vm vm"
  by (simp add: grows_def)

lemma growsD:
  assumes "grows root vm vm'"
  shows "vm_wf root vm'" "vm_cr3 vm' = vm_cr3 vm" "free_frames (vm_frames vm') \<subseteq> free_frames (vm_frames vm)"
    "user_path q \<Longrightarrow> table_at (vm_mem vm') root q = Some t \<Longrightarrow>
       table_at (vm_mem vm) root q = Some t \<or> frame_no t \<in> free_frames (vm_frames vm)"
    "data_frame root vm t \<Longrightarrow> vm_mem vm' t = vm_mem vm t"
  using assms unfolding grows_def by blast+

lemma grows_data: "grows root vm vm' \<Longrightarrow> data_frame root vm t \<Longrightarrow> data_frame root vm' t"
  using growsD(3,4) unfolding data_frame_def by blast

lemma grows_trans:
  assumes "grows root a b" "grows root b c"
  shows "grows root a c"
proof -
  have "vm_mem c t = vm_mem a t" if "data_frame root a t" for t
    using growsD(5) [OF assms(1) that] growsD(5) [OF assms(2) grows_data [OF assms(1) that]] by simp
  then show ?thesis
    using growsD(1-3) [OF assms(2)] growsD(2,3) [OF assms(1)] growsD(4) [OF assms(1)] growsD(4) [OF assms(2)]
    unfolding grows_def by (metis subsetD subset_trans)
qed

lemma alloc_frame_facts:
  assumes "bitmap_wf fb" "frame_alloc fb = (Some phys, fb')"
  obtains f where "phys = of_nat f * of_nat FRAME_SIZE" "f \<in> free_frames fb" "MIN_ALLOC_FRAME \<le> f" "f < MAX_FRAMES"
    "frame_no phys = f" "bitmap_wf fb'" "free_frames fb' = free_frames fb - {f}" "phys_to_virt phys = Some phys"
proof -
  from frame_alloc_spec [OF assms] obtain f where
    f: "phys = of_nat f * of_nat FRAME_SIZE" "f \<in> free_frames fb" "MIN_ALLOC_FRAME \<le> f" by auto
  then have lt: "f < MAX_FRAMES" by (simp add: free_frames_def free_bits_def)
  with f have no: "frame_no phys = f" by (simp add: frame_no_def frame_phys)
  from frame_alloc_effect [OF assms no [symmetric, unfolded frame_no_def]]
  have eff: "bitmap_wf fb'" "free_frames fb' = free_frames fb - {f}" by auto
  have "table_frame fb' phys" using f lt eff by (auto simp: table_frame_def)
  from table_frame_sane(3) [OF this] show ?thesis using that f lt no eff by blast
qed

lemma alloc_frame_none: "bitmap_wf fb \<Longrightarrow> frame_alloc fb = (None, fb') \<Longrightarrow> fb' = fb"
  using frame_alloc_spec by fastforce

lemma pte_at_new_table:
  assumes "vm_wf root vm" "m = vm_mem vm" "frame_no t' \<in> free_frames (vm_frames vm)"
    "user_path (p @ [i])" "table_at m root p = Some t" "m t i AND PRESENT = 0"
    "e AND PRESENT \<noteq> 0" "e AND PHYS_MASK = t'" "user_path q" "length q = 3"
  shows "pte_at (linked m t i e t') root q l = pte_at m root q l"
proof -
  note new = table_at_new_table [OF assms(1-9)]
  have up: "user_path p" using assms(4) by (rule user_path_snoc)
  have fresh: "table_at m root r \<noteq> Some t'" if "user_path r" for r
    using vm_wfD(2) [OF assms(1), folded assms(2), OF that] table_frame_no assms(3) by blast
  then have "t \<noteq> t'" using assms(5) up by blast
  note at = linked_at [where m = m and i = i and e = e, OF this]
  have "length p < 3" using assms(4) by (simp add: user_path_def)
  then have "q \<noteq> p" using assms(10) by auto
  show ?thesis
  proof (cases "q = p @ [i]")
    case True
    then have "table_at m root q = None" using assms(5,6) by (simp add: table_at_snoc)
    moreover have "table_at (linked m t i e t') root q = Some t'" using new True by simp
    ultimately show ?thesis by (simp add: pte_at_def at)
  next
    case False
    then have same: "table_at (linked m t i e t') root q = table_at m root q" using new by simp
    have "u \<noteq> t \<and> u \<noteq> t'" if "table_at m root q = Some u" for u
      using that fresh [OF assms(9)] vm_wfD(3) [OF assms(1), folded assms(2), OF assms(9) up that] assms(5) \<open>q \<noteq> p\<close>
      by auto
    with same show ?thesis by (cases "table_at m root q") (simp_all add: pte_at_def at)
  qed
qed

lemma pte_at_write_leaf:
  assumes "vm_wf root vm" "m = vm_mem vm" "user_path p" "length p = 3" "table_at m root p = Some t" "user_path q"
  shows "pte_at (m(t := (m t)(l := e))) root q k =
    (if q = p \<and> k = l then (if e AND PRESENT = 0 then None else Some e) else pte_at m root q k)"
proof -
  note same = table_at_write_leaf [OF assms]
  have "u = t \<longleftrightarrow> q = p" if "table_at m root q = Some u" for u
    using that assms(5) vm_wfD(3) [OF assms(1), folded assms(2), OF assms(6,3) that] by auto
  with same assms(5) show ?thesis by (cases "table_at m root q") (auto simp: pte_at_def)
qed

lemma wf_write_leaf:
  assumes "vm_wf root vm" "user_path p" "length p = 3" "table_at (vm_mem vm) root p = Some t"
  shows "grows root vm (write_entry t l e vm)"
proof -
  define m where "m = (vm_mem vm)(t := (vm_mem vm t)(l := e))"
  note same = table_at_write_leaf [OF assms(1) refl assms(2-4), where l = l and e = e, folded m_def]
  have other: "m u = vm_mem vm u" if "u \<noteq> t" for u using that by (simp add: m_def)
  have huge: "m u i AND HUGE = 0"
    if "user_path (q @ [i])" "table_at m root q = Some u" "m u i AND PRESENT \<noteq> 0" for q i u
  proof -
    have q: "user_path q" "length q < 3" using that(1) by (auto simp: user_path_snoc user_path_def)
    with that(2) same have u: "table_at (vm_mem vm) root q = Some u" by simp
    then have "u \<noteq> t" using vm_wfD(3) [OF assms(1) q(1) assms(2) u] assms(3,4) q(2) by auto
    then show ?thesis using vm_wfD(4) [OF assms(1) that(1) u] that(3) other by simp
  qed
  from assms(1) same have "\<forall>p u. user_path p \<and> table_at m root p = Some u \<longrightarrow> table_frame (vm_frames vm) u"
    "\<forall>p q u. user_path p \<and> user_path q \<and> table_at m root p = Some u \<and> table_at m root q = Some u \<longrightarrow> p = q"
    using vm_wfD(2,3) [OF assms(1)] by (metis, metis)
  moreover have s: "vm_mem (write_entry t l e vm) = m" "vm_frames (write_entry t l e vm) = vm_frames vm"
    "vm_cr3 (write_entry t l e vm) = vm_cr3 vm" by (simp_all add: write_entry_def m_def)
  moreover have "\<forall>q u. user_path q \<and> table_at m root q = Some u \<longrightarrow> table_at (vm_mem vm) root q = Some u"
    using same by metis
  moreover have "m u = vm_mem vm u" if "data_frame root vm u" for u
  proof -
    have "u \<noteq> t" using that assms(2,4) unfolding data_frame_def by auto
    then show ?thesis by (rule other)
  qed
  ultimately show ?thesis
    using huge vm_wfD(1) [OF assms(1)] unfolding grows_def vm_wf_def s by blast
qed

lemma wf_zero_fresh:
  assumes "vm_wf root vm" "frame_alloc (vm_frames vm) = (Some phys, fb)"
  shows "grows root vm (zero_frame phys (vm\<lparr> vm_frames := fb \<rparr>))"
    "\<And>q l. user_path q \<Longrightarrow> pte_at (vm_mem (zero_frame phys (vm\<lparr> vm_frames := fb \<rparr>))) root q l = pte_at (vm_mem vm) root q l"
proof -
  from alloc_frame_facts [OF vm_wfD(1) [OF assms(1)] assms(2)] obtain f where
    f: "f \<in> free_frames (vm_frames vm)" "frame_no phys = f" "bitmap_wf fb" "free_frames fb = free_frames (vm_frames vm) - {f}"
    by blast
  note same = table_at_zero_fresh [OF assms(1) refl, of phys, unfolded f(2), OF f(1)]
  have "table_frame fb t" if "table_frame (vm_frames vm) t" for t
    using that f(4) unfolding table_frame_def by blast
  moreover have "((vm_mem vm)(phys := (\<lambda>_. 0))) t i AND HUGE = 0"
    if "user_path (p @ [i])" "table_at (vm_mem vm) root p = Some t" "((vm_mem vm)(phys := (\<lambda>_. 0))) t i AND PRESENT \<noteq> 0" for p i t
    using vm_wfD(4) [OF assms(1) that(1,2)] that(3) by (cases "t = phys") simp_all
  moreover have "((vm_mem vm)(phys := (\<lambda>_. 0))) t = vm_mem vm t" if "data_frame root vm t" for t
    using that f(1,2) unfolding data_frame_def by auto
  ultimately show "grows root vm (zero_frame phys (vm\<lparr> vm_frames := fb \<rparr>))"
    using assms(1) f(3,4) same user_path_snoc unfolding grows_def vm_wf_def zero_frame_def by auto
  fix q l assume q: "user_path q"
  from vm_wfD(2) [OF assms(1) q] table_frame_no f(1,2) have "table_at (vm_mem vm) root q \<noteq> Some phys" by blast
  with same [OF q] show "pte_at (vm_mem (zero_frame phys (vm\<lparr> vm_frames := fb \<rparr>))) root q l = pte_at (vm_mem vm) root q l"
    by (auto simp: pte_at_def zero_frame_def split: Option.bind_split)
qed

section \<open>The operations on a well-formed address space\<close>

text \<open>The leaf entries of an address space, and the two ways an operation changes them.\<close>

definition same_ptes :: "u64 \<Rightarrow> vm_state \<Rightarrow> vm_state \<Rightarrow> bool" where
  "same_ptes root vm vm' \<longleftrightarrow>
     (\<forall>q l. user_path q \<and> length q = 3 \<longrightarrow> pte_at (vm_mem vm') root q l = pte_at (vm_mem vm) root q l)"

definition set_pte :: "u64 \<Rightarrow> u64 \<Rightarrow> u64 \<Rightarrow> vm_state \<Rightarrow> vm_state \<Rightarrow> bool" where
  "set_pte root v e vm vm' \<longleftrightarrow>
     (\<forall>q l. user_path q \<and> length q = 3 \<longrightarrow> pte_at (vm_mem vm') root q l =
        (if q = path_of v \<and> l = pt_idx v then (if e AND PRESENT = 0 then None else Some e)
         else pte_at (vm_mem vm) root q l))"

lemma ensure_next_table_ok:
  assumes wf: "vm_wf root vm" and p: "user_path (p @ [i])" "table_at (vm_mem vm) root p = Some t"
  obtains r vm' where "ensure_next_table_flags t i (PRESENT OR WRITABLE OR USER) vm = Some (r, vm')"
    "grows root vm vm'" "same_ptes root vm vm'"
    "\<forall>t'. r = Some t' \<longrightarrow> table_at (vm_mem vm') root (p @ [i]) = Some t'"
    "r = None \<longrightarrow> (\<forall>f \<in> free_frames (vm_frames vm). f < MIN_ALLOC_FRAME)"
proof (cases "vm_mem vm t i AND PRESENT = 0")
  case False
  then show ?thesis
    using that [of "Some (vm_mem vm t i AND PHYS_MASK)" vm] wf p(2)
    by (simp add: ensure_next_table_flags_def read_entry_def grows_refl table_at_snoc same_ptes_def)
next
  case True
  obtain r fb where a: "frame_alloc (vm_frames vm) = (r, fb)" by fastforce
  show ?thesis
  proof (cases r)
    case None
    with a have "fb = vm_frames vm" using alloc_frame_none vm_wfD(1) [OF wf] by blast
    moreover have "\<forall>f \<in> free_frames (vm_frames vm). f < MIN_ALLOC_FRAME"
      using frame_alloc_spec [OF vm_wfD(1) [OF wf] a] None by simp
    ultimately show ?thesis
      using that [of None vm] wf True a None
      by (simp add: ensure_next_table_flags_def alloc_page_table_def read_entry_def grows_refl same_ptes_def)
  next
    case (Some t')
    with a have a': "frame_alloc (vm_frames vm) = (Some t', fb)" by simp
    obtain f where
      f: "t' = of_nat f * of_nat FRAME_SIZE" "f \<in> free_frames (vm_frames vm)" "MIN_ALLOC_FRAME \<le> f" "f < MAX_FRAMES"
        "frame_no t' = f" "bitmap_wf fb" "free_frames fb = free_frames (vm_frames vm) - {f}" "phys_to_virt t' = Some t'"
      by (rule alloc_frame_facts [OF vm_wfD(1) [OF wf] a'])
    let ?e = "t' OR (PRESENT OR WRITABLE OR USER)"
    let ?vm = "write_entry t i ?e (zero_frame t' (vm\<lparr> vm_frames := fb \<rparr>))"
    have e: "?e AND PRESENT \<noteq> 0" "?e AND PHYS_MASK = t'"
      unfolding f(1) by (rule user_flags_facts(1)) (rule frame_flags_mask [OF f(4) user_flags_facts(2)])
    have fresh: "frame_no t' \<in> free_frames (vm_frames vm)" using f(2,5) by simp
    have m: "vm_mem ?vm = linked (vm_mem vm) t i ?e t'"
      by (simp add: write_entry_def zero_frame_def linked_def)
    have fr: "vm_frames ?vm = fb" "vm_cr3 ?vm = vm_cr3 vm" by (simp_all add: write_entry_def zero_frame_def)
    note new = table_at_new_table [OF wf refl fresh p True e]
    have keep: "table_frame fb u" if "table_frame (vm_frames vm) u" for u
      using that f(7) unfolding table_frame_def by blast
    have not_new: "table_at (vm_mem vm) root q \<noteq> Some t'" if "user_path q" for q
      using vm_wfD(2) [OF wf that] table_frame_no fresh by blast
    have "table_frame fb t'" using f(1,3,4,7) unfolding table_frame_def by blast
    have "vm_wf root ?vm"
      unfolding vm_wf_def m fr
    proof (intro conjI allI impI; (elim conjE)?)
      fix q u assume q: "user_path q" "table_at (linked (vm_mem vm) t i ?e t') root q = Some u"
      with new [OF q(1)] have "u = t' \<or> table_at (vm_mem vm) root q = Some u" by (auto split: if_splits)
      with \<open>table_frame fb t'\<close> keep vm_wfD(2) [OF wf q(1)] show "table_frame fb u" by auto
    next
      fix q r u assume q: "user_path q" "user_path r"
        "table_at (linked (vm_mem vm) t i ?e t') root q = Some u"
        "table_at (linked (vm_mem vm) t i ?e t') root r = Some u"
      have "s = p @ [i] \<and> u = t' \<or> table_at (vm_mem vm) root s = Some u"
        if "user_path s" "table_at (linked (vm_mem vm) t i ?e t') root s = Some u" for s
        using new [OF that(1)] that(2) by (cases "s = p @ [i]") simp_all
      from this [OF q(1,3)] this [OF q(2,4)] not_new [OF q(1)] not_new [OF q(2)] vm_wfD(3) [OF wf q(1,2)]
      show "q = r" by blast
    next
      let ?m = "linked (vm_mem vm) t i ?e t'"
      fix q j u assume q: "user_path (q @ [j])" "table_at ?m root q = Some u" "?m u j AND PRESENT \<noteq> 0"
      note uq = user_path_snoc [OF q(1)]
      have "t \<noteq> t'" using not_new [OF user_path_snoc [OF p(1)]] p(2) by blast
      note at = linked_at [where m = "vm_mem vm" and i = i and e = ?e, OF this]
      show "?m u j AND HUGE = 0"
      proof (cases "u = t'")
        case True
        with q(3) show ?thesis by (simp add: at)
      next
        case False
        with new [OF uq] q(2) have u: "table_at (vm_mem vm) root q = Some u" by (cases "q = p @ [i]") simp_all
        have "?m u j = ?e \<or> ?m u j = vm_mem vm u j" using at False by (cases "u = t"; cases "j = i") simp_all
        with vm_wfD(4) [OF wf q(1) u] q(3) table_entry_not_huge [OF f(4), folded f(1)] show ?thesis by auto
      qed
    qed (rule f(6))
    moreover have "linked (vm_mem vm) t i ?e t' u = vm_mem vm u" if "data_frame root vm u" for u
      using that fresh user_path_snoc [OF p(1)] p(2) by (auto simp: data_frame_def linked_def)
    moreover have "table_at (vm_mem vm) root q = Some u \<or> frame_no u \<in> free_frames (vm_frames vm)"
      if "user_path q" "table_at (linked (vm_mem vm) t i ?e t') root q = Some u" for q u
      using new [OF that(1)] that(2) fresh by (cases "q = p @ [i]") simp_all
    ultimately have "grows root vm ?vm"
      unfolding grows_def m fr f(7) by blast
    moreover have "table_at (vm_mem ?vm) root (p @ [i]) = Some t'" unfolding m using new [OF p(1)] by simp
    moreover have "same_ptes root vm ?vm"
      unfolding same_ptes_def m using pte_at_new_table [OF wf refl fresh p True e] by blast
    ultimately show ?thesis
      using that [of "Some t'" ?vm] True a Some f(8)
      by (simp add: ensure_next_table_flags_def alloc_page_table_def read_entry_def)
  qed
qed

lemma wf_table_pointer:
  assumes "vm_wf root vm" "user_path p" "table_at (vm_mem vm) root p = Some t"
  shows "phys_to_virt t = Some t" "walk_table t = Some t"
  using table_frame_sane [OF vm_wfD(2) [OF assms]] by auto

lemma wf_root:
  assumes "vm_wf root vm"
  shows "phys_to_virt root = Some root" "walk_table root = Some root" "pml4_root_walkable root"
  using table_frame_sane [OF vm_wfD(2) [OF assms root_path, of root]] by (auto simp: pml4_root_walkable_def)

lemma same_ptes_trans: "same_ptes root a b \<Longrightarrow> same_ptes root b c \<Longrightarrow> same_ptes root a c"
  by (simp add: same_ptes_def)

lemma same_set_pte: "same_ptes root a b \<Longrightarrow> set_pte root v e b c \<Longrightarrow> set_pte root v e a c"
  by (simp add: same_ptes_def set_pte_def)

lemma write_leaf_ok:
  assumes "vm_wf root vm" "user_va v" "table_at (vm_mem vm) root (path_of v) = Some t"
  shows "grows root vm (write_entry t (pt_idx v) e vm)" "set_pte root v e vm (write_entry t (pt_idx v) e vm)"
proof -
  have p: "user_path (path_of v)" "length (path_of v) = 3"
    using user_path_of [OF assms(2)] by (simp_all add: path_of_def)
  show "grows root vm (write_entry t (pt_idx v) e vm)" by (rule wf_write_leaf [OF assms(1) p assms(3)])
  show "set_pte root v e vm (write_entry t (pt_idx v) e vm)"
    using pte_at_write_leaf [OF assms(1) refl p assms(3)] unfolding set_pte_def write_entry_def by simp
qed

text \<open>One level of the descent of \<^verbatim>\<open>map_page_in\<close>.\<close>

lemma descend:
  assumes "vm_wf root vm" "user_path (p @ [i])" "table_at (vm_mem vm) root p = Some t"
  obtains (oom) vm' where "ensure_next_table_flags t i (PRESENT OR WRITABLE OR USER) vm = Some (None, vm')"
      "grows root vm vm'" "same_ptes root vm vm'" "\<forall>f \<in> free_frames (vm_frames vm'). f < MIN_ALLOC_FRAME"
    | (table) t' vm' where "ensure_next_table_flags t i (PRESENT OR WRITABLE OR USER) vm = Some (Some t', vm')"
      "grows root vm vm'" "same_ptes root vm vm'" "table_at (vm_mem vm') root (p @ [i]) = Some t'"
      "phys_to_virt t' = Some t'"
proof -
  obtain r vm' where e: "ensure_next_table_flags t i (PRESENT OR WRITABLE OR USER) vm = Some (r, vm')"
    and g: "grows root vm vm'"
    and s: "same_ptes root vm vm'"
    and t: "\<forall>t'. r = Some t' \<longrightarrow> table_at (vm_mem vm') root (p @ [i]) = Some t'"
    and n: "r = None \<longrightarrow> (\<forall>f \<in> free_frames (vm_frames vm). f < MIN_ALLOC_FRAME)"
    by (rule ensure_next_table_ok [OF assms])
  show ?thesis
  proof (cases r)
    case None
    with oom e g s n growsD(3) [OF g] show ?thesis by blast
  next
    case (Some t')
    from wf_table_pointer(1) [OF growsD(1) [OF g] assms(2) t [rule_format, OF Some]] table e g s t Some show ?thesis by blast
  qed
qed

lemma map_page_in_ok:
  assumes wf: "vm_wf root vm" and v: "user_va v"
  obtains (oom) msg vm' where "map_page_in root v phys flags vm = Some (Inl msg, vm')"
      "grows root vm vm'" "same_ptes root vm vm'" "\<forall>f \<in> free_frames (vm_frames vm'). f < MIN_ALLOC_FRAME"
    | (mapped) vm' where "map_page_in root v phys flags vm = Some (Inr (), vm')"
      "grows root vm vm'" "set_pte root v ((phys AND PHYS_MASK) OR flags) vm vm'"
proof -
  note defs = map_page_in_def wf_root(1) [OF wf]
  have up: "user_path ([] @ [pml4_idx v])" "user_path ([pml4_idx v] @ [pdpt_idx v])"
    "user_path ([pml4_idx v, pdpt_idx v] @ [pd_idx v])"
    using user_path_of [OF v] by (auto simp: user_path_def path_of_def)
  have "table_at (vm_mem vm) root [] = Some root" by simp
  from wf up(1) this show ?thesis
  proof (cases rule: descend)
    case (oom vm1)
    then show ?thesis by (intro that(1) [of "''OOM: PDPT''" vm1]) (simp_all add: defs)
  next
    case l1: (table t1 vm1)
    then have t1: "table_at (vm_mem vm1) root [pml4_idx v] = Some t1" by simp
    from growsD(1) [OF l1(2)] up(2) t1 show ?thesis
    proof (cases rule: descend)
      case (oom vm2)
      then show ?thesis using l1 grows_trans [OF l1(2)] same_ptes_trans [OF l1(3)]
        by (intro that(1) [of "''OOM: PD''" vm2]) (simp_all add: defs)
    next
      case l2: (table t2 vm2)
      then have t2: "table_at (vm_mem vm2) root [pml4_idx v, pdpt_idx v] = Some t2" by simp
      note g2 = grows_trans [OF l1(2) l2(2)] and s2 = same_ptes_trans [OF l1(3) l2(3)]
      from growsD(1) [OF l2(2)] up(3) t2 show ?thesis
      proof (cases rule: descend)
        case (oom vm3)
        then show ?thesis using l1 l2 grows_trans [OF g2] same_ptes_trans [OF s2]
          by (intro that(1) [of "''OOM: PT''" vm3]) (simp_all add: defs)
      next
        case l3: (table t3 vm3)
        then have t3: "table_at (vm_mem vm3) root (path_of v) = Some t3" by (simp add: path_of_def)
        note w = write_leaf_ok [OF growsD(1) [OF l3(2)] v t3, of "(phys AND PHYS_MASK) OR flags"]
        show ?thesis
          using l1 l2 l3 grows_trans [OF grows_trans [OF g2 l3(2)] w(1)]
            same_set_pte [OF same_ptes_trans [OF s2 l3(3)] w(2)]
          by (intro that(2)) (simp_all add: defs)
      qed
    qed
  qed
qed

lemma pte_at_steps:
  "pte_at m root (path_of v) l = do {
     t1 \<leftarrow> (let e = m root (pml4_idx v) in if e AND PRESENT = 0 then None else Some (e AND PHYS_MASK));
     t2 \<leftarrow> (let e = m t1 (pdpt_idx v) in if e AND PRESENT = 0 then None else Some (e AND PHYS_MASK));
     t3 \<leftarrow> (let e = m t2 (pd_idx v) in if e AND PRESENT = 0 then None else Some (e AND PHYS_MASK));
     (let e = m t3 l in if e AND PRESENT = 0 then None else Some e) }"
  by (simp add: pte_at_def path_of_def Let_def)

lemma translate_pte_at:
  assumes wf: "vm_wf root vm" and v: "user_va v"
  shows "translate_pte vm root v = pte_at (vm_mem vm) root (path_of v) (pt_idx v)"
proof -
  have up: "user_path [pml4_idx v]" "user_path [pml4_idx v, pdpt_idx v]" "user_path (path_of v)"
    using user_path_of [OF v] by (auto simp: user_path_def path_of_def)
  note ptr = wf_root(2) [OF wf] wf_table_pointer(2) [OF wf up(1)] wf_table_pointer(2) [OF wf up(2)]
    wf_table_pointer(2) [OF wf up(3)]
  show ?thesis
    using ptr unfolding pte_at_steps
    by (simp add: translate_pte_def read_present_def read_entry_def path_of_def Let_def)
qed

lemma pte_ptr_at:
  assumes wf: "vm_wf root vm" and v: "user_va v"
  shows "pte_ptr vm root v = (case pte_at (vm_mem vm) root (path_of v) (pt_idx v) of
      None \<Rightarrow> Some (Inl ''not present'')
    | Some pte \<Rightarrow> Some (Inr (the (table_at (vm_mem vm) root (path_of v)), pte)))"
proof -
  have up: "user_path [pml4_idx v]" "user_path [pml4_idx v, pdpt_idx v]" "user_path (path_of v)"
    using user_path_of [OF v] by (auto simp: user_path_def path_of_def)
  note ptr = wf_root(1) [OF wf] wf_table_pointer(1) [OF wf up(1)] wf_table_pointer(1) [OF wf up(2)]
    wf_table_pointer(1) [OF wf up(3)]
  show ?thesis
    using ptr unfolding pte_at_steps
    by (simp add: pte_ptr_def read_present_def read_entry_def path_of_def Let_def)
qed

section \<open>Address spaces as maps\<close>

type_synonym aspace = "u64 \<rightharpoonup> u64 \<times> bool \<times> bool"

definition page_of :: "u64 \<Rightarrow> u64" where "page_of virt = drop_bit 12 virt"

definition decode_pte :: "u64 \<Rightarrow> u64 \<times> bool \<times> bool" where
  "decode_pte pte = (pte AND PHYS_MASK, pte AND WRITABLE \<noteq> 0, pte AND NO_EXECUTE = 0)"

definition refines :: "u64 \<Rightarrow> vm_state \<Rightarrow> aspace \<Rightarrow> bool" where
  "refines root vm m \<longleftrightarrow> vm_wf root vm \<and>
     (\<forall>v. user_va v \<longrightarrow> translate_user_page_flags vm root v = m (page_of v))"

lemma translate_flags_at:
  assumes "vm_wf root vm" "user_va v"
  shows "translate_user_page_flags vm root v = map_option decode_pte (pte_at (vm_mem vm) root (path_of v) (pt_idx v))"
  using wf_root(3) [OF assms(1)] unfolding translate_pte_at [OF assms, symmetric]
  by (cases "translate_pte vm root v") (simp_all add: translate_user_page_flags_def decode_pte_def)

lemma translate_at: "translate_user_page vm root v = map_option fst (translate_user_page_flags vm root v)"
  by (cases "translate_pte vm root v") (simp_all add: translate_user_page_def translate_user_page_flags_def)

lemma refines_pte:
  "refines root vm m \<Longrightarrow> user_va v \<Longrightarrow> map_option decode_pte (pte_at (vm_mem vm) root (path_of v) (pt_idx v)) = m (page_of v)"
  unfolding refines_def using translate_flags_at by metis

lemma refines_same:
  assumes "refines root vm m" "grows root vm vm'" "same_ptes root vm vm'"
  shows "refines root vm' m"
proof -
  have "translate_user_page_flags vm' root v = m (page_of v)" if v: "user_va v" for v
    using translate_flags_at [OF growsD(1) [OF assms(2)] v] refines_pte [OF assms(1) v] assms(3) user_path_of [OF v]
    by (simp add: same_ptes_def path_of_def)
  with growsD(1) [OF assms(2)] show ?thesis by (simp add: refines_def)
qed

lemma refines_set:
  assumes "refines root vm m" "grows root vm vm'" "set_pte root v e vm vm'" "user_va v"
  shows "refines root vm' (m(page_of v := (if e AND PRESENT = 0 then None else Some (decode_pte e))))"
proof -
  let ?m = "m(page_of v := (if e AND PRESENT = 0 then None else Some (decode_pte e)))"
  have "translate_user_page_flags vm' root w = ?m (page_of w)" if w: "user_va w" for w
  proof -
    have "pte_at (vm_mem vm') root (path_of w) (pt_idx w) =
        (if page_of w = page_of v then (if e AND PRESENT = 0 then None else Some e)
         else pte_at (vm_mem vm) root (path_of w) (pt_idx w))"
      using assms(3) user_path_of [OF w] page_of_indices [OF w assms(4)]
      by (simp add: set_pte_def page_of_def) (simp add: path_of_def)
    with translate_flags_at [OF growsD(1) [OF assms(2)] w] refines_pte [OF assms(1) w]
    show ?thesis by simp
  qed
  with growsD(1) [OF assms(2)] show ?thesis by (simp add: refines_def)
qed

text \<open>The operations on one address space, and their specification on the map: \<open>F\<close> are the frames free
  before the operation, and an operation may fail for lack of memory only if at most one allocatable
  frame is free after it.\<close>

datatype vm_op =
    VMap u64 u64 bool bool
  | VMapRW u64 u64
  | VUpdate u64 bool bool
  | VUnmap u64
  | VFault u64 u64

datatype vm_res = ROk | RPhys u64 | RErr string | RFault bool

fun vm_exec :: "u64 \<Rightarrow> vm_op \<Rightarrow> vm_state \<Rightarrow> (vm_res \<times> vm_state) option" where
  "vm_exec root (VMap v phys w x) vm =
     map_option (map_prod (case_sum RErr (\<lambda>_. ROk)) id) (map_user_page_with_flags root v phys w x vm)"
| "vm_exec root (VMapRW v phys) vm =
     map_option (map_prod (case_sum RErr (\<lambda>_. ROk)) id) (map_user_page root v phys vm)"
| "vm_exec root (VUpdate v w x) vm =
     map_option (map_prod (case_sum RErr (\<lambda>_. ROk)) id) (update_user_page root v w x vm)"
| "vm_exec root (VUnmap v) vm = map_option (map_prod (case_sum RErr RPhys) id) (unmap_user_page root v vm)"
| "vm_exec root (VFault cr2 err) vm = map_option (map_prod RFault id) (demand_page cr2 err vm)"

fun vm_op_va :: "vm_op \<Rightarrow> u64" where
  "vm_op_va (VMap v phys w x) = v"
| "vm_op_va (VMapRW v phys) = v"
| "vm_op_va (VUpdate v w x) = v"
| "vm_op_va (VUnmap v) = v"
| "vm_op_va (VFault cr2 err) = cr2"

definition nearly_full :: "frame_bitmap \<Rightarrow> bool" where
  "nearly_full fb \<longleftrightarrow> (\<exists>f. \<forall>g \<in> free_frames fb. g < MIN_ALLOC_FRAME \<or> g = f)"

definition mirror_range :: "u64 \<Rightarrow> bool" where
  "mirror_range va \<longleftrightarrow> 0x100000000 \<le> va \<and> va < 0x300000000"

definition anon_range :: "u64 \<Rightarrow> bool" where
  "anon_range va \<longleftrightarrow> 0x300000000 \<le> va \<and> va < 0x10000000000"

inductive aspace_step :: "nat set \<Rightarrow> bool \<Rightarrow> aspace \<Rightarrow> vm_op \<Rightarrow> vm_res \<Rightarrow> aspace \<Rightarrow> bool" for F full m where
  map: "aspace_step F full m (VMap v phys w x) ROk (m(page_of v \<mapsto> (phys AND PHYS_MASK, w, x)))"
| map_oom: "full \<Longrightarrow> aspace_step F full m (VMap v phys w x) (RErr msg) m"
| map_rw: "aspace_step F full m (VMapRW v phys) ROk (m(page_of v \<mapsto> (phys AND PHYS_MASK, True, False)))"
| map_rw_oom: "full \<Longrightarrow> aspace_step F full m (VMapRW v phys) (RErr msg) m"
| update: "m (page_of v) = Some (phys, w', x') \<Longrightarrow>
     aspace_step F full m (VUpdate v w x) ROk (m(page_of v \<mapsto> (phys, w, x)))"
| update_missing: "m (page_of v) = None \<Longrightarrow> aspace_step F full m (VUpdate v w x) (RErr ''not present'') m"
| unmap: "m (page_of v) = Some (phys, w, x) \<Longrightarrow>
     aspace_step F full m (VUnmap v) (RPhys phys) (m(page_of v := None))"
| unmap_missing: "m (page_of v) = None \<Longrightarrow> aspace_step F full m (VUnmap v) (RErr ''not present'') m"
| fault_protection: "err AND 1 \<noteq> 0 \<Longrightarrow> aspace_step F full m (VFault va err) (RFault False) m"
| fault_mapped: "err AND 1 = 0 \<Longrightarrow> m (page_of va) \<noteq> None \<Longrightarrow>
     aspace_step F full m (VFault va err) (RFault True) m"
| fault_mirror: "err AND 1 = 0 \<Longrightarrow> m (page_of va) = None \<Longrightarrow> mirror_range va \<Longrightarrow>
     m (page_of (va - 0x100000000)) = Some (phys, w, x) \<Longrightarrow>
     aspace_step F full m (VFault va err) (RFault True) (m(page_of va \<mapsto> (phys AND PHYS_MASK, w, x)))"
| fault_anon: "err AND 1 = 0 \<Longrightarrow> m (page_of va) = None \<Longrightarrow> anon_range va \<Longrightarrow> f \<in> F \<Longrightarrow>
     aspace_step F full m (VFault va err) (RFault True)
       (m(page_of va \<mapsto> (of_nat f * of_nat FRAME_SIZE, True, True)))"
| fault_oom: "err AND 1 = 0 \<Longrightarrow> m (page_of va) = None \<Longrightarrow> full \<Longrightarrow>
     mirror_range va \<and> m (page_of (va - 0x100000000)) \<noteq> None \<or> anon_range va \<Longrightarrow>
     aspace_step F full m (VFault va err) (RFault False) m"
| fault_reject: "err AND 1 = 0 \<Longrightarrow> m (page_of va) = None \<Longrightarrow> \<not> anon_range va \<Longrightarrow>
     mirror_range va \<longrightarrow> m (page_of (va - 0x100000000)) = None \<Longrightarrow>
     aspace_step F full m (VFault va err) (RFault False) m"

lemma no_frames_nearly_full: "\<forall>f \<in> free_frames fb. f < MIN_ALLOC_FRAME \<Longrightarrow> nearly_full fb"
  by (auto simp: nearly_full_def)

lemma map_page_refines:
  assumes "refines root vm m" "user_va v"
  obtains (oom) msg vm' where "map_user_page_with_flags root v phys w x vm = Some (Inl msg, vm')"
      "grows root vm vm'" "refines root vm' m" "\<forall>f \<in> free_frames (vm_frames vm'). f < MIN_ALLOC_FRAME"
    | (mapped) vm' where "map_user_page_with_flags root v phys w x vm = Some (Inr (), vm')"
      "grows root vm vm'" "refines root vm' (m(page_of v \<mapsto> (phys AND PHYS_MASK, w, x)))"
proof -
  from assms(1) have wf: "vm_wf root vm" by (simp add: refines_def)
  have dec: "decode_pte ((phys AND PHYS_MASK) OR user_page_flags w x) = (phys AND PHYS_MASK, w, x)"
    by (simp add: decode_pte_def page_flags_facts)
  from wf assms(2) show ?thesis
  proof (cases rule: map_page_in_ok [where phys = phys and flags = "user_page_flags w x"])
    case (oom msg vm')
    with refines_same [OF assms(1)] that(1) show ?thesis by (simp add: map_user_page_with_flags_def)
  next
    case (mapped vm')
    from refines_set [OF assms(1) mapped(2,3) assms(2)] page_flags_facts(1) [of "phys AND PHYS_MASK" w x]
    have "refines root vm' (m(page_of v \<mapsto> (phys AND PHYS_MASK, w, x)))" by (simp add: dec)
    with mapped that(2) show ?thesis by (simp add: map_user_page_with_flags_def)
  qed
qed

lemma update_page_refines:
  assumes "refines root vm m" "user_va v"
  shows "case m (page_of v) of
      None \<Rightarrow> update_user_page root v w x vm = Some (Inl ''not present'', vm)
    | Some (phys, _) \<Rightarrow> \<exists>vm'. update_user_page root v w x vm = Some (Inr (), vm') \<and> grows root vm vm' \<and>
        refines root vm' (m(page_of v \<mapsto> (phys, w, x)))"
proof -
  from assms(1) have wf: "vm_wf root vm" by (simp add: refines_def)
  note pte = refines_pte [OF assms] and ptr = pte_ptr_at [OF wf assms(2)]
  show ?thesis
  proof (cases "pte_at (vm_mem vm) root (path_of v) (pt_idx v)")
    case None
    with pte ptr show ?thesis by (auto simp: update_user_page_def update_user_page_flags_def split: option.split)
  next
    case (Some e)
    then obtain t where t: "table_at (vm_mem vm) root (path_of v) = Some t"
      by (auto simp: pte_at_def split: Option.bind_split_asm)
    let ?e = "(e AND PHYS_MASK) OR user_page_flags w x"
    note w = write_leaf_ok [OF wf assms(2) t, of ?e]
    from refines_set [OF assms(1) w assms(2)] page_flags_facts [of _ w x]
    have "refines root (write_entry t (pt_idx v) ?e vm) (m(page_of v \<mapsto> (e AND PHYS_MASK, w, x)))"
      by (simp add: decode_pte_def)
    moreover have "m (page_of v) = Some (decode_pte e)" using pte Some by simp
    ultimately show ?thesis using w(1) ptr Some t
      by (simp add: update_user_page_def update_user_page_flags_def decode_pte_def)
  qed
qed

lemma unmap_page_refines:
  assumes "refines root vm m" "user_va v"
  shows "case m (page_of v) of
      None \<Rightarrow> unmap_user_page root v vm = Some (Inl ''not present'', vm)
    | Some (phys, _) \<Rightarrow> \<exists>vm'. unmap_user_page root v vm = Some (Inr phys, vm') \<and> grows root vm vm' \<and>
        vm_frames vm' = vm_frames vm \<and> refines root vm' (m(page_of v := None))"
proof -
  from assms(1) have wf: "vm_wf root vm" by (simp add: refines_def)
  note pte = refines_pte [OF assms] and ptr = pte_ptr_at [OF wf assms(2)] and rt = wf_root(3) [OF wf]
  show ?thesis
  proof (cases "pte_at (vm_mem vm) root (path_of v) (pt_idx v)")
    case None
    with pte ptr rt show ?thesis by (auto simp: unmap_user_page_def unmap_page_def split: option.split)
  next
    case (Some e)
    then obtain t where t: "table_at (vm_mem vm) root (path_of v) = Some t"
      by (auto simp: pte_at_def split: Option.bind_split_asm)
    note w = write_leaf_ok [OF wf assms(2) t, of 0]
    from refines_set [OF assms(1) w assms(2)]
    have "refines root (write_entry t (pt_idx v) 0 vm) (m(page_of v := None))" by simp
    moreover have "vm_frames (write_entry t (pt_idx v) 0 vm) = vm_frames vm" by (simp add: write_entry_def)
    moreover have "m (page_of v) = Some (decode_pte e)" using pte Some by simp
    ultimately show ?thesis using w(1) ptr Some t rt
      by (simp add: unmap_user_page_def unmap_page_def decode_pte_def)
  qed
qed

section \<open>Page boundaries\<close>

lemma page_va_unat: "unat (v AND NOT 0xFFF :: u64) = 4096 * (unat v div 4096)"
proof -
  have m: "(0xFFF :: u64) = mask 12" by (simp add: mask_eq_exp_minus_1)
  have u: "unat (take_bit 12 v) = unat v mod 4096"
    unfolding unsigned_take_bit_eq by (simp add: take_bit_eq_mod)
  have "v - take_bit 12 v = v AND NOT (take_bit 12 v)" by (rule disjunctive_diff) (simp add: bit_take_bit_iff)
  also have "\<dots> = v AND NOT 0xFFF"
    unfolding m by (rule bit_word_eqI) (auto simp: bit_simps)
  finally have "unat (v AND NOT 0xFFF) = unat (v - take_bit 12 v)" by simp
  also have "\<dots> = unat v - unat (take_bit 12 v)"
    by (rule unat_sub) (simp only: word_le_nat_alt u mod_less_eq_dividend)
  also have "\<dots> = unat v - unat v mod 4096" by (simp only: u)
  finally show ?thesis by (simp add: minus_mod_eq_mult_div)
qed

lemma page_va_page: "page_of (v AND NOT 0xFFF) = page_of v"
  unfolding page_of_def same_page page_va_unat by simp

lemma page_va_user: "user_va v \<Longrightarrow> user_va (v AND NOT 0xFFF)"
  unfolding user_va_def by (meson le_less_trans word_and_le2)

lemma page_va_le:
  fixes c v :: u64
  assumes "unat c = 4096 * k"
  shows "c \<le> v AND NOT 0xFFF \<longleftrightarrow> c \<le> v" "v AND NOT 0xFFF < c \<longleftrightarrow> v < c"
proof -
  have "4096 * k \<le> 4096 * (unat v div 4096) \<longleftrightarrow> 4096 * k \<le> unat v"
    by (simp add: less_eq_div_iff_mult_less_eq mult.commute)
  then show "c \<le> v AND NOT 0xFFF \<longleftrightarrow> c \<le> v" unfolding word_le_nat_alt page_va_unat assms .
  then show "v AND NOT 0xFFF < c \<longleftrightarrow> v < c" by (simp add: not_le [symmetric])
qed

lemma page_va_sub:
  fixes c v :: u64
  assumes "unat c = 4096 * k" "c \<le> v"
  shows "page_of ((v AND NOT 0xFFF) - c) = page_of (v - c)"
proof -
  have a: "unat ((v AND NOT 0xFFF) - c) = 4096 * (unat v div 4096) - 4096 * k"
    using unat_sub [of c "v AND NOT 0xFFF"] page_va_le(1) [OF assms(1)] assms by (simp only: page_va_unat)
  have b: "unat (v - c) = unat v - 4096 * k" using unat_sub [OF assms(2)] assms(1) by simp
  from assms obtain r where "unat v = 4096 * k + r" by (auto simp: word_le_nat_alt le_iff_add)
  then have "(unat v - 4096 * k) div 4096 = unat v div 4096 - k" by simp
  then show ?thesis unfolding page_of_def same_page a b by (simp add: diff_mult_distrib2 [symmetric])
qed

lemma range_page_va:
  "mirror_range (v AND NOT 0xFFF) \<longleftrightarrow> mirror_range v" "anon_range (v AND NOT 0xFFF) \<longleftrightarrow> anon_range v"
proof -
  have a: "unat (0x100000000 :: u64) = 4096 * 0x100000" "unat (0x300000000 :: u64) = 4096 * 0x300000"
    "unat (0x10000000000 :: u64) = 4096 * 0x10000000" by simp_all
  show "mirror_range (v AND NOT 0xFFF) \<longleftrightarrow> mirror_range v"
    unfolding mirror_range_def page_va_le(1) [OF a(1)] page_va_le(2) [OF a(2)] ..
  show "anon_range (v AND NOT 0xFFF) \<longleftrightarrow> anon_range v"
    unfolding anon_range_def page_va_le(1) [OF a(2)] page_va_le(2) [OF a(3)] ..
qed

section \<open>Fresh and running address spaces\<close>

lemma copy_kernel_half_lower:
  "j < 256 \<Longrightarrow> vm_mem (copy_kernel_half src dst vm) u j = vm_mem vm u j"
  "vm_frames (copy_kernel_half src dst vm) = vm_frames vm"
proof -
  have step: "(j \<notin> set is \<longrightarrow> vm_mem (fold (\<lambda>i vm. write_entry dst i (read_entry vm src i) vm) is vm) u j = vm_mem vm u j) \<and>
      vm_frames (fold (\<lambda>i vm. write_entry dst i (read_entry vm src i) vm) is vm) = vm_frames vm" for "is"
    by (induction "is" arbitrary: vm) (auto simp: write_entry_def)
  have "j \<notin> set [256..<512]" if "j < 256" using that by simp
  with step [of "[256..<512]"] show
    "j < 256 \<Longrightarrow> vm_mem (copy_kernel_half src dst vm) u j = vm_mem vm u j"
    "vm_frames (copy_kernel_half src dst vm) = vm_frames vm"
    unfolding copy_kernel_half_def by blast+
qed

lemma fresh_pml4_refines:
  assumes wf: "bitmap_wf (vm_frames vm)" and a: "alloc_user_pml4 vm = Some (Some root, vm')"
  shows "refines root vm' Map.empty"
proof -
  obtain fb kernel where fa: "frame_alloc (vm_frames vm) = (Some root, fb)"
    and v: "vm' = copy_kernel_half kernel root (zero_frame root (vm\<lparr> vm_frames := fb \<rparr>))"
    using a by (auto simp: alloc_user_pml4_def alloc_page_table_def phys_to_virt_def
        split: prod.split_asm option.split_asm Option.bind_split_asm if_split_asm)
  obtain f where f: "root = of_nat f * of_nat FRAME_SIZE" "MIN_ALLOC_FRAME \<le> f" "f < MAX_FRAMES"
    "bitmap_wf fb" "free_frames fb = free_frames (vm_frames vm) - {f}"
    by (rule alloc_frame_facts [OF wf fa])
  then have tf: "table_frame fb root" unfolding table_frame_def by blast
  have fr: "vm_frames vm' = fb" unfolding v copy_kernel_half_lower by (simp add: zero_frame_def)
  have low: "vm_mem vm' root i = 0" if "i < 256" for i
    unfolding v copy_kernel_half_lower(1) [OF that] by (simp add: zero_frame_def)
  have only: "p = [] \<and> t = root" if "user_path p" "table_at (vm_mem vm') root p = Some t" for p t
    using that low by (cases p) (auto simp: user_path_def)
  have "vm_mem vm' t i AND PRESENT = 0" if "user_path (p @ [i])" "table_at (vm_mem vm') root p = Some t" for p i t
    using only [OF user_path_snoc [OF that(1)] that(2)] that(1) low [of i] by (auto simp: user_path_def)
  with only tf f(4) fr have w: "vm_wf root vm'" unfolding vm_wf_def by blast
  moreover have "translate_user_page_flags vm' root v = None" if u: "user_va v" for v
  proof -
    have "pte_at (vm_mem vm') root (path_of v) (pt_idx v) = None"
      using only [OF user_path_of [OF u]] path_of_def by (cases "table_at (vm_mem vm') root (path_of v)") (auto simp: pte_at_def)
    with translate_flags_at [OF w u] show ?thesis by simp
  qed
  ultimately show ?thesis by (simp add: refines_def)
qed

lemma translate_mem: "vm_mem vm = vm_mem vm' \<Longrightarrow> translate_user_page_flags vm root v = translate_user_page_flags vm' root v"
  by (simp add: translate_user_page_flags_def translate_pte_def read_present_def read_entry_def)

lemma refines_free_frame:
  assumes "refines root vm m" "f < MAX_FRAMES" "phys = of_nat f * of_nat FRAME_SIZE"
    "\<forall>q t. user_path q \<and> table_at (vm_mem vm) root q = Some t \<longrightarrow> frame_no t \<noteq> f"
  shows "refines root (vm\<lparr> vm_frames := frame_free phys (vm_frames vm) \<rparr>) m"
proof -
  have wf: "vm_wf root vm" using assms(1) by (simp add: refines_def)
  have eff: "bitmap_wf (frame_free phys (vm_frames vm))"
    "free_frames (frame_free phys (vm_frames vm)) = insert f (free_frames (vm_frames vm))"
    using frame_free_effect [OF vm_wfD(1) [OF wf], of f phys] frame_phys [OF assms(2)] assms(2,3) by simp_all
  have "table_frame (frame_free phys (vm_frames vm)) t"
    if "user_path q" "table_at (vm_mem vm) root q = Some t" for q t
  proof -
    from vm_wfD(2) [OF wf that] obtain g where g: "t = of_nat g * of_nat FRAME_SIZE" "MIN_ALLOC_FRAME \<le> g"
      "g < MAX_FRAMES" "g \<notin> free_frames (vm_frames vm)" by (auto simp: table_frame_def)
    then have "frame_no t = g" by (simp only: frame_no_def frame_phys)
    then have "g \<noteq> f" using assms(4) that by blast
    with g eff(2) show ?thesis unfolding table_frame_def by blast
  qed
  with eff(1) wf have "vm_wf root (vm\<lparr> vm_frames := frame_free phys (vm_frames vm) \<rparr>)"
    unfolding vm_wf_def by auto
  with assms(1) show ?thesis unfolding refines_def
    using translate_mem [of "vm\<lparr> vm_frames := frame_free phys (vm_frames vm) \<rparr>" vm] by simp
qed

lemma demand_anon_refines:
  assumes r: "refines root vm m" and v: "user_va v" and range: "anon_range v"
  obtains (filled) f vm' where "demand_anon root v vm = Some (True, vm')" "f \<in> free_frames (vm_frames vm)"
      "refines root vm' (m(page_of v \<mapsto> (of_nat f * of_nat FRAME_SIZE, True, True)))" "vm_cr3 vm' = vm_cr3 vm"
    | (full) vm' where "demand_anon root v vm = Some (False, vm')" "refines root vm' m"
      "nearly_full (vm_frames vm')" "vm_cr3 vm' = vm_cr3 vm"
proof -
  note defs = demand_anon_def range [unfolded anon_range_def]
  have wf: "vm_wf root vm" using r by (simp add: refines_def)
  obtain a fb where a: "frame_alloc (vm_frames vm) = (a, fb)" by fastforce
  show ?thesis
  proof (cases a)
    case None
    then have "fb = vm_frames vm" "nearly_full (vm_frames vm)"
      using a alloc_frame_none [OF vm_wfD(1) [OF wf]] frame_alloc_spec [OF vm_wfD(1) [OF wf] a]
      by (auto intro: no_frames_nearly_full)
    then show ?thesis using that(2) [of vm] r a None by (simp add: defs)
  next
    case (Some phys)
    with a have a': "frame_alloc (vm_frames vm) = (Some phys, fb)" by simp
    obtain f where f: "phys = of_nat f * of_nat FRAME_SIZE" "f \<in> free_frames (vm_frames vm)" "f < MAX_FRAMES"
      "free_frames fb = free_frames (vm_frames vm) - {f}"
      by (rule alloc_frame_facts [OF vm_wfD(1) [OF wf] a'])
    define vmz where "vmz = zero_frame phys (vm\<lparr> vm_frames := fb \<rparr>)"
    note z = wf_zero_fresh [OF wf a', folded vmz_def]
    have zr: "refines root vmz m" using z by (intro refines_same [OF r]) (auto simp: same_ptes_def)
    have zf: "vm_frames vmz = fb" by (simp add: vmz_def zero_frame_def)
    from zr v show ?thesis
    proof (cases rule: map_page_refines [where phys = phys and w = True and x = True])
      case (mapped vm')
      then show ?thesis
        using that(1) [of vm' f] a' f(2) growsD(2) [OF z(1)] growsD(2) [OF mapped(2)]
        unfolding f(1) frame_address_mask [OF f(3)] by (simp add: defs vmz_def f(1))
    next
      case (oom msg vm')
      have "frame_no t \<noteq> f" if q: "user_path q" "table_at (vm_mem vm') root q = Some t" for q t
      proof -
        have no: "frame_no phys = f" using f(1,3) by (simp only: frame_no_def frame_phys)
        have "table_at (vm_mem vmz) root q = table_at (vm_mem vm) root q"
          using table_at_zero_fresh [OF wf refl _ q(1), of phys] f(2) no by (simp add: vmz_def zero_frame_def)
        with growsD(4) [OF oom(2) q] zf have "table_at (vm_mem vm) root q = Some t \<or> frame_no t \<in> free_frames fb" by simp
        with vm_wfD(2) [OF wf q(1)] table_frame_no f(2,4) show ?thesis by blast
      qed
      then have "refines root (vm'\<lparr> vm_frames := frame_free phys (vm_frames vm') \<rparr>) m"
        using refines_free_frame [OF oom(3) f(3,1)] by blast
      moreover have "nearly_full (frame_free phys (vm_frames vm'))"
        using oom(4) frame_free_effect [OF vm_wfD(1) [OF growsD(1) [OF oom(2)]], of f phys] frame_phys [OF f(3)] f(1,3)
        by (auto simp: nearly_full_def)
      ultimately show ?thesis
        using that(2) oom a' growsD(2) [OF z(1)] growsD(2) [OF oom(2)] by (simp add: defs vmz_def)
    qed
  qed
qed

lemma demand_page_present: "err AND 1 \<noteq> 0 \<Longrightarrow> demand_page cr2 err vm = Some (False, vm)"
  by (simp add: demand_page_def)

lemma demand_page_absent:
  assumes "err AND 1 = 0" "vm_cr3 vm AND PHYS_MASK = root" "va = cr2 AND NOT 0xFFF"
  shows "demand_page cr2 err vm =
     (if translate_user_page vm root va \<noteq> None then Some (True, vm)
      else case (if mirror_range va then translate_user_page_flags vm root (va - 0x100000000) else None) of
        Some (phys, w, x) \<Rightarrow> do {
          (r, vm) \<leftarrow> map_user_page_with_flags root va phys w x vm;
          case r of Inl _ \<Rightarrow> Some (False, vm) | Inr _ \<Rightarrow> Some (True, vm) }
      | None \<Rightarrow> demand_anon root va vm)"
  unfolding demand_page_def Let_def assms(2) [unfolded PHYS_MASK_def] assms(3) [symmetric] mirror_range_def assms(1)
  by (simp only: simp_thms if_False)

lemma mirrored_va:
  assumes "mirror_range cr2" "user_va cr2" "va = cr2 AND NOT 0xFFF"
  shows "user_va (va - 0x100000000)" "page_of (va - 0x100000000) = page_of (cr2 - 0x100000000)"
proof -
  have a: "unat (0x100000000 :: u64) = 4096 * 0x100000" by simp
  have ge: "0x100000000 \<le> cr2" using assms(1) by (simp only: mirror_range_def)
  then have "0x100000000 \<le> va" unfolding assms(3) page_va_le(1) [OF a] .
  then have "va - 0x100000000 \<le> va" by (rule word_sub_le)
  with page_va_user [OF assms(2)] show "user_va (va - 0x100000000)"
    unfolding user_va_def assms(3) [symmetric] by (blast intro: le_less_trans)
  show "page_of (va - 0x100000000) = page_of (cr2 - 0x100000000)"
    unfolding assms(3) by (rule page_va_sub [OF a ge])
qed

lemma demand_page_refines:
  assumes r: "refines root vm m" and v: "user_va cr2" and cr3: "vm_cr3 vm AND PHYS_MASK = root"
  shows "\<exists>b vm' m'. demand_page cr2 err vm = Some (b, vm') \<and> refines root vm' m' \<and> vm_cr3 vm' = vm_cr3 vm \<and>
     aspace_step (free_frames (vm_frames vm)) (nearly_full (vm_frames vm')) m (VFault cr2 err) (RFault b) m'"
proof (cases "err AND 1 = 0")
  case False
  from demand_page_present [OF False] aspace_step.fault_protection [OF False] r show ?thesis by blast
next
  case True
  define va where va_def: "va = cr2 AND NOT 0xFFF"
  note dp = demand_page_absent [OF True cr3 va_def]
  have wf: "vm_wf root vm" using r by (simp add: refines_def)
  have va: "user_va va" "page_of va = page_of cr2" "mirror_range va \<longleftrightarrow> mirror_range cr2" "anon_range va \<longleftrightarrow> anon_range cr2"
    unfolding va_def by (rule page_va_user [OF v], rule page_va_page, rule range_page_va, rule range_page_va)
  have tr: "translate_user_page vm root va = map_option fst (m (page_of cr2))"
    using translate_at r va(1,2) by (simp add: refines_def)
  define mva where "mva = va - 0x100000000"
  define mcr where "mcr = cr2 - 0x100000000"
  have mir: "translate_user_page_flags vm root mva = m (page_of mcr)" if "mirror_range cr2"
    using r mirrored_va [OF that v va_def, folded mva_def mcr_def] by (simp add: refines_def)
  note dp = dp [folded mva_def]
  show ?thesis
  proof (cases "m (page_of cr2)")
    case (Some e)
    then show ?thesis using dp tr r aspace_step.fault_mapped [where m = m and va = cr2, OF True] by auto
  next
    case None
    with tr dp have dp': "demand_page cr2 err vm =
     (case (if mirror_range va then translate_user_page_flags vm root mva else None) of
        Some (phys, w, x) \<Rightarrow> do {
          (r, vm) \<leftarrow> map_user_page_with_flags root va phys w x vm;
          case r of Inl _ \<Rightarrow> Some (False, vm) | Inr _ \<Rightarrow> Some (True, vm) }
      | None \<Rightarrow> demand_anon root va vm)" by simp
    show ?thesis
    proof (cases "mirror_range cr2 \<and> m (page_of mcr) \<noteq> None")
      case mirror: True
      then obtain phys w x where src: "m (page_of mcr) = Some (phys, w, x)" by auto
      from dp' mir mirror src va(3) have dm: "demand_page cr2 err vm = do {
          (r, vm) \<leftarrow> map_user_page_with_flags root va phys w x vm;
          case r of Inl _ \<Rightarrow> Some (False, vm) | Inr _ \<Rightarrow> Some (True, vm) }" by simp
      from r va(1) show ?thesis
      proof (cases rule: map_page_refines [where phys = phys and w = w and x = x])
        case (oom msg vm')
        with dm growsD(2) [OF oom(2)] aspace_step.fault_oom [where m = m and va = cr2, OF True None no_frames_nearly_full [OF oom(4)]] mirror
        show ?thesis unfolding mcr_def by auto
      next
        case (mapped vm')
        with dm growsD(2) [OF mapped(2)] va(2) aspace_step.fault_mirror [where m = m and va = cr2, OF True None _ src [unfolded mcr_def]] mirror
        show ?thesis by auto
      qed
    next
      case direct: False
      then have "(if mirror_range va then translate_user_page_flags vm root mva else None) = None"
        using mir va(3) by (cases "mirror_range cr2") (simp_all only: simp_thms if_True if_False)
      with dp' have dm: "demand_page cr2 err vm = demand_anon root va vm" by simp
      show ?thesis
      proof (cases "anon_range cr2")
        case False
        then have "demand_anon root va vm = Some (False, vm)"
          using va(4) unfolding demand_anon_def anon_range_def by auto
        with dm have "demand_page cr2 err vm = Some (False, vm)" by simp
        moreover have "mirror_range cr2 \<longrightarrow> m (page_of (cr2 - 0x100000000)) = None"
          using direct unfolding mcr_def by blast
        note aspace_step.fault_reject [where m = m and va = cr2, OF True None False this]
        ultimately show ?thesis using r by blast
      next
        case anon: True
        with va(4) have "anon_range va" by simp
        from r va(1) this show ?thesis
        proof (cases rule: demand_anon_refines)
          case (filled f vm')
          with dm va(2) aspace_step.fault_anon [where m = m and va = cr2, OF True None anon filled(2)] show ?thesis by auto
        next
          case (full vm')
          with dm have "demand_page cr2 err vm = Some (False, vm')" by simp
          with aspace_step.fault_oom [where m = m and va = cr2, OF True None full(3) disjI2 [OF anon]] full(2,4)
          show ?thesis by blast
        qed
      qed
    qed
  qed
qed

lemma vm_exec_refines:
  assumes r: "refines root vm m" and cr3: "vm_cr3 vm AND PHYS_MASK = root" and v: "user_va (vm_op_va op)"
  shows "\<exists>r vm' m'. vm_exec root op vm = Some (r, vm') \<and> refines root vm' m' \<and> vm_cr3 vm' = vm_cr3 vm \<and>
     aspace_step (free_frames (vm_frames vm)) (nearly_full (vm_frames vm')) m op r m'"
proof (cases op)
  case (VMap va phys w x)
  with v have "user_va va" by simp
  with r show ?thesis
  proof (cases rule: map_page_refines [where phys = phys and w = w and x = x])
    case (oom msg vm')
    from oom(1) VMap have "vm_exec root op vm = Some (RErr msg, vm')" by simp
    with VMap growsD(2) [OF oom(2)] oom(3) aspace_step.map_oom [OF no_frames_nearly_full [OF oom(4)]]
    show ?thesis by blast
  next
    case (mapped vm')
    from mapped(1) VMap have "vm_exec root op vm = Some (ROk, vm')" by simp
    with VMap growsD(2) [OF mapped(2)] mapped(3) aspace_step.map show ?thesis by blast
  qed
next
  case (VMapRW va phys)
  have eq: "map_user_page root va phys vm = map_user_page_with_flags root va phys True False vm"
    unfolding map_user_page_def map_user_page_with_flags_def rw_page_flags ..
  from VMapRW v have "user_va va" by simp
  with r show ?thesis
  proof (cases rule: map_page_refines [where phys = phys and w = True and x = False])
    case (oom msg vm')
    from oom(1) VMapRW eq have "vm_exec root op vm = Some (RErr msg, vm')" by simp
    with VMapRW growsD(2) [OF oom(2)] oom(3) aspace_step.map_rw_oom [OF no_frames_nearly_full [OF oom(4)]]
    show ?thesis by blast
  next
    case (mapped vm')
    from mapped(1) VMapRW eq have "vm_exec root op vm = Some (ROk, vm')" by simp
    with VMapRW growsD(2) [OF mapped(2)] mapped(3) aspace_step.map_rw show ?thesis by blast
  qed
next
  case (VUpdate va w x)
  with v have "user_va va" by simp
  note up = update_page_refines [OF r this, of w x]
  show ?thesis
  proof (cases "m (page_of va)")
    case None
    with up VUpdate have "vm_exec root op vm = Some (RErr ''not present'', vm)" by simp
    with VUpdate aspace_step.update_missing [where m = m and v = va, OF None] r show ?thesis by blast
  next
    case (Some e)
    then obtain phys w' x' where e: "m (page_of va) = Some (phys, w', x')" by (cases e) auto
    with up obtain vm' where u: "update_user_page root va w x vm = Some (Inr (), vm')" "grows root vm vm'"
      "refines root vm' (m(page_of va \<mapsto> (phys, w, x)))" by auto
    from u(1) VUpdate have "vm_exec root op vm = Some (ROk, vm')" by simp
    with VUpdate aspace_step.update [where m = m and v = va, OF e] u(3) growsD(2) [OF u(2)] show ?thesis by blast
  qed
next
  case (VUnmap va)
  with v have "user_va va" by simp
  note up = unmap_page_refines [OF r this]
  show ?thesis
  proof (cases "m (page_of va)")
    case None
    with up VUnmap have "vm_exec root op vm = Some (RErr ''not present'', vm)" by simp
    with VUnmap aspace_step.unmap_missing [where m = m and v = va, OF None] r show ?thesis by blast
  next
    case (Some e)
    then obtain phys w' x' where e: "m (page_of va) = Some (phys, w', x')" by (cases e) auto
    with up obtain vm' where u: "unmap_user_page root va vm = Some (Inr phys, vm')" "grows root vm vm'"
      "refines root vm' (m(page_of va := None))" by auto
    from u(1) VUnmap have "vm_exec root op vm = Some (RPhys phys, vm')" by simp
    with VUnmap aspace_step.unmap [where m = m and v = va, OF e] u(3) growsD(2) [OF u(2)] show ?thesis by blast
  qed
next
  case (VFault cr2 err)
  with v have "user_va cr2" by simp
  from demand_page_refines [OF r this cr3, of err] obtain b vm' m' where
    d: "demand_page cr2 err vm = Some (b, vm')" "refines root vm' m'" "vm_cr3 vm' = vm_cr3 vm"
      "aspace_step (free_frames (vm_frames vm)) (nearly_full (vm_frames vm')) m (VFault cr2 err) (RFault b) m'"
    by blast
  from d(1) VFault have "vm_exec root op vm = Some (RFault b, vm')" by simp
  with d(2-4) VFault show ?thesis by blast
qed

fun vm_run :: "u64 \<Rightarrow> vm_op list \<Rightarrow> vm_state \<Rightarrow> (vm_res list \<times> vm_state) option" where
  "vm_run root [] vm = Some ([], vm)"
| "vm_run root (op # ops) vm =
     do { (r, vm) \<leftarrow> vm_exec root op vm; (rs, vm) \<leftarrow> vm_run root ops vm; Some (r # rs, vm) }"

lemma vm_run_wf:
  assumes "refines root vm m" "vm_cr3 vm AND PHYS_MASK = root" "\<forall>op \<in> set ops. user_va (vm_op_va op)"
  shows "\<exists>rs vm' m'. vm_run root ops vm = Some (rs, vm') \<and> refines root vm' m'"
  using assms
proof (induction ops arbitrary: vm m)
  case (Cons op ops)
  from Cons.prems vm_exec_refines [of root vm m op] obtain r vm1 m1 where
    s: "vm_exec root op vm = Some (r, vm1)" "refines root vm1 m1" "vm_cr3 vm1 = vm_cr3 vm" by auto
  from Cons.IH [OF s(2)] s(3) Cons.prems(2,3) obtain rs vm' m' where
    "vm_run root ops vm1 = Some (rs, vm')" "refines root vm' m'" by auto
  with s(1) show ?case by auto
qed auto

lemma refines_cr3: "refines root (vm\<lparr> vm_cr3 := c \<rparr>) m \<longleftrightarrow> refines root vm m"
  by (simp add: refines_def vm_wf_def translate_user_page_flags_def translate_pte_def read_present_def read_entry_def)

text \<open>C3. The four-level page tables refine a map from virtual pages to a frame and its access rights.
  On a well-formed address space that represents the map \<open>m\<close>, mapping, remapping, changing the
  rights of a page, unmapping and resolving a page fault never panic, take the step the map's
  specification allows (every other page keeps its entry, an absent page is reported as such, a
  fault in the mirrored window takes the frame of the page it mirrors, an anonymous fault a free
  frame), and lead to a well-formed address space that represents the resulting map.  An operation
  fails for lack of memory only when at most one allocatable frame is left.\<close>

theorem page_tables_refine_map:
  assumes "refines root vm m" "vm_cr3 vm AND PHYS_MASK = root" "user_va (vm_op_va op)"
  shows "\<exists>r vm' m'. vm_exec root op vm = Some (r, vm') \<and>
     aspace_step (free_frames (vm_frames vm)) (nearly_full (vm_frames vm')) m op r m' \<and>
     refines root vm' m'"
  using vm_exec_refines [OF assms] by blast


section \<open>Mirrored pages\<close>

lemma wf_refines:
  assumes "vm_wf root vm"
  shows "\<exists>m. refines root vm m"
proof -
  define m where "m pg = translate_user_page_flags vm root (SOME v. user_va v \<and> page_of v = pg)" for pg
  have "translate_user_page_flags vm root v = m (page_of v)" if v: "user_va v" for v
  proof -
    define u where "u = (SOME u. user_va u \<and> page_of u = page_of v)"
    have u: "user_va u \<and> page_of u = page_of v" unfolding u_def by (rule someI [of _ v]) (simp add: v)
    then have "path_of u = path_of v \<and> pt_idx u = pt_idx v" using page_of_indices [of u v] v by (simp add: page_of_def)
    then show ?thesis using translate_flags_at [OF assms] v u unfolding m_def u_def by simp
  qed
  with assms show ?thesis by (auto simp: refines_def)
qed

lemma mirror_user_va: "mirror_range v \<Longrightarrow> user_va v"
  unfolding mirror_range_def user_va_def by (erule conjE, erule less_trans) simp

lemma one_page_range:
  assumes "unat v = 4096 * k" "user_va v"
  shows "page_range (v AND NOT 0xFFF) ((v + 4096 + 4095) AND NOT 0xFFF) = [v]"
proof -
  have lt: "4096 * k < 0x800000000000" using assms by (simp add: user_va_def word_less_nat_alt)
  have u: "unat (v + 8191) = 4096 * k + 8191"
    using lt assms(1) by (simp add: unat_word_ariths)
  have a: "unat (v AND NOT 0xFFF) = 4096 * k" unfolding page_va_unat assms(1) by simp
  have b: "unat ((v + 4096 + 4095) AND NOT 0xFFF) = 4096 * (k + 1)"
  proof -
    have "v + 4096 + 4095 = v + 8191" by simp
    then show ?thesis unfolding page_va_unat by (simp only: u) simp
  qed
  have "v AND NOT 0xFFF = v" by (simp only: word_unat_eq_iff a assms(1))
  then show ?thesis unfolding page_range_def a b by simp
qed

lemma mirrored_unat:
  assumes "mirror_range cr2"
  shows "\<exists>k. unat ((cr2 AND NOT 0xFFF) - 0x100000000) = 4096 * k"
proof -
  have a: "unat (0x100000000 :: u64) = 4096 * 0x100000" by simp
  have "0x100000000 \<le> cr2" using assms by (simp only: mirror_range_def)
  then have "0x100000000 \<le> cr2 AND NOT 0xFFF" unfolding page_va_le(1) [OF a] .
  from unat_sub [OF this] have "unat ((cr2 AND NOT 0xFFF) - 0x100000000) = 4096 * (unat cr2 div 4096 - 0x100000)"
    by (simp only: page_va_unat a diff_mult_distrib2)
  then show ?thesis by blast
qed

lemma unmap_one_page:
  assumes r: "refines root vm m" and v: "unat v = 4096 * k" "user_va v" and e: "m (page_of v) = Some (phys, w, x)"
  shows "\<exists>vm'. unmap_user_range root v 4096 vm = Some vm' \<and>
     (\<forall>u. user_va u \<longrightarrow> translate_user_page_flags vm' root u = (m(page_of v := None)) (page_of u)) \<and>
     vm_frames vm' = frame_free phys (vm_frames vm)"
proof -
  have wf: "vm_wf root vm" using r by (simp add: refines_def)
  from unmap_page_refines [OF r v(2)] e obtain vm1 where
    u: "unmap_user_page root v vm = Some (Inr phys, vm1)" "vm_frames vm1 = vm_frames vm" "refines root vm1 (m(page_of v := None))"
    by auto
  let ?vm2 = "vm1\<lparr> vm_frames := frame_free phys (vm_frames vm1) \<rparr>"
  let ?vm3 = "?vm2\<lparr> vm_unmap_freed := vm_unmap_freed vm1 + 1, vm_unmap_not_present := vm_unmap_not_present vm1 + 0,
                   vm_unmap_calls := vm_unmap_calls vm1 + 1 \<rparr>"
  have "unmap_user_range root v 4096 vm = Some ?vm3"
    unfolding unmap_user_range_def one_page_range [OF v] using wf_root(3) [OF wf] u(1) by simp
  moreover have "translate_user_page_flags ?vm3 root u = (m(page_of v := None)) (page_of u)" if "user_va u" for u
    using translate_mem [of ?vm3 vm1 root u] u(3) that by (simp add: refines_def)
  moreover have "vm_frames ?vm3 = frame_free phys (vm_frames vm)" using u(2) by simp
  ultimately show ?thesis by blast
qed

inductive_cases resolved_fault: "aspace_step F full m (VFault va err) (RFault True) m'"

text \<open>C30. A page that the fault handler maps in the mirrored window shares its frame with the page it
  mirrors, and nothing records the sharing.  When the process then unmaps the original page, the
  frame goes back to the allocator while the mirrored page still translates to it: the process keeps
  access to a frame that the next allocation may hand to anyone.\<close>

theorem mirrored_page_dangles:
  assumes "vm_wf root vm" "vm_cr3 vm AND PHYS_MASK = root" "mirror_range cr2" "err AND 1 = 0"
    "translate_user_page vm root cr2 = None"
    "translate_user_page_flags vm root (cr2 - 0x100000000) = Some (of_nat f * of_nat FRAME_SIZE, w, x)" "f < MAX_FRAMES"
    "demand_page cr2 err vm = Some (True, vm1)"
  shows "\<exists>vm2. unmap_user_range root ((cr2 AND NOT 0xFFF) - 0x100000000) 4096 vm1 = Some vm2 \<and>
    translate_user_page vm2 root cr2 = Some (of_nat f * of_nat FRAME_SIZE) \<and> f \<in> free_frames (vm_frames vm2)"
proof -
  define mva mcr :: u64 where "mva = (cr2 AND NOT 0xFFF) - 0x100000000" and "mcr = cr2 - 0x100000000"
  have va: "user_va cr2" using assms(3) by (rule mirror_user_va)
  obtain m where r: "refines root vm m" using wf_refines [OF assms(1)] by blast
  note mva = mirrored_va [OF assms(3) va refl, folded mva_def mcr_def]
  have "user_va mcr"
    using assms(3) va word_sub_le unfolding mcr_def user_va_def mirror_range_def by (blast intro: le_less_trans)
  then have src: "m (page_of mcr) = Some (of_nat f * of_nat FRAME_SIZE, w, x)"
    using r assms(6) by (simp add: refines_def mcr_def)
  have none: "m (page_of cr2) = None"
    using r va assms(5) translate_at by (simp add: refines_def)
  from demand_page_refines [OF r va assms(2), of err] assms(8) obtain m' where
    d: "refines root vm1 m'" "aspace_step (free_frames (vm_frames vm)) (nearly_full (vm_frames vm1)) m (VFault cr2 err) (RFault True) m'"
    by auto
  have not_anon: "\<not> anon_range cr2" using assms(3) by (auto simp: mirror_range_def anon_range_def)
  from d(2) have m': "m' = m(page_of cr2 \<mapsto> (of_nat f * of_nat FRAME_SIZE, w, x))"
    using none not_anon src frame_address_mask [OF assms(7)] unfolding mcr_def by (auto elim!: resolved_fault)
  obtain k where k: "unat mva = 4096 * k" using mirrored_unat [OF assms(3)] unfolding mva_def by blast
  have "page_of mva \<noteq> page_of cr2" using mva(2) none src by auto
  then have "m' (page_of mva) = Some (of_nat f * of_nat FRAME_SIZE, w, x)" using m' mva(2) src by simp
  from unmap_one_page [OF d(1) k mva(1) this] obtain vm2 where
    u: "unmap_user_range root mva 4096 vm1 = Some vm2" "vm_frames vm2 = frame_free (of_nat f * of_nat FRAME_SIZE) (vm_frames vm1)"
      "translate_user_page_flags vm2 root cr2 = (m'(page_of mva := None)) (page_of cr2)" using va by blast
  have "translate_user_page vm2 root cr2 = Some (of_nat f * of_nat FRAME_SIZE)"
    using u(3) m' \<open>page_of mva \<noteq> page_of cr2\<close> by (simp add: translate_at)
  moreover have "bitmap_wf (vm_frames vm1)" using d(1) vm_wfD(1) by (auto simp: refines_def)
  then have "f \<in> free_frames (vm_frames vm2)"
    using frame_free_effect [of "vm_frames vm1" f "of_nat f * of_nat FRAME_SIZE"] frame_phys [OF assms(7)] assms(7) u(2) by simp
  ultimately show ?thesis using u(1) unfolding mva_def by blast
qed

section \<open>Witnesses\<close>

definition boot_vm :: vm_state where
  "boot_vm = \<lparr> vm_mem = (\<lambda>_ _. 0), vm_frames = snd (init_from_regions witness_map 0 bitmap_new), vm_cr3 = 0x1000,
     vm_unmap_not_present = 0, vm_unmap_freed = 0, vm_unmap_calls = 0 \<rparr>"

lemma boot_vm_root:
  "bitmap_wf (vm_frames boot_vm)" "\<exists>vm0. alloc_user_pml4 boot_vm = Some (Some 0x100000, vm0)"
proof -
  show "bitmap_wf (vm_frames boot_vm)" using init_from_regions_free by (simp add: boot_vm_def)
  obtain fb where "frame_alloc (vm_frames boot_vm) = (Some 0x100000, fb)"
    using witness_map_alloc by (cases "frame_alloc (vm_frames boot_vm)") (simp add: boot_vm_def)
  moreover have "phys_to_virt 0x100000 = Some 0x100000" "phys_to_virt (0x1000 AND PHYS_MASK) = Some 0x1000"
    by (simp_all add: phys_to_virt_def kernel_defs)
  ultimately show "\<exists>vm0. alloc_user_pml4 boot_vm = Some (Some 0x100000, vm0)"
    by (simp add: alloc_user_pml4_def alloc_page_table_def zero_frame_def) (simp add: boot_vm_def)
qed

theorem page_tables_refine_map_witness:
  "\<exists>vm. refines 0x100000 vm Map.empty \<and>
     (\<exists>r vm' m'. vm_exec 0x100000 (VMap 0x400000 0x200000 True False) vm = Some (r, vm') \<and>
       aspace_step (free_frames (vm_frames vm)) (nearly_full (vm_frames vm')) Map.empty (VMap 0x400000 0x200000 True False) r m' \<and>
       refines 0x100000 vm' m')"
proof -
  obtain vm0 where "alloc_user_pml4 boot_vm = Some (Some 0x100000, vm0)" using boot_vm_root(2) by blast
  from fresh_pml4_refines [OF boot_vm_root(1) this]
  have r: "refines 0x100000 (vm0\<lparr> vm_cr3 := 0x100000 \<rparr>) Map.empty" by (simp only: refines_cr3)
  have "vm_cr3 (vm0\<lparr> vm_cr3 := 0x100000 \<rparr>) AND PHYS_MASK = 0x100000" "user_va (vm_op_va (VMap 0x400000 0x200000 True False))"
    by (simp_all add: PHYS_MASK_def user_va_def)
  from page_tables_refine_map [OF r this] r show ?thesis by blast
qed


text \<open>An address space with one page at \<^verbatim>\<open>0x1000\<close> and the tables for its mirror at \<^verbatim>\<open>0x100001000\<close>.\<close>

definition mirror_mem :: phys_mem where
  "mirror_mem t i =
     (if t = 0x100000 \<and> i = 0 then 0x101007
      else if t = 0x101000 \<and> i = 0 then 0x102007
      else if t = 0x101000 \<and> i = 4 then 0x104007
      else if t = 0x102000 \<and> i = 0 then 0x103007
      else if t = 0x104000 \<and> i = 0 then 0x105007
      else if t = 0x103000 \<and> i = 1 then 0x200007
      else 0)"

definition mirror_vm :: vm_state where
  "mirror_vm = \<lparr> vm_mem = mirror_mem, vm_frames = bitmap_new, vm_cr3 = 0x100000,
     vm_unmap_not_present = 0, vm_unmap_freed = 0, vm_unmap_calls = 0 \<rparr>"

lemma mirror_tables:
  assumes "length p \<le> 3" "table_at mirror_mem 0x100000 p = Some t"
  shows "(p, t) \<in> {([], 0x100000), ([0], 0x101000), ([0, 0], 0x102000), ([0, 4], 0x104000),
     ([0, 0, 0], 0x103000), ([0, 4, 0], 0x105000)}"
proof -
  consider "p = []" | a where "p = [a]" | a b where "p = [a, b]" | a b c where "p = [a, b, c]"
    using assms(1) by (cases p; cases "tl p"; cases "tl (tl p)"; cases "tl (tl (tl p))") auto
  then show ?thesis
    using assms(2) by cases (auto simp: mirror_mem_def kernel_defs split: if_split_asm)
qed

lemma mirror_wf: "vm_wf 0x100000 mirror_vm"
proof -
  have free: "free_frames bitmap_new = {}" by (simp add: free_frames_def bitmap_new_def free_bits_new)
  have tf: "table_frame bitmap_new t" if "t = of_nat f * of_nat FRAME_SIZE" "256 \<le> f" "f < 1000" for f t
    using that free by (auto simp: table_frame_def kernel_defs)
  have frames: "table_frame bitmap_new t"
    if "t \<in> {0x100000, 0x101000, 0x102000, 0x103000, 0x104000, 0x105000}" for t
    using that tf [of t 256] tf [of t 257] tf [of t 258] tf [of t 259] tf [of t 260] tf [of t 261]
    by (auto simp: FRAME_SIZE_def)
  have "bitmap_wf bitmap_new" by (simp add: bitmap_wf_def bitmap_new_def)
  moreover have "table_frame bitmap_new t" if "user_path p" "table_at mirror_mem 0x100000 p = Some t" for p t
    using mirror_tables [of p t] that by (intro frames) (auto simp: user_path_def)
  moreover have "p = q" if "user_path p" "user_path q" "table_at mirror_mem 0x100000 p = Some t"
    "table_at mirror_mem 0x100000 q = Some t" for p q t
    using mirror_tables [of p t] mirror_tables [of q t] that by (auto simp: user_path_def)
  moreover have "mirror_mem t i AND HUGE = 0" for t i by (simp add: mirror_mem_def HUGE_def)
  ultimately show ?thesis unfolding vm_wf_def mirror_vm_def by (simp only: vm_state.simps) blast
qed

lemma mirror_indices:
  "pml4_idx 0x1000 = 0" "pdpt_idx 0x1000 = 0" "pd_idx 0x1000 = 0" "pt_idx 0x1000 = 1"
  "pml4_idx 0x100001000 = 0" "pdpt_idx 0x100001000 = 4" "pd_idx 0x100001000 = 0" "pt_idx 0x100001000 = 1"
  by (simp_all add: indices)

lemma mirror_entries:
  "mirror_mem 0x100000 0 = 0x101007" "mirror_mem 0x101000 0 = 0x102007" "mirror_mem 0x101000 4 = 0x104007"
  "mirror_mem 0x102000 0 = 0x103007" "mirror_mem 0x104000 0 = 0x105007" "mirror_mem 0x103000 (Suc 0) = 0x200007"
  "mirror_mem 0x105000 (Suc 0) = 0"
  by (simp_all add: mirror_mem_def)

lemma mirror_walk:
  "walk_table 0x100000 = Some 0x100000" "walk_table 0x101000 = Some 0x101000" "walk_table 0x102000 = Some 0x102000"
  "walk_table 0x103000 = Some 0x103000" "walk_table 0x104000 = Some 0x104000" "walk_table 0x105000 = Some 0x105000"
  "phys_to_virt 0x100000 = Some 0x100000" "phys_to_virt 0x101000 = Some 0x101000" "phys_to_virt 0x104000 = Some 0x104000"
  "phys_to_virt 0x105000 = Some 0x105000" "pml4_root_walkable 0x100000"
  by (simp_all add: walk_table_def phys_to_virt_def pml4_root_walkable_def PHYS_LIMIT_def)

lemma mirror_translate:
  "translate_user_page mirror_vm 0x100000 0x100001000 = None"
  "translate_user_page_flags mirror_vm 0x100000 0x1000 = Some (0x200000, True, True)"
  by (simp_all add: translate_user_page_def translate_user_page_flags_def translate_pte_def read_present_def read_entry_def
      mirror_vm_def mirror_indices mirror_entries mirror_walk PHYS_MASK_def PRESENT_def WRITABLE_def NO_EXECUTE_def)

lemma mirror_fault: "\<exists>vm1. demand_page 0x100001000 0 mirror_vm = Some (True, vm1)"
proof -
  have cr3: "vm_cr3 mirror_vm AND PHYS_MASK = 0x100000" by (simp add: mirror_vm_def PHYS_MASK_def)
  have "\<exists>vm1. map_user_page_with_flags 0x100000 0x100001000 0x200000 True True mirror_vm = Some (Inr (), vm1)"
    by (simp add: map_user_page_with_flags_def map_page_in_def ensure_next_table_flags_def read_entry_def mirror_vm_def
        mirror_indices mirror_entries mirror_walk PHYS_MASK_def PRESENT_def)
  moreover have "mirror_range 0x100001000" by (simp add: mirror_range_def)
  ultimately show ?thesis
    using demand_page_absent [OF _ cr3, of 0 "0x100001000" "0x100001000"] mirror_translate by auto
qed

theorem mirrored_page_dangles_witness:
  "\<exists>vm1 vm2. demand_page 0x100001000 0 mirror_vm = Some (True, vm1) \<and>
     unmap_user_range 0x100000 0x1000 4096 vm1 = Some vm2 \<and>
     translate_user_page vm2 0x100000 0x100001000 = Some 0x200000 \<and> 512 \<in> free_frames (vm_frames vm2)"
proof -
  obtain vm1 where d: "demand_page 0x100001000 0 mirror_vm = Some (True, vm1)" using mirror_fault by blast
  have h: "vm_cr3 mirror_vm AND PHYS_MASK = 0x100000" "mirror_range 0x100001000" "(0 :: u64) AND 1 = 0" "512 < MAX_FRAMES"
    "translate_user_page_flags mirror_vm 0x100000 (0x100001000 - 0x100000000) =
       Some (of_nat 512 * of_nat FRAME_SIZE, True, True)"
    using mirror_translate(2) by (simp_all add: mirror_vm_def PHYS_MASK_def mirror_range_def MAX_FRAMES_def FRAME_SIZE_def)
  from mirrored_page_dangles [OF mirror_wf h(1,2,3) mirror_translate(1) h(5,4) d] d show ?thesis
    by (simp add: FRAME_SIZE_def)
qed

end
