(* ===== verification/Page_Teardown.thy ===== *)
theory Page_Teardown
  imports Page_Tables
begin

text \<open>
  Tearing down an address space (\<^verbatim>\<open>free_user_pml4\<close> of \<^verbatim>\<open>kernel/src/mm/paging.rs\<close>): the nested loops over
  the four levels give back every table of the lower half and every frame mapped there, and nothing
  else.  The proof follows the tree: a table releases the tables it points to and what is below them.
\<close>

section \<open>Tearing an address space down\<close>

definition releases :: "(frame_bitmap \<Rightarrow> frame_bitmap) \<Rightarrow> nat set \<Rightarrow> bool" where
  "releases g S \<longleftrightarrow> (\<forall>fb. bitmap_wf fb \<longrightarrow>
     bitmap_wf (g fb) \<and> free_frames (g fb) = free_frames fb \<union> {f \<in> S. f < MAX_FRAMES})"

lemma releases_none: "releases (\<lambda>fb. fb) {}"
  by (simp add: releases_def)

lemma releases_free: "releases (frame_free phys) {frame_no phys}"
proof -
  have "bitmap_wf (frame_free phys fb) \<and>
      free_frames (frame_free phys fb) = free_frames fb \<union> {f \<in> {frame_no phys}. f < MAX_FRAMES}" if "bitmap_wf fb" for fb
  proof (cases "frame_no phys < MAX_FRAMES")
    case True
    with frame_free_effect [OF that, of "frame_no phys" phys] show ?thesis by (auto simp: frame_no_def)
  next
    case False
    then have "frame_free phys fb = fb" by (simp add: frame_free_def frame_no_def Let_def)
    with False that show ?thesis by auto
  qed
  then show ?thesis by (simp add: releases_def)
qed

lemma releases_seq: "releases g S \<Longrightarrow> releases h T \<Longrightarrow> releases (\<lambda>fb. h (g fb)) (T \<union> S)"
  unfolding releases_def by (simp add: Un_assoc) blast

lemma releases_fold:
  "(\<And>i. i \<in> set xs \<Longrightarrow> releases (g i) (S i)) \<Longrightarrow> releases (fold g xs) (\<Union>i \<in> set xs. S i)"
proof (induction xs)
  case Nil
  then show ?case by (simp add: releases_def)
next
  case (Cons x xs)
  have "releases (\<lambda>fb. fold g xs (g x fb)) ((\<Union>i \<in> set xs. S i) \<union> S x)"
    using Cons by (intro releases_seq) auto
  then show ?case by (simp add: Un_commute comp_def)
qed

text \<open>The frames strictly below a table of the tree: the tables under it and the frames mapped there.\<close>

definition below :: "phys_mem \<Rightarrow> u64 \<Rightarrow> nat list \<Rightarrow> nat set" where
  "below m root p =
     {frame_no t | q t. q \<noteq> [] \<and> user_path (p @ q) \<and> table_at m root (p @ q) = Some t} \<union>
     {frame_no (e AND PHYS_MASK) | q l e. user_path (p @ q) \<and> length (p @ q) = 3 \<and> l < 512 \<and>
        pte_at m root (p @ q) l = Some e}"

lemma table_at_append: "table_at m t (p @ q) = do { u \<leftarrow> table_at m t p; table_at m u q }"
  by (induction p arbitrary: t) auto

lemma user_path_append: "user_path (p @ q) \<Longrightarrow> user_path p"
  by (cases p) (auto simp: user_path_def)

lemma below_leaf:
  assumes "user_path p" "length p = 3"
  shows "below m root p = {frame_no (e AND PHYS_MASK) | l e. l < 512 \<and> pte_at m root p l = Some e}"
  using assms by (auto simp: below_def user_path_def)

lemma below_step:
  assumes p: "length p < 3" "table_at m root p = Some t"
  shows "below m root p = (\<Union>i \<in> {i. user_path (p @ [i]) \<and> m t i AND PRESENT \<noteq> 0}.
     insert (frame_no (m t i AND PHYS_MASK)) (below m root (p @ [i])))" (is "_ = ?R")
proof
  have nx: "table_at m root (p @ [i]) = (if m t i AND PRESENT = 0 then None else Some (m t i AND PHYS_MASK))" for i
    using p(2) by (simp add: table_at_snoc)
  show "below m root p \<subseteq> ?R"
  proof
    fix f assume "f \<in> below m root p"
    then consider (table) q u where "f = frame_no u" "q \<noteq> []" "user_path (p @ q)" "table_at m root (p @ q) = Some u"
      | (leaf) q l e where "f = frame_no (e AND PHYS_MASK)" "user_path (p @ q)" "length (p @ q) = 3" "l < 512"
          "pte_at m root (p @ q) l = Some e" by (auto simp: below_def)
    then show "f \<in> ?R"
    proof cases
      case table
      then obtain i r where q: "q = i # r" by (cases q) auto
      have up: "user_path (p @ [i])" using table(3) q user_path_append [of "p @ [i]" r] by simp
      have pr: "m t i AND PRESENT \<noteq> 0"
        using table(4) q nx [of i] table_at_append [of m root "p @ [i]" r] by (auto split: if_splits)
      have "f \<in> insert (frame_no (m t i AND PHYS_MASK)) (below m root (p @ [i]))"
      proof (cases "r = []")
        case True
        with table q nx [of i] pr show ?thesis by simp
      next
        case False
        with table q show ?thesis unfolding below_def by fastforce
      qed
      with up pr show ?thesis by blast
    next
      case leaf
      then obtain i r where q: "q = i # r" using p(1) by (cases q) auto
      have up: "user_path (p @ [i])" using leaf(2) q user_path_append [of "p @ [i]" r] by simp
      have pr: "m t i AND PRESENT \<noteq> 0"
        using leaf(5) q nx [of i] table_at_append [of m root "p @ [i]" r]
        by (auto simp: pte_at_def split: if_splits Option.bind_split_asm)
      have "f \<in> below m root (p @ [i])" using leaf q unfolding below_def by fastforce
      with up pr show ?thesis by blast
    qed
  qed
  show "?R \<subseteq> below m root p"
  proof
    fix f assume "f \<in> ?R"
    then obtain i where i: "user_path (p @ [i])" "m t i AND PRESENT \<noteq> 0"
      "f = frame_no (m t i AND PHYS_MASK) \<or> f \<in> below m root (p @ [i])" by auto
    from i(3) show "f \<in> below m root p"
    proof
      assume "f = frame_no (m t i AND PHYS_MASK)"
      with i(1,2) nx [of i] show ?thesis unfolding below_def by fastforce
    next
      assume "f \<in> below m root (p @ [i])"
      then show ?thesis unfolding below_def by fastforce
    qed
  qed
qed

text \<open>One entry of a table on the way down: an absent entry releases nothing, a present one the table
  it points to and everything below.\<close>

definition free_entry :: "vm_state \<Rightarrow> (u64 \<Rightarrow> frame_bitmap \<Rightarrow> frame_bitmap) \<Rightarrow> u64 \<Rightarrow> nat \<Rightarrow> frame_bitmap \<Rightarrow> frame_bitmap" where
  "free_entry vm sub t i fb = (let e = read_entry vm t i; phys = e AND PHYS_MASK in
     if e AND PRESENT = 0 then fb
     else if e AND HUGE \<noteq> 0 then frame_free phys fb
     else case walk_table phys of None \<Rightarrow> fb | Some u \<Rightarrow> frame_free phys (sub u fb))"

lemma free_pd_entries: "free_pd vm pd = fold (free_entry vm (free_pt vm) pd) [0..<512]"
  unfolding free_pd_def free_entry_def Let_def by (rule refl)

lemma free_pdpt_entries: "free_pdpt vm pdpt = fold (free_entry vm (free_pd vm) pdpt) [0..<512]"
  unfolding free_pdpt_def free_entry_def Let_def by (rule refl)

lemma Union_if: "(\<Union>i \<in> set [0..<n]. if P i then {} else A i) = (\<Union>i \<in> {i. i < n \<and> \<not> P i}. A i)"
  by auto

lemma free_level:
  assumes wf: "vm_wf root vm" and p: "length p < 3" "table_at (vm_mem vm) root p = Some t"
    and n: "\<And>i. user_path (p @ [i]) \<longleftrightarrow> i < n"
    and sub: "\<And>i u. user_path (p @ [i]) \<Longrightarrow> table_at (vm_mem vm) root (p @ [i]) = Some u \<Longrightarrow>
        releases (sub u) (below (vm_mem vm) root (p @ [i]))"
  shows "releases (fold (free_entry vm sub t) [0..<n]) (below (vm_mem vm) root p)"
proof -
  define e where "e i = vm_mem vm t i" for i
  define B where "B i = insert (frame_no (e i AND PHYS_MASK)) (below (vm_mem vm) root (p @ [i]))" for i
  have "releases (free_entry vm sub t i) (if e i AND PRESENT = 0 then {} else B i)" if i: "i \<in> set [0..<n]" for i
  proof (cases "e i AND PRESENT = 0")
    case True
    then have "free_entry vm sub t i = (\<lambda>fb. fb)" by (intro ext) (simp add: free_entry_def read_entry_def e_def)
    then show ?thesis using True releases_none by (simp only: if_True simp_thms)
  next
    case False
    have up: "user_path (p @ [i])" using i unfolding n by simp
    have u: "table_at (vm_mem vm) root (p @ [i]) = Some (e i AND PHYS_MASK)"
      using p(2) False by (simp add: table_at_snoc e_def)
    have "e i AND HUGE = 0" using vm_wfD(4) [OF wf up p(2)] False by (simp add: e_def)
    with wf_table_pointer(2) [OF wf up u] False
    have "free_entry vm sub t i = (\<lambda>fb. frame_free (e i AND PHYS_MASK) (sub (e i AND PHYS_MASK) fb))"
      by (intro ext) (simp add: free_entry_def read_entry_def e_def Let_def)
    moreover have "releases (\<lambda>fb. frame_free (e i AND PHYS_MASK) (sub (e i AND PHYS_MASK) fb)) (B i)"
      using releases_seq [OF sub [OF up u] releases_free] unfolding B_def by (simp only: insert_is_Un [symmetric])
    ultimately show ?thesis using False by (simp only: if_False)
  qed
  from releases_fold [where xs = "[0..<n]" and S = "\<lambda>i. if e i AND PRESENT = 0 then {} else B i", OF this]
  show ?thesis unfolding Union_if below_step [OF p] n B_def e_def .
qed

lemma free_pt_releases:
  assumes "vm_wf root vm" "user_path p" "length p = 3" "table_at (vm_mem vm) root p = Some t"
  shows "releases (free_pt vm t) (below (vm_mem vm) root p)"
proof -
  define e where "e l = vm_mem vm t l" for l
  have step: "releases (\<lambda>fb. let pte = read_entry vm t l in
      if pte AND PRESENT \<noteq> 0 then frame_free (pte AND PHYS_MASK) fb else fb)
      (if e l AND PRESENT = 0 then {} else {frame_no (e l AND PHYS_MASK)})" for l
    using releases_none releases_free [of "e l AND PHYS_MASK"]
    by (cases "e l AND PRESENT = 0") (simp_all add: read_entry_def e_def)
  define idx where "idx = [0..<512 :: nat]"
  have "releases (free_pt vm t) (\<Union>l \<in> set idx. if e l AND PRESENT = 0 then {} else {frame_no (e l AND PHYS_MASK)})"
    unfolding free_pt_def idx_def [symmetric] by (rule releases_fold) (rule step)
  then have "releases (free_pt vm t) (\<Union>l \<in> {l. l < 512 \<and> \<not> e l AND PRESENT = 0}. {frame_no (e l AND PHYS_MASK)})"
    unfolding idx_def Union_if .
  moreover have "(\<Union>l \<in> {l. l < 512 \<and> \<not> e l AND PRESENT = 0}. {frame_no (e l AND PHYS_MASK)}) =
      {frame_no (e' AND PHYS_MASK) | l e'. l < 512 \<and> pte_at (vm_mem vm) root p l = Some e'}"
    using assms(4) by (auto simp: pte_at_def e_def)
  ultimately show ?thesis unfolding below_leaf [OF assms(2,3)] by (simp only:)
qed

lemma user_path_extend: "user_path p \<Longrightarrow> p \<noteq> [] \<Longrightarrow> length p < 3 \<Longrightarrow> user_path (p @ [i]) \<longleftrightarrow> i < 512"
  by (auto simp: user_path_def)

lemma free_pd_releases:
  assumes "vm_wf root vm" "user_path p" "length p = 2" "table_at (vm_mem vm) root p = Some t"
  shows "releases (free_pd vm t) (below (vm_mem vm) root p)"
  unfolding free_pd_entries
proof (rule free_level [OF assms(1) _ assms(4)])
  show "length p < 3" using assms(3) by simp
  show "user_path (p @ [i]) \<longleftrightarrow> i < 512" for i
    by (rule user_path_extend [OF assms(2)]) (use assms(3) in auto)
  show "releases (free_pt vm u) (below (vm_mem vm) root (p @ [i]))"
    if "user_path (p @ [i])" "table_at (vm_mem vm) root (p @ [i]) = Some u" for i u
    by (rule free_pt_releases [OF assms(1) that(1) _ that(2)]) (use assms(3) in simp)
qed

lemma free_pdpt_releases:
  assumes "vm_wf root vm" "user_path p" "length p = 1" "table_at (vm_mem vm) root p = Some t"
  shows "releases (free_pdpt vm t) (below (vm_mem vm) root p)"
  unfolding free_pdpt_entries
proof (rule free_level [OF assms(1) _ assms(4)])
  show "length p < 3" using assms(3) by simp
  show "user_path (p @ [i]) \<longleftrightarrow> i < 512" for i
    by (rule user_path_extend [OF assms(2)]) (use assms(3) in auto)
  show "releases (free_pd vm u) (below (vm_mem vm) root (p @ [i]))"
    if "user_path (p @ [i])" "table_at (vm_mem vm) root (p @ [i]) = Some u" for i u
    by (rule free_pd_releases [OF assms(1) that(1) _ that(2)]) (use assms(3) in simp)
qed

lemma free_pml4_releases:
  assumes wf: "vm_wf root vm"
  shows "vm_mem (free_user_pml4 root vm) = vm_mem vm \<and>
    free_frames (vm_frames (free_user_pml4 root vm)) =
      free_frames (vm_frames vm) \<union> {f \<in> insert (frame_no root) (below (vm_mem vm) root []). f < MAX_FRAMES}"
proof -
  let ?m = "vm_mem vm"
  define top where "top = (\<lambda>i fb. let pml4e = read_entry vm root i; pdpt_phys = pml4e AND PHYS_MASK in
             if pml4e AND PRESENT = 0 then fb
             else case walk_table pdpt_phys of None \<Rightarrow> fb
                  | Some pdpt \<Rightarrow> frame_free pdpt_phys (free_pdpt vm pdpt fb))"
  define idx where "idx = [0..<256 :: nat]"
  have top: "top i = free_entry vm (free_pdpt vm) root i" if "i \<in> set idx" for i
  proof (cases "?m root i AND PRESENT = 0")
    case False
    have "user_path ([] @ [i])" using that by (simp add: user_path_def idx_def)
    from vm_wfD(4) [OF wf this _ False] have "?m root i AND HUGE = 0" by simp
    with False show ?thesis by (auto simp: top_def free_entry_def read_entry_def Let_def)
  qed (auto simp: top_def free_entry_def read_entry_def)
  have "fold top idx fb = fold (free_entry vm (free_pdpt vm) root) idx fb" for fb
    using top by (intro fold_cong) auto
  then have eq: "free_user_pml4 root vm = vm\<lparr> vm_frames := frame_free root (fold (free_entry vm (free_pdpt vm) root) idx (vm_frames vm)) \<rparr>"
    using wf_root [OF wf] by (simp add: free_user_pml4_def free_pml4_def idx_def [symmetric] top_def [symmetric])
  have "releases (fold (free_entry vm (free_pdpt vm) root) idx) (below ?m root [])"
    unfolding idx_def
  proof (rule free_level [OF wf])
    show "user_path ([] @ [i]) \<longleftrightarrow> i < 256" for i by (auto simp: user_path_def)
    show "releases (free_pdpt vm u) (below ?m root ([] @ [i]))"
      if "user_path ([] @ [i])" "table_at ?m root ([] @ [i]) = Some u" for i u
      by (rule free_pdpt_releases [OF wf that(1) _ that(2)]) simp
  qed simp_all
  from releases_seq [OF this releases_free [of root]] vm_wfD(1) [OF wf] show ?thesis
    unfolding eq releases_def by simp
qed

lemma va_of_path:
  assumes "user_path p" "length p = 3" "l < 512"
  shows "\<exists>v. user_va v \<and> path_of v = p \<and> pt_idx v = l"
proof -
  obtain a b c where p: "p = [a, b, c]" using assms(2) by (auto simp: numeral_eq_Suc length_Suc_conv)
  have lt: "a < 256" "b < 512" "c < 512" using assms(1) p by (auto simp: user_path_def)
  have digit: "(x * 512 + y) div 512 = x" "(x * 512 + y) mod 512 = y" if "y < 512" for x y :: nat
    using that by simp_all
  define n1 where "n1 = a * 512 + b"
  define n2 where "n2 = n1 * 512 + c"
  define n where "n = n2 * 512 + l"
  have n: "n < 2 ^ 35" using lt assms(3) by (simp add: n_def n2_def n1_def)
  have "n div 512 = n2" "n2 div 512 = n1" "n1 div 512 = a" "n mod 512 = l" "n2 mod 512 = c" "n1 mod 512 = b"
    by (simp_all only: n_def digit [OF assms(3)], simp_all only: n2_def digit [OF lt(3)],
        simp_all only: n1_def digit [OF lt(2)])
  then have d: "n mod 512 = l" "n div 512 mod 512 = c" "n div 512 div 512 mod 512 = b" "n div 512 div 512 div 512 mod 512 = a"
    using lt by simp_all
  have u: "unat (of_nat (4096 * n) :: u64) = 4096 * n"
  proof -
    have "take_bit 64 (4096 * n) = 4096 * n" using n by (intro take_bit_nat_eq_self) simp
    then show ?thesis unfolding unsigned_of_nat by simp
  qed
  have "user_va (of_nat (4096 * n))" unfolding user_va_def word_less_nat_alt u using n by simp
  moreover have "path_of (of_nat (4096 * n)) = p" "pt_idx (of_nat (4096 * n)) = l"
    unfolding path_of_def indices u p using d by simp_all
  ultimately show ?thesis by blast
qed

lemma mapped_frames:
  assumes wf: "vm_wf root vm"
  shows "(\<exists>v. user_va v \<and> translate_user_page vm root v = Some phys) \<longleftrightarrow>
    (\<exists>p l e. user_path p \<and> length p = 3 \<and> l < 512 \<and> pte_at (vm_mem vm) root p l = Some e \<and> phys = e AND PHYS_MASK)"
proof -
  have tr: "translate_user_page vm root v = map_option (\<lambda>e. e AND PHYS_MASK) (pte_at (vm_mem vm) root (path_of v) (pt_idx v))"
    if "user_va v" for v
    using translate_flags_at [OF wf that] translate_at [of vm root v] by (simp add: option.map_comp comp_def decode_pte_def)
  show ?thesis
  proof
    assume "\<exists>v. user_va v \<and> translate_user_page vm root v = Some phys"
    then obtain v where v: "user_va v" "translate_user_page vm root v = Some phys" by blast
    moreover have "length (path_of v) = 3" "pt_idx v < 512" by (simp_all add: path_of_def indices)
    ultimately show "\<exists>p l e. user_path p \<and> length p = 3 \<and> l < 512 \<and> pte_at (vm_mem vm) root p l = Some e \<and> phys = e AND PHYS_MASK"
      using user_path_of [OF v(1)] tr [OF v(1)] by auto
  next
    assume "\<exists>p l e. user_path p \<and> length p = 3 \<and> l < 512 \<and> pte_at (vm_mem vm) root p l = Some e \<and> phys = e AND PHYS_MASK"
    then obtain p l e where e: "user_path p" "length p = 3" "l < 512" "pte_at (vm_mem vm) root p l = Some e" "phys = e AND PHYS_MASK"
      by blast
    from va_of_path [OF e(1-3)] obtain v where "user_va v" "path_of v = p" "pt_idx v = l" by blast
    with tr [of v] e show "\<exists>v. user_va v \<and> translate_user_page vm root v = Some phys" by auto
  qed
qed

text \<open>C7. Tearing down an address space loses no frame.  On a well-formed address space
  \<^verbatim>\<open>free_user_pml4\<close> leaves memory alone and makes exactly the following frames free in addition to
  those that were: the root and every table reachable in the lower half, and every frame the space
  maps (frames outside the allocator's range, such as device memory, excepted).  The kernel half,
  which all address spaces share, is not touched.\<close>

theorem free_user_pml4_releases_all:
  assumes "vm_wf root vm"
  shows "vm_mem (free_user_pml4 root vm) = vm_mem vm \<and>
    free_frames (vm_frames (free_user_pml4 root vm)) = free_frames (vm_frames vm) \<union>
      {frame_no t | p t. user_path p \<and> table_at (vm_mem vm) root p = Some t} \<union>
      {frame_no phys | v phys. user_va v \<and> translate_user_page vm root v = Some phys \<and> frame_no phys < MAX_FRAMES}"
proof -
  let ?T = "{frame_no t | p t. user_path p \<and> table_at (vm_mem vm) root p = Some t}"
  let ?L = "{frame_no phys | v phys. user_va v \<and> translate_user_page vm root v = Some phys}"
  have "insert (frame_no root) (below (vm_mem vm) root []) = ?T \<union> ?L"
  proof -
    have t: "?T = insert (frame_no root) {frame_no t | q t. q \<noteq> [] \<and> user_path ([] @ q) \<and> table_at (vm_mem vm) root ([] @ q) = Some t}"
      (is "_ = insert _ ?T'")
    proof (intro equalityI subsetI)
      fix f assume "f \<in> ?T"
      then obtain q t where q: "f = frame_no t" "user_path q" "table_at (vm_mem vm) root q = Some t" by blast
      show "f \<in> insert (frame_no root) ?T'"
      proof (cases "q = []")
        case False
        with q show ?thesis unfolding append_Nil by blast
      qed (use q in simp)
    next
      fix f assume "f \<in> insert (frame_no root) ?T'"
      moreover have "frame_no root \<in> ?T" using root_path table_at.simps(1) by blast
      ultimately show "f \<in> ?T" by auto
    qed
    have "?L = {frame_no phys | phys. \<exists>v. user_va v \<and> translate_user_page vm root v = Some phys}" by blast
    also have "\<dots> = {frame_no (e AND PHYS_MASK) | q l e. user_path ([] @ q) \<and> length ([] @ q) = 3 \<and> l < 512 \<and>
        pte_at (vm_mem vm) root ([] @ q) l = Some e}"
      unfolding mapped_frames [OF assms] append_Nil by blast
    finally have l: "?L = {frame_no (e AND PHYS_MASK) | q l e. user_path ([] @ q) \<and> length ([] @ q) = 3 \<and> l < 512 \<and>
        pte_at (vm_mem vm) root ([] @ q) l = Some e}" .
    show ?thesis unfolding below_def t l by (simp only: Un_insert_left)
  qed
  moreover have "f < MAX_FRAMES" if "f \<in> ?T" for f
    using that vm_wfD(2) [OF assms] table_frame_no by blast
  then have "{f \<in> ?T \<union> ?L. f < MAX_FRAMES} = ?T \<union>
      {frame_no phys | v phys. user_va v \<and> translate_user_page vm root v = Some phys \<and> frame_no phys < MAX_FRAMES}"
    by blast
  ultimately show ?thesis using free_pml4_releases [OF assms] by (simp only: Un_assoc)
qed

theorem free_user_pml4_releases_all_witness:
  "vm_mem (free_user_pml4 0x100000 mirror_vm) = vm_mem mirror_vm \<and>
   {256, 257, 512} \<subseteq> free_frames (vm_frames (free_user_pml4 0x100000 mirror_vm))"
proof -
  let ?F = "free_frames (vm_frames (free_user_pml4 0x100000 mirror_vm))"
  note all = free_user_pml4_releases_all [OF mirror_wf]
  have t: "frame_no t \<in> ?F" if "user_path p" "table_at (vm_mem mirror_vm) 0x100000 p = Some t" for p t
    using all that by blast
  have l: "frame_no phys \<in> ?F"
    if "user_va v" "translate_user_page mirror_vm 0x100000 v = Some phys" "frame_no phys < MAX_FRAMES" for v phys
    using all that by blast
  have "frame_no 0x100000 \<in> ?F" "frame_no 0x101000 \<in> ?F" "frame_no 0x200000 \<in> ?F"
    by (rule t [of "[]"], simp, simp,
        rule t [of "[0]"], simp add: user_path_def, simp add: mirror_vm_def mirror_entries kernel_defs,
        rule l [of "0x1000"], simp add: user_va_def, simp add: translate_at mirror_translate,
        simp add: frame_no_def kernel_defs)
  then have "256 \<in> ?F" "257 \<in> ?F" "512 \<in> ?F" by (simp_all add: frame_no_def FRAME_SIZE_def)
  with all show ?thesis by blast
qed

end
