(* ===== verification/Elf_Loader.thy ===== *)
theory Elf_Loader
  imports Page_Tables
begin

text \<open>
  The ELF loader (\<^verbatim>\<open>kernel/src/process/elf.rs\<close>): header and program header checks, and the loop that
  gives every page of a loadable segment a frame, copies the bytes of the file into it and maps it.
  It is the first client of the page tables, so the statement about it is end to end: what a process
  reads at an address of its new address space is the byte the file puts there.

  File offsets and sizes are \<^verbatim>\<open>usize\<close> values of a release build, so their sums wrap.  The value
  \<^term>\<open>None\<close> of a loading function stands for a run without a defined result: a panic of the page
  tables, or a read outside the bytes of the file.
\<close>

section \<open>Headers\<close>

definition ELF_MAGIC :: bytes where [kernel_defs]: "ELF_MAGIC = [0x7F, 0x45, 0x4C, 0x46]"
definition ELFCLASS64 :: u8 where [kernel_defs]: "ELFCLASS64 = 2"
definition ELFDATA2LSB :: u8 where [kernel_defs]: "ELFDATA2LSB = 1"
definition ET_EXEC :: u16 where [kernel_defs]: "ET_EXEC = 2"
definition ET_DYN :: u16 where [kernel_defs]: "ET_DYN = 3"
definition EM_NATIVE :: u16 where [kernel_defs]: "EM_NATIVE = 62"
definition PT_LOAD :: u32 where [kernel_defs]: "PT_LOAD = 1"
definition PF_X :: u32 where [kernel_defs]: "PF_X = push_bit 0 1"
definition PF_W :: u32 where [kernel_defs]: "PF_W = push_bit 1 1"

definition ELF64_HDR_SIZE :: nat where [kernel_defs]: "ELF64_HDR_SIZE = 64"
definition ELF64_PHDR_SIZE :: nat where [kernel_defs]: "ELF64_PHDR_SIZE = 56"

record elf64_hdr =
  e_ident :: bytes
  e_type :: u16
  e_machine :: u16
  e_version :: u32
  e_entry :: u64
  e_phoff :: u64
  e_shoff :: u64
  e_flags :: u32
  e_ehsize :: u16
  e_phentsize :: u16
  e_phnum :: u16
  e_shentsize :: u16
  e_shnum :: u16
  e_shstrndx :: u16

record elf64_phdr =
  p_type :: u32
  p_flags :: u32
  p_offset :: u64
  p_vaddr :: u64
  p_paddr :: u64
  p_filesz :: u64
  p_memsz :: u64
  p_align :: u64

text \<open>Reinterpreting the bytes of a packed structure, field by field.\<close>

definition elf64_hdr_of :: "bytes \<Rightarrow> elf64_hdr" where
  "elf64_hdr_of b = \<lparr> e_ident = slice 0 16 b, e_type = from_le (slice 16 18 b), e_machine = from_le (slice 18 20 b),
     e_version = from_le (slice 20 24 b), e_entry = from_le (slice 24 32 b), e_phoff = from_le (slice 32 40 b),
     e_shoff = from_le (slice 40 48 b), e_flags = from_le (slice 48 52 b), e_ehsize = from_le (slice 52 54 b),
     e_phentsize = from_le (slice 54 56 b), e_phnum = from_le (slice 56 58 b), e_shentsize = from_le (slice 58 60 b),
     e_shnum = from_le (slice 60 62 b), e_shstrndx = from_le (slice 62 64 b) \<rparr>"

definition elf64_phdr_of :: "bytes \<Rightarrow> elf64_phdr" where
  "elf64_phdr_of b = \<lparr> p_type = from_le (slice 0 4 b), p_flags = from_le (slice 4 8 b), p_offset = from_le (slice 8 16 b),
     p_vaddr = from_le (slice 16 24 b), p_paddr = from_le (slice 24 32 b), p_filesz = from_le (slice 32 40 b),
     p_memsz = from_le (slice 40 48 b), p_align = from_le (slice 48 56 b) \<rparr>"

text \<open>The bounds check of \<^verbatim>\<open>read_struct\<close> wraps; a read it lets through that is not inside the file has
  no defined result.\<close>

definition read_struct :: "nat \<Rightarrow> bytes \<Rightarrow> u64 \<Rightarrow> bytes option option" where
  "read_struct sz bytes offset =
     (if unat (offset + of_nat sz) > length bytes then Some None
      else if unat offset + sz > length bytes then None
      else Some (Some (take sz (drop (unat offset) bytes))))"

section \<open>Bytes of a frame\<close>

definition set_byte :: "nat \<Rightarrow> u8 \<Rightarrow> u64 \<Rightarrow> u64" where
  "set_byte j b w = (w AND NOT (push_bit (8 * j) 0xFF)) OR push_bit (8 * j) (ucast b)"

definition read_byte :: "vm_state \<Rightarrow> u64 \<Rightarrow> nat \<Rightarrow> u8" where
  "read_byte vm phys k = ucast (drop_bit (8 * (k mod 8)) (read_entry vm phys (k div 8)))"

definition write_byte :: "u64 \<Rightarrow> nat \<Rightarrow> u8 \<Rightarrow> vm_state \<Rightarrow> vm_state" where
  "write_byte phys k b vm = write_entry phys (k div 8) (set_byte (k mod 8) b (read_entry vm phys (k div 8))) vm"

section \<open>Loading\<close>

text \<open>The frame of a page: the one this load has already given it, or a new one filled with zeros.\<close>

type_synonym page_frames = "u64 \<rightharpoonup> u64"

definition page_frame :: "page_frames \<Rightarrow> u64 \<Rightarrow> vm_state \<Rightarrow> u64 option \<times> page_frames \<times> vm_state" where
  "page_frame mapped page_virt vm =
     (case mapped page_virt of
        Some phys \<Rightarrow> (Some phys, mapped, vm)
      | None \<Rightarrow>
          (case frame_alloc (vm_frames vm) of
             (None, fb) \<Rightarrow> (None, mapped, vm\<lparr> vm_frames := fb \<rparr>)
           | (Some phys, fb) \<Rightarrow>
               (Some phys, mapped(page_virt \<mapsto> phys), zero_frame phys (vm\<lparr> vm_frames := fb \<rparr>))))"

definition copy_byte :: "bytes \<Rightarrow> elf64_phdr \<Rightarrow> nat \<Rightarrow> u64 \<Rightarrow> nat \<Rightarrow> nat \<Rightarrow> vm_state \<Rightarrow> vm_state" where
  "copy_byte bytes ph page_off page_phys byte_start byte_idx vm =
     (if byte_idx < page_off then vm
      else
        let seg_byte = byte_idx - page_off in
        if seg_byte < unat (p_filesz ph) then
          let src_off = p_offset ph + of_nat seg_byte in
          if unat src_off < length bytes
          then write_byte page_phys (byte_idx - byte_start) (bytes ! unat src_off) vm
          else vm
        else vm)"

definition load_page ::
    "bytes \<Rightarrow> elf64_phdr \<Rightarrow> u64 \<Rightarrow> nat \<Rightarrow> page_frames \<Rightarrow> vm_state \<Rightarrow> ((string + page_frames) \<times> vm_state) option" where
  "load_page bytes ph pml4_phys p mapped vm =
     (let page_start = p_vaddr ph AND NOT 0xFFF;
          page_off = unat (p_vaddr ph - page_start);
          total_bytes = of_nat page_off + p_memsz ph;
          page_virt = page_start + of_nat (p * 4096);
          existing_phys = mapped page_virt
      in case page_frame mapped page_virt vm of
        (None, mapped, vm) \<Rightarrow> Some (Inl ''OOM: elf segment'', vm)
      | (Some page_phys, mapped, vm) \<Rightarrow>
          let byte_start = p * 4096;
              byte_end = unat (min (of_nat byte_start + 4096) total_bytes);
              vm = fold (copy_byte bytes ph page_off page_phys byte_start) [byte_start..<byte_end] vm;
              writable = (p_flags ph AND PF_W \<noteq> 0);
              map_exec = (p_flags ph AND PF_X \<noteq> 0 \<or> existing_phys \<noteq> None)
          in do {
            (r, vm) \<leftarrow> map_user_page_with_flags pml4_phys page_virt page_phys writable map_exec vm;
            case r of Inl e \<Rightarrow> Some (Inl e, vm) | Inr _ \<Rightarrow> Some (Inr mapped, vm) })"

fun load_pages ::
    "bytes \<Rightarrow> elf64_phdr \<Rightarrow> u64 \<Rightarrow> nat list \<Rightarrow> page_frames \<Rightarrow> vm_state \<Rightarrow> ((string + page_frames) \<times> vm_state) option" where
  "load_pages bytes ph pml4_phys [] mapped vm = Some (Inr mapped, vm)"
| "load_pages bytes ph pml4_phys (p # ps) mapped vm = do {
     (r, vm) \<leftarrow> load_page bytes ph pml4_phys p mapped vm;
     case r of Inl e \<Rightarrow> Some (Inl e, vm) | Inr mapped \<Rightarrow> load_pages bytes ph pml4_phys ps mapped vm }"

definition segment_pages :: "elf64_phdr \<Rightarrow> nat" where
  "segment_pages ph =
     (let page_off = unat (p_vaddr ph - (p_vaddr ph AND NOT 0xFFF))
      in (unat (of_nat page_off + p_memsz ph) + 4095) div 4096)"

fun load_phdrs ::
    "bytes \<Rightarrow> u64 \<Rightarrow> u64 \<Rightarrow> nat list \<Rightarrow> page_frames \<Rightarrow> vm_state \<Rightarrow> ((string + page_frames) \<times> vm_state) option" where
  "load_phdrs bytes ph_off pml4_phys [] mapped vm = Some (Inr mapped, vm)"
| "load_phdrs bytes ph_off pml4_phys (i # is) mapped vm = do {
     h \<leftarrow> read_struct ELF64_PHDR_SIZE bytes (ph_off + of_nat (i * ELF64_PHDR_SIZE));
     case h of None \<Rightarrow> Some (Inl ''pheader OOB'', vm)
     | Some b \<Rightarrow>
         let ph = elf64_phdr_of b in
         if p_type ph \<noteq> PT_LOAD then load_phdrs bytes ph_off pml4_phys is mapped vm
         else if p_memsz ph = 0 then load_phdrs bytes ph_off pml4_phys is mapped vm
         else do {
           (r, vm) \<leftarrow> load_pages bytes ph pml4_phys [0..<segment_pages ph] mapped vm;
           case r of Inl e \<Rightarrow> Some (Inl e, vm)
           | Inr mapped \<Rightarrow> load_phdrs bytes ph_off pml4_phys is mapped vm } }"

definition check_hdr :: "elf64_hdr \<Rightarrow> string option" where
  "check_hdr hdr =
     (if take 4 (e_ident hdr) \<noteq> ELF_MAGIC then Some ''bad ELF magic''
      else if e_ident hdr ! 4 \<noteq> ELFCLASS64 then Some ''not ELF64''
      else if e_ident hdr ! 5 \<noteq> ELFDATA2LSB then Some ''not little-endian''
      else if e_machine hdr \<noteq> EM_NATIVE then Some ''wrong ELF machine for arch''
      else if e_type hdr \<noteq> ET_EXEC \<and> e_type hdr \<noteq> ET_DYN then Some ''not executable ELF''
      else if unat (e_phentsize hdr) \<noteq> ELF64_PHDR_SIZE then Some ''unexpected phentsize''
      else None)"

definition elf_load :: "bytes \<Rightarrow> u64 \<Rightarrow> vm_state \<Rightarrow> ((string + u64) \<times> vm_state) option" where
  "elf_load bytes pml4_phys vm = do {
     h \<leftarrow> read_struct ELF64_HDR_SIZE bytes 0;
     case h of None \<Rightarrow> Some (Inl ''ELF too short'', vm)
     | Some b \<Rightarrow>
         let hdr = elf64_hdr_of b in
         case check_hdr hdr of Some e \<Rightarrow> Some (Inl e, vm)
         | None \<Rightarrow> do {
             (r, vm) \<leftarrow> load_phdrs bytes (e_phoff hdr) pml4_phys [0..<unat (e_phnum hdr)] Map.empty vm;
             case r of Inl e \<Rightarrow> Some (Inl e, vm) | Inr _ \<Rightarrow> Some (Inr (e_entry hdr), vm) } }"

section \<open>What a copy leaves in memory\<close>

lemma read_set_byte:
  assumes "i < 8" "j < 8"
  shows "(ucast (drop_bit (8 * i) (set_byte j b w)) :: u8) = (if i = j then b else ucast (drop_bit (8 * i) w))"
proof (rule bit_word_eqI)
  fix n assume "n < LENGTH(8)"
  then have n: "n < 8" by simp
  have m: "(0xFF :: u64) = mask 8" by (simp add: mask_eq_exp_minus_1)
  have lt: "8 * i + n < 64" using n assms by simp
  have "bit (set_byte j b w) (8 * i + n) \<longleftrightarrow> (if i = j then bit b n else bit w (8 * i + n))"
  proof -
    consider "i = j" | "i < j" | "j < i" by linarith
    then show ?thesis
    proof cases
      case 1
      then show ?thesis using n lt by (simp add: set_byte_def m bit_or_iff bit_and_iff bit_not_iff bit_push_bit_iff bit_mask_iff bit_ucast_iff)
    next
      case 2
      then have "\<not> 8 * j \<le> 8 * i + n" using n by linarith
      then show ?thesis using 2 lt by (simp add: set_byte_def bit_or_iff bit_and_iff bit_not_iff bit_push_bit_iff)
    next
      case 3
      then have "8 \<le> 8 * i + n - 8 * j" using n by linarith
      then show ?thesis using 3 lt bit_imp_le_length [of b "8 * i + n - 8 * j"]
        by (auto simp: set_byte_def m bit_or_iff bit_and_iff bit_not_iff bit_push_bit_iff bit_mask_iff bit_ucast_iff)
    qed
  qed
  then show "bit (ucast (drop_bit (8 * i) (set_byte j b w)) :: u8) n \<longleftrightarrow>
      bit (if i = j then b else ucast (drop_bit (8 * i) w)) n"
    using n by (simp add: bit_ucast_iff bit_drop_bit_eq)
qed

lemma read_write_byte:
  "read_byte (write_byte t k b vm) u l = (if u = t \<and> l = k then b else read_byte vm u l)"
proof (cases "u = t \<and> l div 8 = k div 8")
  case True
  have "l mod 8 = k mod 8 \<longleftrightarrow> l = k" using True by (metis div_mult_mod_eq)
  with True show ?thesis
    by (simp add: read_byte_def write_byte_def read_entry_def write_entry_def read_set_byte)
next
  case False
  then show ?thesis by (auto simp: read_byte_def write_byte_def read_entry_def write_entry_def)
qed

lemma write_byte_frame: "u \<noteq> t \<Longrightarrow> vm_mem (write_byte t k b vm) u = vm_mem vm u"
  "vm_frames (write_byte t k b vm) = vm_frames vm" "vm_cr3 (write_byte t k b vm) = vm_cr3 vm"
  by (simp_all add: write_byte_def write_entry_def)

lemma copy_byte_frame: "u \<noteq> t \<Longrightarrow> vm_mem (copy_byte bytes ph off t start i vm) u = vm_mem vm u"
  "vm_frames (copy_byte bytes ph off t start i vm) = vm_frames vm" "vm_cr3 (copy_byte bytes ph off t start i vm) = vm_cr3 vm"
  by (auto simp: copy_byte_def Let_def write_byte_frame)

text \<open>The byte the loop copies to position \<open>i\<close> of the segment's pages, if any.\<close>

definition source_byte :: "bytes \<Rightarrow> elf64_phdr \<Rightarrow> nat \<Rightarrow> nat \<Rightarrow> u8 option" where
  "source_byte bytes ph off i =
     (let src = p_offset ph + of_nat (i - off) in
      if off \<le> i \<and> i - off < unat (p_filesz ph) \<and> unat src < length bytes then Some (bytes ! unat src) else None)"

lemma copy_byte_source:
  "copy_byte bytes ph off t start i vm =
     (case source_byte bytes ph off i of None \<Rightarrow> vm | Some b \<Rightarrow> write_byte t (i - start) b vm)"
  by (auto simp: copy_byte_def source_byte_def Let_def)

lemma copy_loop:
  assumes "vm' = fold (copy_byte bytes ph off t start) [start..<stop] vm"
  shows "\<forall>u. u \<noteq> t \<longrightarrow> vm_mem vm' u = vm_mem vm u" "vm_frames vm' = vm_frames vm" "vm_cr3 vm' = vm_cr3 vm"
    "read_byte vm' t k =
       (if start + k < stop then (case source_byte bytes ph off (start + k) of None \<Rightarrow> read_byte vm t k | Some b \<Rightarrow> b)
        else read_byte vm t k)"
proof -
  have "(\<forall>u. u \<noteq> t \<longrightarrow> vm_mem (fold (copy_byte bytes ph off t start) is vm) u = vm_mem vm u) \<and>
      vm_frames (fold (copy_byte bytes ph off t start) is vm) = vm_frames vm \<and>
      vm_cr3 (fold (copy_byte bytes ph off t start) is vm) = vm_cr3 vm" for "is"
    by (induction "is" arbitrary: vm) (simp_all add: copy_byte_frame)
  with assms show "\<forall>u. u \<noteq> t \<longrightarrow> vm_mem vm' u = vm_mem vm u" "vm_frames vm' = vm_frames vm" "vm_cr3 vm' = vm_cr3 vm"
    by blast+
  have "read_byte (fold (copy_byte bytes ph off t start) [start..<start + n] vm) t k =
      (if k < n then (case source_byte bytes ph off (start + k) of None \<Rightarrow> read_byte vm t k | Some b \<Rightarrow> b)
       else read_byte vm t k)" for n
  proof (induction n)
    case (Suc n)
    show ?case
      using Suc by (cases "source_byte bytes ph off (start + n)")
        (auto simp: copy_byte_source read_write_byte less_Suc_eq split: option.splits)
  qed simp
  from this [of "stop - start"] assms show "read_byte vm' t k =
       (if start + k < stop then (case source_byte bytes ph off (start + k) of None \<Rightarrow> read_byte vm t k | Some b \<Rightarrow> b)
        else read_byte vm t k)"
    by (cases "start \<le> stop") (auto simp: less_diff_conv add.commute)
qed

text \<open>Writing a frame of data does not disturb the address space.\<close>

lemma table_at_outside:
  assumes t: "\<forall>q. user_path q \<longrightarrow> table_at m root q \<noteq> Some t" and m: "\<forall>u. u \<noteq> t \<longrightarrow> m' u = m u" and q: "user_path q"
  shows "table_at m' root q = table_at m root q"
  using q
proof (induction q rule: rev_induct)
  case (snoc j q)
  note q = user_path_snoc [OF snoc.prems]
  with snoc.IH [OF q] t m show ?case by (cases "table_at m root q") (auto simp: table_at_snoc)
qed simp

lemma refines_data_write:
  assumes r: "refines root vm m" and d: "data_frame root vm t"
    and v: "\<forall>u. u \<noteq> t \<longrightarrow> vm_mem vm' u = vm_mem vm u" "vm_frames vm' = vm_frames vm"
  shows "refines root vm' m" "data_frame root vm u \<longleftrightarrow> data_frame root vm' u"
proof -
  have wf: "vm_wf root vm" using r by (simp add: refines_def)
  have tab: "table_at (vm_mem vm') root q = table_at (vm_mem vm) root q" if "user_path q" for q
    by (rule table_at_outside [OF _ v(1) that]) (use d in \<open>simp add: data_frame_def\<close>)
  have same: "vm_mem vm' u = vm_mem vm u" if "user_path q" "table_at (vm_mem vm) root q = Some u" for q u
    using d v(1) that by (auto simp: data_frame_def)
  have wf': "vm_wf root vm'"
    unfolding vm_wf_def v(2)
  proof (intro conjI allI impI; (elim conjE)?)
    show "bitmap_wf (vm_frames vm)" by (rule vm_wfD(1) [OF wf])
    show "table_frame (vm_frames vm) u" if "user_path p" "table_at (vm_mem vm') root p = Some u" for p u
      using vm_wfD(2) [OF wf that(1)] that tab by simp
    show "p = q" if "user_path p" "user_path q" "table_at (vm_mem vm') root p = Some u" "table_at (vm_mem vm') root q = Some u" for p q u
      using vm_wfD(3) [OF wf that(1,2)] that tab by simp
    show "vm_mem vm' u i AND HUGE = 0"
      if "user_path (p @ [i])" "table_at (vm_mem vm') root p = Some u" "vm_mem vm' u i AND PRESENT \<noteq> 0" for p i u
    proof -
      note up = user_path_snoc [OF that(1)]
      have u: "table_at (vm_mem vm) root p = Some u" using tab [OF up] that(2) by simp
      from vm_wfD(4) [OF wf that(1) u] same [OF up u] that(3) show ?thesis by simp
    qed
  qed
  have "translate_user_page_flags vm' root a = m (page_of a)" if a: "user_va a" for a
  proof -
    have "pte_at (vm_mem vm') root (path_of a) (pt_idx a) = pte_at (vm_mem vm) root (path_of a) (pt_idx a)"
      using tab [OF user_path_of [OF a]] same [OF user_path_of [OF a]]
      by (cases "table_at (vm_mem vm) root (path_of a)") (simp_all add: pte_at_def)
    then show ?thesis
      using translate_flags_at [OF wf a] translate_flags_at [OF wf' a] r a by (simp add: refines_def)
  qed
  with wf' show "refines root vm' m" by (simp add: refines_def)
  show "data_frame root vm u \<longleftrightarrow> data_frame root vm' u"
    using tab v(2) unfolding data_frame_def by simp
qed

section \<open>The state of a load\<close>

lemma page_start_of: "push_bit 12 (page_of a) = a AND NOT 0xFFF"
proof -
  have m: "(0xFFF :: u64) = mask 12" by (simp add: mask_eq_exp_minus_1)
  show ?thesis unfolding m page_of_def
    by (rule bit_word_eqI) (auto simp: bit_push_bit_iff bit_drop_bit_eq bit_and_iff bit_not_iff bit_mask_iff)
qed

lemma page_start_eq: "a AND NOT 0xFFF = b AND NOT 0xFFF \<longleftrightarrow> page_of a = page_of b"
proof -
  have "unat (a AND NOT 0xFFF) = unat (b AND NOT 0xFFF) \<longleftrightarrow> unat a div 4096 = unat b div 4096"
    unfolding page_va_unat by simp
  then show ?thesis unfolding page_of_def same_page by (simp only: word_unat_eq_iff)
qed

lemma page_start_idem: "(a AND NOT 0xFFF) AND NOT 0xFFF = (a AND NOT 0xFFF :: u64)"
  by (simp add: and.assoc)

text \<open>The frames given out so far hold the image \<open>img\<close>; pages without a frame count as zero.\<close>

definition frames_ok :: "u64 \<Rightarrow> page_frames \<Rightarrow> (u64 \<Rightarrow> u8) \<Rightarrow> vm_state \<Rightarrow> bool" where
  "frames_ok root mapped img vm \<longleftrightarrow>
     (\<forall>pv. mapped pv \<noteq> None \<longrightarrow> pv AND NOT 0xFFF = pv) \<and>
     (\<forall>pv t. mapped pv = Some t \<longrightarrow> data_frame root vm t \<and> t AND PHYS_MASK = t) \<and>
     (\<forall>pv qv t. mapped pv = Some t \<and> mapped qv = Some t \<longrightarrow> pv = qv) \<and>
     (\<forall>a. case mapped (a AND NOT 0xFFF) of None \<Rightarrow> img a = 0 | Some t \<Rightarrow> read_byte vm t (unat a mod 4096) = img a)"

text \<open>The page tables map exactly those pages, with the rights \<open>rts\<close>.\<close>

type_synonym page_rights = "u64 \<rightharpoonup> bool \<times> bool"

definition joined :: "page_frames \<Rightarrow> page_rights \<Rightarrow> aspace" where
  "joined mapped rts pg =
     (case rts pg of None \<Rightarrow> None | Some (w, x) \<Rightarrow> map_option (\<lambda>t. (t, w, x)) (mapped (push_bit 12 pg)))"

definition loaded :: "u64 \<Rightarrow> page_frames \<Rightarrow> (u64 \<Rightarrow> u8) \<Rightarrow> page_rights \<Rightarrow> vm_state \<Rightarrow> bool" where
  "loaded root mapped img rts vm \<longleftrightarrow> frames_ok root mapped img vm \<and> refines root vm (joined mapped rts) \<and>
     (\<forall>a. user_va a \<longrightarrow> (rts (page_of a) = None \<longleftrightarrow> mapped (a AND NOT 0xFFF) = None))"

lemma frames_okD:
  assumes "frames_ok root mapped img vm"
  shows "mapped pv \<noteq> None \<Longrightarrow> pv AND NOT 0xFFF = pv"
    "mapped pv = Some t \<Longrightarrow> data_frame root vm t" "mapped pv = Some t \<Longrightarrow> t AND PHYS_MASK = t"
    "mapped pv = Some t \<Longrightarrow> mapped qv = Some t \<Longrightarrow> pv = qv"
    "mapped (a AND NOT 0xFFF) = None \<Longrightarrow> img a = 0"
    "mapped (a AND NOT 0xFFF) = Some t \<Longrightarrow> read_byte vm t (unat a mod 4096) = img a"
proof -
  note ok = assms [unfolded frames_ok_def]
  show "mapped pv \<noteq> None \<Longrightarrow> pv AND NOT 0xFFF = pv" using ok by blast
  show "mapped pv = Some t \<Longrightarrow> data_frame root vm t" using ok by blast
  show "mapped pv = Some t \<Longrightarrow> t AND PHYS_MASK = t" using ok by blast
  show "mapped pv = Some t \<Longrightarrow> mapped qv = Some t \<Longrightarrow> pv = qv" using ok by blast
  have "case mapped (a AND NOT 0xFFF) of None \<Rightarrow> img a = 0 | Some t \<Rightarrow> read_byte vm t (unat a mod 4096) = img a"
    using ok by blast
  then show "mapped (a AND NOT 0xFFF) = None \<Longrightarrow> img a = 0"
    "mapped (a AND NOT 0xFFF) = Some t \<Longrightarrow> read_byte vm t (unat a mod 4096) = img a" by simp_all
qed

lemma frames_okI:
  assumes "\<And>pv. mapped pv \<noteq> None \<Longrightarrow> pv AND NOT 0xFFF = pv"
    "\<And>pv t. mapped pv = Some t \<Longrightarrow> data_frame root vm t" "\<And>pv t. mapped pv = Some t \<Longrightarrow> t AND PHYS_MASK = t"
    "\<And>pv qv t. mapped pv = Some t \<Longrightarrow> mapped qv = Some t \<Longrightarrow> pv = qv"
    "\<And>a. mapped (a AND NOT 0xFFF) = None \<Longrightarrow> img a = 0"
    "\<And>a t. mapped (a AND NOT 0xFFF) = Some t \<Longrightarrow> read_byte vm t (unat a mod 4096) = img a"
  shows "frames_ok root mapped img vm"
proof -
  have "case mapped (a AND NOT 0xFFF) of None \<Rightarrow> img a = 0 | Some t \<Rightarrow> read_byte vm t (unat a mod 4096) = img a" for a
    using assms(5,6) by (cases "mapped (a AND NOT 0xFFF)") simp_all
  with assms(1-4) show ?thesis unfolding frames_ok_def by blast
qed

lemma refines_cong:
  "refines root vm m \<Longrightarrow> (\<And>a. user_va a \<Longrightarrow> m (page_of a) = m' (page_of a)) \<Longrightarrow> refines root vm m'"
  by (simp add: refines_def)

lemma read_byte_mem: "vm_mem vm' t = vm_mem vm t \<Longrightarrow> read_byte vm' t k = read_byte vm t k"
  by (simp add: read_byte_def read_entry_def)

lemma frames_ok_grows:
  assumes ok: "frames_ok root mapped img vm" and g: "grows root vm vm'"
  shows "frames_ok root mapped img vm'"
proof (rule frames_okI)
  show "data_frame root vm' t" if "mapped pv = Some t" for pv t
    by (rule grows_data [OF g frames_okD(2) [OF ok that]])
  show "read_byte vm' t (unat a mod 4096) = img a" if "mapped (a AND NOT 0xFFF) = Some t" for a t
    unfolding read_byte_mem [OF growsD(5) [OF g frames_okD(2) [OF ok that]]] by (rule frames_okD(6) [OF ok that])
qed (fact frames_okD [OF ok])+

text \<open>A page gets a frame: the image does not change.\<close>

lemma page_frame_ok:
  assumes ok: "frames_ok root mapped img vm" and r: "refines root vm m" and pv: "pv AND NOT 0xFFF = pv"
  obtains (oom) "page_frame mapped pv vm = (None, mapped, vm)" "nearly_full (vm_frames vm)"
    | (frame) t vm' where "page_frame mapped pv vm = (Some t, mapped(pv \<mapsto> t), vm')"
        "frames_ok root (mapped(pv \<mapsto> t)) img vm'" "refines root vm' m" "vm_cr3 vm' = vm_cr3 vm"
proof (cases "mapped pv")
  case (Some t)
  then have "mapped(pv \<mapsto> t) = mapped" by auto
  with Some ok r that(2) show ?thesis by (simp add: page_frame_def)
next
  case None
  have wf: "vm_wf root vm" using r by (simp add: refines_def)
  obtain x fb where a: "frame_alloc (vm_frames vm) = (x, fb)" by fastforce
  show ?thesis
  proof (cases x)
    case x: None
    then have "fb = vm_frames vm" "nearly_full (vm_frames vm)"
      using a alloc_frame_none [OF vm_wfD(1) [OF wf]] frame_alloc_spec [OF vm_wfD(1) [OF wf] a]
      by (auto intro: no_frames_nearly_full)
    with None a x that(1) show ?thesis by (simp add: page_frame_def)
  next
    case (Some t)
    with a have a': "frame_alloc (vm_frames vm) = (Some t, fb)" by simp
    obtain f where f: "t = of_nat f * of_nat FRAME_SIZE" "f \<in> free_frames (vm_frames vm)" "f < MAX_FRAMES"
      "frame_no t = f" "free_frames fb = free_frames (vm_frames vm) - {f}"
      by (rule alloc_frame_facts [OF vm_wfD(1) [OF wf] a'])
    define vm' where "vm' = zero_frame t (vm\<lparr> vm_frames := fb \<rparr>)"
    note z = wf_zero_fresh [OF wf a', folded vm'_def]
    have r': "refines root vm' m" using z by (intro refines_same [OF r]) (auto simp: same_ptes_def)
    have old: "qt \<noteq> t" if "mapped qv = Some qt" for qv qt
      using frames_okD(2) [OF ok that] f(2,4) by (auto simp: data_frame_def)
    have new: "data_frame root vm' t"
    proof -
      have "table_at (vm_mem vm') root q \<noteq> Some t" if "user_path q" for q
        using table_at_zero_fresh [OF wf refl _ that, of t "\<lambda>_. 0"] f(2,4) vm_wfD(2) [OF wf that] table_frame_no
        by (auto simp: vm'_def zero_frame_def)
      then show ?thesis using f(4,5) by (simp add: data_frame_def vm'_def zero_frame_def)
    qed
    have zero: "read_byte vm' t k = 0" for k by (simp add: vm'_def zero_frame_def read_byte_def read_entry_def)
    have ok': "frames_ok root mapped img vm'" by (rule frames_ok_grows [OF ok z(1)])
    have at: "(mapped(pv \<mapsto> t)) qv = Some u \<longleftrightarrow> (if qv = pv then u = t else mapped qv = Some u)" for qv u by auto
    have "frames_ok root (mapped(pv \<mapsto> t)) img vm'"
    proof (rule frames_okI)
      show "qv AND NOT 0xFFF = qv" if "(mapped(pv \<mapsto> t)) qv \<noteq> None" for qv
        using that frames_okD(1) [OF ok, of qv] pv by (cases "qv = pv") simp_all
      show "data_frame root vm' u" "u AND PHYS_MASK = u" if "(mapped(pv \<mapsto> t)) qv = Some u" for qv u
        using that new frames_okD(2,3) [OF ok', of qv u] frame_address_mask [OF f(3)] f(1)
        unfolding at by (simp_all split: if_split_asm)
      show "qv = sv" if "(mapped(pv \<mapsto> t)) qv = Some u" "(mapped(pv \<mapsto> t)) sv = Some u" for qv sv u
        using that old [of qv] old [of sv] frames_okD(4) [OF ok, of qv u sv]
        unfolding at by (cases "qv = pv"; cases "sv = pv") auto
      show "img b = 0" if "(mapped(pv \<mapsto> t)) (b AND NOT 0xFFF) = None" for b
        using that frames_okD(5) [OF ok, of b] by (cases "b AND NOT 0xFFF = pv") simp_all
      show "read_byte vm' u (unat b mod 4096) = img b" if "(mapped(pv \<mapsto> t)) (b AND NOT 0xFFF) = Some u" for b u
      proof (cases "b AND NOT 0xFFF = pv")
        case True
        then have "img b = 0" using frames_okD(5) [OF ok, of b] None by simp
        moreover have "u = t" using that True unfolding at by simp
        ultimately show ?thesis using zero by simp
      next
        case False
        then have "mapped (b AND NOT 0xFFF) = Some u" using that unfolding at by simp
        then show ?thesis by (rule frames_okD(6) [OF ok'])
      qed
    qed
    moreover have "page_frame mapped pv vm = (Some t, mapped(pv \<mapsto> t), vm')"
      using None a' by (simp add: page_frame_def vm'_def)
    ultimately show ?thesis using that(2) r' growsD(2) [OF z(1)] by blast
  qed
qed

definition page_copy :: "bytes \<Rightarrow> elf64_phdr \<Rightarrow> nat \<Rightarrow> nat \<Rightarrow> u8 option" where
  "page_copy bytes ph p k =
     (let off = unat (p_vaddr ph - (p_vaddr ph AND NOT 0xFFF)) in
      if p * 4096 + k < unat (min (of_nat (p * 4096) + 4096) (of_nat off + p_memsz ph))
      then source_byte bytes ph off (p * 4096 + k) else None)"

definition page_image :: "bytes \<Rightarrow> elf64_phdr \<Rightarrow> nat \<Rightarrow> u64 \<Rightarrow> (u64 \<Rightarrow> u8) \<Rightarrow> u64 \<Rightarrow> u8" where
  "page_image bytes ph p pv img a =
     (if page_of a = page_of pv
      then (case page_copy bytes ph p (unat a mod 4096) of None \<Rightarrow> img a | Some b \<Rightarrow> b) else img a)"

definition seg_writable :: "elf64_phdr \<Rightarrow> bool" where "seg_writable ph \<longleftrightarrow> p_flags ph AND PF_W \<noteq> 0"
definition seg_exec :: "elf64_phdr \<Rightarrow> bool" where "seg_exec ph \<longleftrightarrow> p_flags ph AND PF_X \<noteq> 0"

definition page_rights_after :: "elf64_phdr \<Rightarrow> u64 \<Rightarrow> page_rights \<Rightarrow> page_rights" where
  "page_rights_after ph pg rts = rts(pg \<mapsto> (seg_writable ph, seg_exec ph \<or> rts pg \<noteq> None))"

lemma copied_page:
  assumes ok: "frames_ok root mapped img vm" and pv: "pv AND NOT 0xFFF = pv" "mapped pv = Some t"
    and vm': "vm' = fold (copy_byte bytes ph (unat (p_vaddr ph - (p_vaddr ph AND NOT 0xFFF))) t (p * 4096))
        [p * 4096..<unat (min (of_nat (p * 4096) + 4096) (of_nat (unat (p_vaddr ph - (p_vaddr ph AND NOT 0xFFF))) + p_memsz ph))] vm"
    and r: "refines root vm m"
  shows "frames_ok root mapped (page_image bytes ph p pv img) vm'" "refines root vm' m" "vm_cr3 vm' = vm_cr3 vm"
proof -
  note cl = copy_loop [OF vm']
  note d = frames_okD(2) [OF ok pv(2)]
  note rw = refines_data_write [OF r d cl(1,2)]
  show "refines root vm' m" by (rule rw(1))
  show "vm_cr3 vm' = vm_cr3 vm" by (rule cl(3))
  have same: "page_of a = page_of pv \<longleftrightarrow> a AND NOT 0xFFF = pv" for a
    using page_start_eq [of a pv] unfolding pv(1) by blast
  show "frames_ok root mapped (page_image bytes ph p pv img) vm'"
  proof (rule frames_okI)
    show "data_frame root vm' u" if "mapped qv = Some u" for qv u
      using frames_okD(2) [OF ok that] rw(2) by blast
    show "page_image bytes ph p pv img a = 0" if "mapped (a AND NOT 0xFFF) = None" for a
    proof -
      have "page_of a \<noteq> page_of pv" using that pv(2) unfolding same by auto
      with frames_okD(5) [OF ok that] show ?thesis unfolding page_image_def by simp
    qed
    show "read_byte vm' u (unat a mod 4096) = page_image bytes ph p pv img a" if u: "mapped (a AND NOT 0xFFF) = Some u" for a u
    proof (cases "a AND NOT 0xFFF = pv")
      case True
      then have "u = t" using u pv(2) by simp
      moreover have "page_of a = page_of pv" using True same by blast
      moreover have "read_byte vm t (unat a mod 4096) = img a" using frames_okD(6) [OF ok u] \<open>u = t\<close> by simp
      ultimately show ?thesis using cl(4) [of "unat a mod 4096"]
        by (simp only: page_image_def page_copy_def Let_def if_True) (simp only: option.case simp_thms if_True split: if_split, blast)
    next
      case False
      then have "u \<noteq> t" using frames_okD(4) [OF ok u] pv(2) by blast
      then have "vm_mem vm' u = vm_mem vm u" using cl(1) by blast
      moreover have "page_of a \<noteq> page_of pv" using False same by blast
      ultimately show ?thesis using frames_okD(6) [OF ok u] by (simp add: page_image_def read_byte_def read_entry_def)
    qed
  qed (fact frames_okD [OF ok])+
qed

lemma load_page_ok:
  assumes L: "loaded root mapped img rts vm"
    and pv: "pv = (p_vaddr ph AND NOT 0xFFF) + of_nat (p * 4096)" "pv AND NOT 0xFFF = pv" "user_va pv"
  obtains (failed) msg vm' where "load_page bytes ph root p mapped vm = Some (Inl msg, vm')" "vm_wf root vm'"
      "nearly_full (vm_frames vm')"
    | (page) mapped' vm' where "load_page bytes ph root p mapped vm = Some (Inr mapped', vm')"
      "loaded root mapped' (page_image bytes ph p pv img) (page_rights_after ph (page_of pv) rts) vm'"
proof -
  have ok: "frames_ok root mapped img vm" and r: "refines root vm (joined mapped rts)"
    and dom: "\<And>a. user_va a \<Longrightarrow> rts (page_of a) = None \<longleftrightarrow> mapped (a AND NOT 0xFFF) = None"
    using L by (auto simp: loaded_def)
  define off where "off = unat (p_vaddr ph - (p_vaddr ph AND NOT 0xFFF))"
  define stop where "stop = unat (min (of_nat (p * 4096) + 4096) (of_nat off + p_memsz ph))"
  define x where "x \<longleftrightarrow> seg_exec ph \<or> mapped pv \<noteq> None"
  have x: "x \<longleftrightarrow> seg_exec ph \<or> rts (page_of pv) \<noteq> None" using dom [OF pv(3)] unfolding x_def pv(2) by argo
  have def_page: "load_page bytes ph root p mapped vm =
     (case page_frame mapped pv vm of
        (None, mapped, vm) \<Rightarrow> Some (Inl ''OOM: elf segment'', vm)
      | (Some t, mapped, vm) \<Rightarrow> do {
            (r, vm) \<leftarrow> map_user_page_with_flags root pv t (seg_writable ph) x
               (fold (copy_byte bytes ph off t (p * 4096)) [p * 4096..<stop] vm);
            case r of Inl e \<Rightarrow> Some (Inl e, vm) | Inr _ \<Rightarrow> Some (Inr mapped, vm) })"
    unfolding load_page_def Let_def pv(1) [symmetric] off_def [symmetric] stop_def [symmetric]
      seg_writable_def [symmetric] seg_exec_def [symmetric] x_def [symmetric] ..
  from ok r pv(2) show ?thesis
  proof (cases rule: page_frame_ok)
    case oom
    with def_page r that(1) show ?thesis by (simp add: refines_def)
  next
    case (frame t vm1)
    let ?mapped = "mapped(pv \<mapsto> t)"
    define vm2 where "vm2 = fold (copy_byte bytes ph off t (p * 4096)) [p * 4096..<stop] vm1"
    note c = copied_page [OF frame(2) pv(2) _ vm2_def [unfolded off_def stop_def] frame(3), simplified]
    from def_page frame(1) have dp: "load_page bytes ph root p mapped vm = do {
            (r, vm) \<leftarrow> map_user_page_with_flags root pv t (seg_writable ph) x vm2;
            case r of Inl e \<Rightarrow> Some (Inl e, vm) | Inr _ \<Rightarrow> Some (Inr ?mapped, vm) }" by (simp add: vm2_def)
    have mask: "t AND PHYS_MASK = t" by (rule frames_okD(3) [OF frame(2), of pv]) simp
    from c(2) pv(3) show ?thesis
    proof (cases rule: map_page_refines [where phys = t and w = "seg_writable ph" and x = x])
      case (oom msg vm3)
      with dp that(1) no_frames_nearly_full [OF oom(4)] show ?thesis by (simp add: refines_def)
    next
      case (mapped vm3)
      let ?rts = "page_rights_after ph (page_of pv) rts"
      have same: "page_of a = page_of pv \<longleftrightarrow> a AND NOT 0xFFF = pv" for a
        using page_start_eq [of a pv] unfolding pv(2) by blast
      have "refines root vm3 (joined ?mapped ?rts)"
      proof (rule refines_cong [OF mapped(3)])
        fix a
        show "((joined mapped rts)(page_of pv \<mapsto> (t AND PHYS_MASK, seg_writable ph, x))) (page_of a) = joined ?mapped ?rts (page_of a)"
        proof (cases "page_of a = page_of pv")
          case True
          then show ?thesis using x mask page_start_of [of a] same [of a]
            by (simp add: joined_def page_rights_after_def)
        next
          case False
          then have "push_bit 12 (page_of a) \<noteq> pv" unfolding page_start_of same .
          then have "?mapped (push_bit 12 (page_of a)) = mapped (push_bit 12 (page_of a))" by (rule fun_upd_other)
          with False show ?thesis by (simp only: joined_def page_rights_after_def) (simp add: joined_def)
        qed
      qed
      moreover have "?rts (page_of a) = None \<longleftrightarrow> ?mapped (a AND NOT 0xFFF) = None" if "user_va a" for a
        using dom [OF that] same [of a] by (simp add: page_rights_after_def)
      ultimately have "loaded root ?mapped (page_image bytes ph p pv img) ?rts vm3"
        using frames_ok_grows [OF c(1) mapped(2)] by (simp add: loaded_def)
      with dp mapped(1) that(2) show ?thesis by simp
    qed
  qed
qed

section \<open>What a file puts into memory\<close>

text \<open>The byte of a segment at an address, the image of a list of segments, and the rights of their
  pages: later segments write over earlier ones, and a page that two segments share is executable.\<close>

definition file_byte :: "bytes \<Rightarrow> elf64_phdr \<Rightarrow> u64 \<Rightarrow> u8 option" where
  "file_byte bytes ph a =
     (let i = a - p_vaddr ph in
      if p_vaddr ph \<le> a \<and> i < p_memsz ph \<and> i < p_filesz ph \<and> unat (p_offset ph + i) < length bytes
      then Some (bytes ! unat (p_offset ph + i)) else None)"

definition seg_image :: "bytes \<Rightarrow> elf64_phdr \<Rightarrow> (u64 \<Rightarrow> u8) \<Rightarrow> u64 \<Rightarrow> u8" where
  "seg_image bytes ph img a = (case file_byte bytes ph a of None \<Rightarrow> img a | Some b \<Rightarrow> b)"

definition seg_page :: "elf64_phdr \<Rightarrow> u64 \<Rightarrow> bool" where
  "seg_page ph pg \<longleftrightarrow> page_of (p_vaddr ph) \<le> pg \<and> pg \<le> page_of (p_vaddr ph + (p_memsz ph - 1))"

definition seg_rights :: "elf64_phdr \<Rightarrow> page_rights \<Rightarrow> page_rights" where
  "seg_rights ph rts pg = (if seg_page ph pg then Some (seg_writable ph, seg_exec ph \<or> rts pg \<noteq> None) else rts pg)"

definition user_segment :: "elf64_phdr \<Rightarrow> bool" where
  "user_segment ph \<longleftrightarrow> 0 < unat (p_memsz ph) \<and> unat (p_vaddr ph) + unat (p_memsz ph) \<le> 2 ^ 47"

definition page_va :: "elf64_phdr \<Rightarrow> nat \<Rightarrow> u64" where
  "page_va ph p = (p_vaddr ph AND NOT 0xFFF) + of_nat (p * 4096)"

lemma unat_page_of: "unat (page_of a) = unat a div 4096"
  unfolding page_of_def unat_drop_bit_eq by (simp add: drop_bit_eq_div)

lemma unat_small: "n < 2 ^ 64 \<Longrightarrow> unat (of_nat n :: u64) = n"
  by (simp add: unsigned_of_nat take_bit_nat_eq_self)

lemma unat_add_small: "unat (a :: u64) + unat b < 2 ^ 64 \<Longrightarrow> unat (a + b) = unat a + unat b"
  by (simp add: unat_add_lem [symmetric])

lemma unat_pred: "0 < unat (w :: u64) \<Longrightarrow> unat (w - 1) = unat w - 1"
  using unat_sub [of 1 w] by (simp add: word_le_nat_alt)

lemma seg_bounds:
  assumes "user_segment ph" "S = unat (p_vaddr ph)" "M = unat (p_memsz ph)" "off = S mod 4096"
  shows "0 < M" "S + M \<le> 2 ^ 47" "S = 4096 * (S div 4096) + off" "off < 4096"
  using assms by (simp_all add: user_segment_def)

lemma seg_offset:
  "unat (p_vaddr ph - (p_vaddr ph AND NOT 0xFFF)) = unat (p_vaddr ph) mod 4096"
proof -
  have "p_vaddr ph AND NOT 0xFFF \<le> p_vaddr ph" by (rule word_and_le2)
  from unat_sub [OF this] show ?thesis unfolding page_va_unat by (simp add: minus_mult_div_eq_mod)
qed

lemma seg_total:
  assumes "user_segment ph"
  shows "unat (of_nat (unat (p_vaddr ph) mod 4096) + p_memsz ph) = unat (p_vaddr ph) mod 4096 + unat (p_memsz ph)"
proof -
  note b = seg_bounds [OF assms refl refl refl]
  have o: "unat (of_nat (unat (p_vaddr ph) mod 4096) :: u64) = unat (p_vaddr ph) mod 4096"
    using b(4) by (intro unat_small) simp
  have "unat (of_nat (unat (p_vaddr ph) mod 4096) :: u64) + unat (p_memsz ph) < 2 ^ 64"
    unfolding o using b(2,4) by simp
  from unat_add_small [OF this] show ?thesis unfolding o .
qed

lemma seg_pages: "user_segment ph \<Longrightarrow> segment_pages ph = (unat (p_vaddr ph) mod 4096 + unat (p_memsz ph) + 4095) div 4096"
  by (simp only: segment_pages_def Let_def seg_offset seg_total)

lemma page_va_facts:
  assumes "user_segment ph" "p < segment_pages ph"
  shows "unat (page_va ph p) = 4096 * (unat (p_vaddr ph) div 4096 + p)" "page_va ph p AND NOT 0xFFF = page_va ph p"
    "user_va (page_va ph p)" "p * 4096 < unat (p_vaddr ph) mod 4096 + unat (p_memsz ph)"
proof -
  define S M off where "S = unat (p_vaddr ph)" and "M = unat (p_memsz ph)" and "off = S mod 4096"
  note b = seg_bounds [OF assms(1) S_def M_def off_def]
  have "Suc p \<le> (off + M + 4095) div 4096"
    using assms(2) unfolding seg_pages [OF assms(1)] S_def [symmetric] M_def [symmetric] off_def [symmetric] by simp
  then have p: "p * 4096 < off + M" by (simp add: less_eq_div_iff_mult_less_eq)
  then show "p * 4096 < unat (p_vaddr ph) mod 4096 + unat (p_memsz ph)" by (simp only: S_def M_def off_def)
  have lt: "4096 * (S div 4096 + p) < 2 ^ 47" using p b(2,3) by (simp add: algebra_simps)
  have u: "unat (of_nat (p * 4096) :: u64) = p * 4096" using lt by (intro unat_small) (simp add: algebra_simps)
  have s: "unat (p_vaddr ph AND NOT 0xFFF) + unat (of_nat (p * 4096) :: u64) = 4096 * (S div 4096 + p)"
    unfolding page_va_unat u S_def by (simp add: algebra_simps)
  have "unat (p_vaddr ph AND NOT 0xFFF) + unat (of_nat (p * 4096) :: u64) < 2 ^ 64" unfolding s using lt by simp
  from unat_add_small [OF this] have "unat (page_va ph p) = 4096 * (S div 4096 + p)" unfolding page_va_def s .
  then show pv: "unat (page_va ph p) = 4096 * (unat (p_vaddr ph) div 4096 + p)" by (simp only: S_def)
  show "page_va ph p AND NOT 0xFFF = page_va ph p" unfolding word_unat_eq_iff page_va_unat pv by simp
  show "user_va (page_va ph p)" unfolding user_va_def word_less_nat_alt pv using lt by (simp add: S_def)
qed

lemma page_copy_file_byte:
  assumes "user_segment ph" "p < segment_pages ph" "page_of a = page_of (page_va ph p)"
  shows "page_copy bytes ph p (unat a mod 4096) = file_byte bytes ph a"
proof -
  define S M off where "S = unat (p_vaddr ph)" and "M = unat (p_memsz ph)" and "off = S mod 4096"
  note b = seg_bounds [OF assms(1) S_def M_def off_def]
  note pv = page_va_facts [OF assms(1,2), folded S_def]
  define i where "i = p * 4096 + unat a mod 4096"
  have "unat a div 4096 = S div 4096 + p"
    using assms(3) unat_page_of [of a] unat_page_of [of "page_va ph p"] pv(1) by simp
  moreover have "unat a = 4096 * (unat a div 4096) + unat a mod 4096" by simp
  ultimately have a: "unat a = 4096 * (S div 4096) + i" unfolding i_def by (simp add: algebra_simps)
  have stop: "unat (min (of_nat (p * 4096) + 4096) (of_nat off + p_memsz ph)) = min (p * 4096 + 4096) (off + M)"
  proof -
    have t: "unat (of_nat off + p_memsz ph) = off + M" using seg_total [OF assms(1)] by (simp only: S_def M_def off_def)
    have "p * 4096 < off + M" using pv(4) by (simp only: S_def M_def off_def)
    then have p: "p * 4096 + 4096 < 2 ^ 64" using b(2,4) by simp
    have u: "unat (of_nat (p * 4096) :: u64) = p * 4096" using p by (intro unat_small) simp
    have "unat (of_nat (p * 4096) :: u64) + unat (4096 :: u64) < 2 ^ 64" unfolding u using p by simp
    from unat_add_small [OF this] have "unat (of_nat (p * 4096) + 4096 :: u64) = p * 4096 + 4096" unfolding u by simp
    with t show ?thesis by (simp add: min_def word_le_nat_alt)
  qed
  have le: "p_vaddr ph \<le> a \<longleftrightarrow> off \<le> i" unfolding word_le_nat_alt S_def [symmetric] a using b(3) by linarith
  have sub: "unat (a - p_vaddr ph) = i - off" if "off \<le> i"
    using unat_sub [of "p_vaddr ph" a] le that b(3) a by (simp add: S_def [symmetric])
  have word: "a - p_vaddr ph = of_nat (i - off)" if "off \<le> i"
  proof -
    have "unat (a - p_vaddr ph) < 2 ^ LENGTH(64)" by (rule unsigned_less)
    then have "i - off < 2 ^ 64" unfolding sub [OF that] by simp
    then show ?thesis unfolding word_unat_eq_iff sub [OF that] by (simp only: unat_small)
  qed
  have "i < min (p * 4096 + 4096) (off + M) \<longleftrightarrow> i < off + M" unfolding i_def by simp
  moreover have "off \<le> i \<Longrightarrow> i < off + M \<longleftrightarrow> i - off < M" by linarith
  ultimately show ?thesis
    unfolding page_copy_def file_byte_def source_byte_def Let_def seg_offset S_def [symmetric] off_def [symmetric] stop
      i_def [symmetric]
    using le sub word by (cases "off \<le> i") (simp_all add: word_less_nat_alt M_def)
qed

lemma file_byte_page:
  assumes "user_segment ph" "file_byte bytes ph a = Some b"
  shows "seg_page ph (page_of a)"
proof -
  have le: "p_vaddr ph \<le> a" and lt: "a - p_vaddr ph < p_memsz ph"
    using assms(2) by (auto simp: file_byte_def Let_def split: if_split_asm)
  note b = seg_bounds [OF assms(1) refl refl refl]
  have m: "unat (p_memsz ph - 1) = unat (p_memsz ph) - 1" using b(1) by (rule unat_pred)
  have e: "unat (p_vaddr ph + (p_memsz ph - 1)) = unat (p_vaddr ph) + (unat (p_memsz ph) - 1)"
    using b(1,2) m by (subst unat_add_small) simp_all
  have "unat a - unat (p_vaddr ph) < unat (p_memsz ph)" using lt unat_sub [OF le] by (simp add: word_less_nat_alt)
  then have "unat a \<le> unat (p_vaddr ph) + (unat (p_memsz ph) - 1)" using le by (simp add: word_le_nat_alt)
  then show ?thesis
    using le unfolding seg_page_def word_le_nat_alt unat_page_of e by (simp add: div_le_mono)
qed

lemma seg_page_index:
  assumes "user_segment ph"
  shows "seg_page ph pg \<longleftrightarrow> (\<exists>p < segment_pages ph. pg = page_of (page_va ph p))"
proof -
  define S M off where "S = unat (p_vaddr ph)" and "M = unat (p_memsz ph)" and "off = S mod 4096"
  note b = seg_bounds [OF assms S_def M_def off_def]
  have m: "unat (p_memsz ph - 1) = M - 1" using b(1) unfolding M_def by (rule unat_pred)
  have e: "unat (p_vaddr ph + (p_memsz ph - 1)) = S + (M - 1)"
    using b(1,2) m by (subst unat_add_small) (simp_all add: S_def)
  have n: "segment_pages ph = (off + (M - 1)) div 4096 + 1"
    using b(1) seg_pages [OF assms] by (simp add: S_def M_def off_def)
  have last: "(S + (M - 1)) div 4096 = S div 4096 + (off + (M - 1)) div 4096"
  proof -
    have "(r + q * 4096) div 4096 = q + r div 4096" for r q :: nat by simp
    moreover have "S + (M - 1) = (off + (M - 1)) + (S div 4096) * 4096" using b(3) by linarith
    ultimately show ?thesis by (simp only:)
  qed
  have "pg = page_of (page_va ph p) \<longleftrightarrow> unat pg = S div 4096 + p" if "p < segment_pages ph" for p
    unfolding word_unat_eq_iff unat_page_of page_va_facts(1) [OF assms that] by (simp add: S_def)
  then have "(\<exists>p < segment_pages ph. pg = page_of (page_va ph p)) \<longleftrightarrow>
      (\<exists>p < segment_pages ph. unat pg = S div 4096 + p)" by blast
  also have "\<dots> \<longleftrightarrow> S div 4096 \<le> unat pg \<and> unat pg \<le> S div 4096 + (off + (M - 1)) div 4096"
    unfolding n by (auto simp: less_Suc_eq_le le_iff_add)
  finally show ?thesis unfolding seg_page_def word_le_nat_alt unat_page_of e last S_def [symmetric] by blast
qed

section \<open>The loops\<close>

definition load_result :: "u64 \<Rightarrow> (u64 \<Rightarrow> u8) \<Rightarrow> page_rights \<Rightarrow> ((string + page_frames) \<times> vm_state) option \<Rightarrow> bool" where
  "load_result root img rts res \<longleftrightarrow>
     (case res of None \<Rightarrow> False
      | Some (Inl msg, vm) \<Rightarrow> vm_wf root vm \<and> nearly_full (vm_frames vm)
      | Some (Inr mapped, vm) \<Rightarrow> loaded root mapped img rts vm)"

lemma load_resultE:
  assumes "load_result root img rts res"
  obtains (failed) msg vm where "res = Some (Inl msg, vm)" "vm_wf root vm" "nearly_full (vm_frames vm)"
    | (ok) mapped vm where "res = Some (Inr mapped, vm)" "loaded root mapped img rts vm"
proof (cases res)
  case None
  with assms show thesis by (simp add: load_result_def)
next
  case (Some q)
  obtain r vm where q: "q = (r, vm)" by (cases q)
  show thesis
  proof (cases r)
    case (Inl msg)
    with assms Some q show thesis by (intro failed [of msg vm]) (simp_all add: load_result_def)
  next
    case (Inr mapped)
    with assms Some q show thesis by (intro ok [of mapped vm]) (simp_all add: load_result_def)
  qed
qed

lemma load_pages_ok:
  assumes "user_segment ph" "loaded root mapped img rts vm" "\<forall>p \<in> set ps. p < segment_pages ph"
  shows "load_result root (fold (\<lambda>p. page_image bytes ph p (page_va ph p)) ps img)
     (fold (\<lambda>p. page_rights_after ph (page_of (page_va ph p))) ps rts) (load_pages bytes ph root ps mapped vm)"
  using assms(2,3)
proof (induction ps arbitrary: mapped img rts vm)
  case Nil
  then show ?case by (simp add: load_result_def)
next
  case (Cons p ps)
  from Cons.prems(2) have p: "p < segment_pages ph" "\<forall>p \<in> set ps. p < segment_pages ph" by auto
  note pv = page_va_facts [OF assms(1) p(1)]
  from Cons.prems(1) page_va_def pv(2,3) show ?case
  proof (cases rule: load_page_ok [where bytes = bytes])
    case (failed msg vm')
    then show ?thesis by (simp add: load_result_def)
  next
    case (page mapped' vm')
    from Cons.IH [OF page(2) p(2)] page(1) show ?thesis by simp
  qed
qed

lemma segment_image:
  assumes "user_segment ph"
  shows "fold (\<lambda>p. page_image bytes ph p (page_va ph p)) [0..<segment_pages ph] img = seg_image bytes ph img"
proof
  fix a
  have "n \<le> segment_pages ph \<Longrightarrow> fold (\<lambda>p. page_image bytes ph p (page_va ph p)) [0..<n] img a =
      (if \<exists>p < n. page_of a = page_of (page_va ph p) then seg_image bytes ph img a else img a)" for n
  proof (induction n)
    case (Suc n)
    let ?prev = "fold (\<lambda>p. page_image bytes ph p (page_va ph p)) [0..<n] img"
    have prev: "?prev a = (if \<exists>p < n. page_of a = page_of (page_va ph p) then seg_image bytes ph img a else img a)"
      using Suc by simp
    have step: "fold (\<lambda>p. page_image bytes ph p (page_va ph p)) [0..<Suc n] img a = page_image bytes ph n (page_va ph n) ?prev a"
      by simp
    show ?case
    proof (cases "page_of a = page_of (page_va ph n)")
      case True
      then have "page_copy bytes ph n (unat a mod 4096) = file_byte bytes ph a"
        using page_copy_file_byte [OF assms] Suc.prems by simp
      then have "page_image bytes ph n (page_va ph n) ?prev a = seg_image bytes ph img a"
        using True prev by (cases "file_byte bytes ph a") (simp_all add: page_image_def seg_image_def)
      with True show ?thesis unfolding step by auto
    next
      case False
      then have "page_image bytes ph n (page_va ph n) ?prev a = ?prev a" by (simp add: page_image_def)
      with False prev show ?thesis unfolding step by (auto simp: less_Suc_eq)
    qed
  qed simp
  from this [of "segment_pages ph"] have f: "fold (\<lambda>p. page_image bytes ph p (page_va ph p)) [0..<segment_pages ph] img a =
      (if seg_page ph (page_of a) then seg_image bytes ph img a else img a)"
    unfolding seg_page_index [OF assms] by simp
  have "file_byte bytes ph a = None" if "\<not> seg_page ph (page_of a)"
    using file_byte_page [OF assms] that by (cases "file_byte bytes ph a") auto
  then have "seg_image bytes ph img a = img a" if "\<not> seg_page ph (page_of a)"
    using that by (simp add: seg_image_def)
  with f show "fold (\<lambda>p. page_image bytes ph p (page_va ph p)) [0..<segment_pages ph] img a = seg_image bytes ph img a"
    by simp
qed

lemma segment_rights:
  assumes "user_segment ph"
  shows "fold (\<lambda>p. page_rights_after ph (page_of (page_va ph p))) [0..<segment_pages ph] rts = seg_rights ph rts"
proof
  fix pg
  have inj: "page_of (page_va ph p) \<noteq> page_of (page_va ph n)" if "p < n" "n < segment_pages ph" for p n
  proof -
    have "p < segment_pages ph" using that by simp
    from page_va_facts(1) [OF assms this] page_va_facts(1) [OF assms that(2)] that(1)
    have "unat (page_of (page_va ph p)) \<noteq> unat (page_of (page_va ph n))" unfolding unat_page_of by simp
    then show ?thesis by auto
  qed
  have "n \<le> segment_pages ph \<Longrightarrow> fold (\<lambda>p. page_rights_after ph (page_of (page_va ph p))) [0..<n] rts pg =
      (if \<exists>p < n. pg = page_of (page_va ph p) then Some (seg_writable ph, seg_exec ph \<or> rts pg \<noteq> None) else rts pg)" for n
  proof (induction n)
    case (Suc n)
    let ?prev = "fold (\<lambda>p. page_rights_after ph (page_of (page_va ph p))) [0..<n] rts"
    have prev: "?prev pg = (if \<exists>p < n. pg = page_of (page_va ph p) then Some (seg_writable ph, seg_exec ph \<or> rts pg \<noteq> None) else rts pg)"
      using Suc by simp
    have step: "fold (\<lambda>p. page_rights_after ph (page_of (page_va ph p))) [0..<Suc n] rts =
        page_rights_after ph (page_of (page_va ph n)) ?prev" by simp
    show ?case
    proof (cases "pg = page_of (page_va ph n)")
      case True
      then have "\<not> (\<exists>p < n. pg = page_of (page_va ph p))" using inj Suc.prems by (metis Suc_le_eq)
      with prev have "?prev pg = rts pg" by simp
      then have "page_rights_after ph (page_of (page_va ph n)) ?prev pg = Some (seg_writable ph, seg_exec ph \<or> rts pg \<noteq> None)"
        unfolding page_rights_after_def using True by simp
      with True show ?thesis unfolding step by auto
    next
      case False
      then have "page_rights_after ph (page_of (page_va ph n)) ?prev pg = ?prev pg" by (simp add: page_rights_after_def)
      with False prev show ?thesis unfolding step by (auto simp: less_Suc_eq)
    qed
  qed simp
  from this [of "segment_pages ph"] show
    "fold (\<lambda>p. page_rights_after ph (page_of (page_va ph p))) [0..<segment_pages ph] rts pg = seg_rights ph rts pg"
    unfolding seg_rights_def seg_page_index [OF assms] by simp
qed

lemma load_segment_ok:
  assumes "user_segment ph" "loaded root mapped img rts vm"
  shows "load_result root (seg_image bytes ph img) (seg_rights ph rts)
     (load_pages bytes ph root [0..<segment_pages ph] mapped vm)"
  using load_pages_ok [OF assms, of "[0..<segment_pages ph]" bytes]
  unfolding segment_image [OF assms(1)] segment_rights [OF assms(1)] by simp

definition phdr_at :: "bytes \<Rightarrow> u64 \<Rightarrow> nat \<Rightarrow> elf64_phdr" where
  "phdr_at bytes ph_off i = elf64_phdr_of (take ELF64_PHDR_SIZE (drop (unat ph_off + i * ELF64_PHDR_SIZE) bytes))"

definition segments :: "bytes \<Rightarrow> u64 \<Rightarrow> nat list \<Rightarrow> elf64_phdr list" where
  "segments bytes ph_off is = filter (\<lambda>ph. p_type ph = PT_LOAD \<and> p_memsz ph \<noteq> 0) (map (phdr_at bytes ph_off) is)"

lemma read_phdr:
  assumes "length bytes < 2 ^ 64" "unat ph_off + i * ELF64_PHDR_SIZE + ELF64_PHDR_SIZE \<le> length bytes"
  shows "read_struct ELF64_PHDR_SIZE bytes (ph_off + of_nat (i * ELF64_PHDR_SIZE)) =
    Some (Some (take ELF64_PHDR_SIZE (drop (unat ph_off + i * ELF64_PHDR_SIZE) bytes)))"
proof -
  have u: "unat (of_nat (i * ELF64_PHDR_SIZE) :: u64) = i * ELF64_PHDR_SIZE"
    using assms by (intro unat_small) linarith
  have "unat ph_off + unat (of_nat (i * ELF64_PHDR_SIZE) :: u64) < 2 ^ 64" unfolding u using assms by linarith
  note o = unat_add_small [OF this, unfolded u]
  have s: "unat (of_nat ELF64_PHDR_SIZE :: u64) = ELF64_PHDR_SIZE" by (simp add: ELF64_PHDR_SIZE_def)
  have "unat (ph_off + of_nat (i * ELF64_PHDR_SIZE)) + unat (of_nat ELF64_PHDR_SIZE :: u64) < 2 ^ 64"
    unfolding o s using assms by linarith
  note e = unat_add_small [OF this, unfolded o s]
  show ?thesis unfolding read_struct_def e o using assms(2) by simp
qed

lemma load_phdrs_ok:
  assumes "length bytes < 2 ^ 64" "\<forall>i \<in> set is. unat ph_off + i * ELF64_PHDR_SIZE + ELF64_PHDR_SIZE \<le> length bytes"
    "\<forall>ph \<in> set (segments bytes ph_off is). user_segment ph" "loaded root mapped img rts vm"
  shows "load_result root (fold (seg_image bytes) (segments bytes ph_off is) img)
     (fold seg_rights (segments bytes ph_off is) rts) (load_phdrs bytes ph_off root is mapped vm)"
  using assms(2-)
proof (induction "is" arbitrary: mapped img rts vm)
  case Nil
  then show ?case by (simp add: load_result_def segments_def)
next
  case (Cons i "is")
  let ?ph = "phdr_at bytes ph_off i"
  have rd: "read_struct ELF64_PHDR_SIZE bytes (ph_off + of_nat (i * ELF64_PHDR_SIZE)) =
    Some (Some (take ELF64_PHDR_SIZE (drop (unat ph_off + i * ELF64_PHDR_SIZE) bytes)))"
    using read_phdr [OF assms(1)] Cons.prems(1) by simp
  have rest: "\<forall>i \<in> set is. unat ph_off + i * ELF64_PHDR_SIZE + ELF64_PHDR_SIZE \<le> length bytes"
    using Cons.prems(1) by simp
  show ?case
  proof (cases "p_type ?ph = PT_LOAD \<and> p_memsz ?ph \<noteq> 0")
    case False
    then have "segments bytes ph_off (i # is) = segments bytes ph_off is"
      "load_phdrs bytes ph_off root (i # is) mapped vm = load_phdrs bytes ph_off root is mapped vm"
      using rd by (auto simp: segments_def phdr_at_def Let_def)
    with Cons.IH [OF rest _ Cons.prems(3)] Cons.prems(2) show ?thesis by simp
  next
    case True
    then have sg: "segments bytes ph_off (i # is) = ?ph # segments bytes ph_off is" by (simp add: segments_def)
    have ld: "load_phdrs bytes ph_off root (i # is) mapped vm = do {
           (r, vm) \<leftarrow> load_pages bytes ?ph root [0..<segment_pages ?ph] mapped vm;
           case r of Inl e \<Rightarrow> Some (Inl e, vm) | Inr mapped \<Rightarrow> load_phdrs bytes ph_off root is mapped vm }"
      using True rd by (simp add: phdr_at_def Let_def)
    have "user_segment ?ph" "\<forall>ph \<in> set (segments bytes ph_off is). user_segment ph" using Cons.prems(2) sg by auto
    from load_segment_ok [OF this(1) Cons.prems(3), of bytes] show ?thesis
    proof (cases rule: load_resultE)
      case (failed msg vm')
      then show ?thesis unfolding ld by (simp add: load_result_def)
    next
      case (ok mapped' vm')
      with Cons.IH [OF rest \<open>\<forall>ph \<in> set (segments bytes ph_off is). user_segment ph\<close> ok(2)] show ?thesis
        unfolding ld sg by simp
    qed
  qed
qed

section \<open>Loading a file\<close>

definition elf_header :: "bytes \<Rightarrow> elf64_hdr" where
  "elf_header bytes = elf64_hdr_of (take ELF64_HDR_SIZE bytes)"

text \<open>A file whose headers are all inside it, and the segments its program headers list.\<close>

definition elf_valid :: "bytes \<Rightarrow> bool" where
  "elf_valid bytes \<longleftrightarrow> ELF64_HDR_SIZE \<le> length bytes \<and> length bytes < 2 ^ 64 \<and> check_hdr (elf_header bytes) = None \<and>
     unat (e_phoff (elf_header bytes)) + unat (e_phnum (elf_header bytes)) * ELF64_PHDR_SIZE \<le> length bytes"

definition elf_segments :: "bytes \<Rightarrow> elf64_phdr list" where
  "elf_segments bytes = segments bytes (e_phoff (elf_header bytes)) [0..<unat (e_phnum (elf_header bytes))]"

definition elf_image :: "bytes \<Rightarrow> u64 \<Rightarrow> u8" where
  "elf_image bytes = fold (seg_image bytes) (elf_segments bytes) (\<lambda>_. 0)"

definition elf_rights :: "bytes \<Rightarrow> page_rights" where
  "elf_rights bytes = fold seg_rights (elf_segments bytes) Map.empty"

text \<open>What a process reads at an address, through its page tables.\<close>

definition user_byte :: "vm_state \<Rightarrow> u64 \<Rightarrow> u64 \<Rightarrow> u8 option" where
  "user_byte vm root a =
     map_option (\<lambda>(t, _). read_byte vm t (unat a mod 4096)) (translate_user_page_flags vm root a)"

lemma read_header:
  assumes "ELF64_HDR_SIZE \<le> length bytes"
  shows "read_struct ELF64_HDR_SIZE bytes 0 = Some (Some (take ELF64_HDR_SIZE bytes))"
  using assms by (simp add: read_struct_def ELF64_HDR_SIZE_def)

lemma loaded_empty: "refines root vm Map.empty \<Longrightarrow> loaded root Map.empty (\<lambda>_. 0) Map.empty vm"
  by (simp add: loaded_def frames_ok_def joined_def refines_def)

lemma loaded_user_view:
  assumes "loaded root mapped img rts vm" "user_va a"
  shows "map_option snd (translate_user_page_flags vm root a) = rts (page_of a)"
    "user_byte vm root a = (if rts (page_of a) = None then None else Some (img a))"
proof -
  note l = assms(1) [unfolded loaded_def]
  have tr: "translate_user_page_flags vm root a = joined mapped rts (page_of a)"
    using l assms(2) unfolding refines_def by blast
  have iff: "rts (page_of a) = None \<longleftrightarrow> mapped (a AND NOT 0xFFF) = None" using l assms(2) by blast
  show "map_option snd (translate_user_page_flags vm root a) = rts (page_of a)"
    unfolding tr joined_def page_start_of using iff by (auto split: option.splits)
  show "user_byte vm root a = (if rts (page_of a) = None then None else Some (img a))"
    unfolding user_byte_def tr joined_def page_start_of using iff frames_okD(6) [OF conjunct1 [OF l]]
    by (auto split: option.splits)
qed

lemma loaded_wf: "loaded root mapped img rts vm \<Longrightarrow> vm_wf root vm"
  by (simp add: loaded_def refines_def)


text \<open>C40. The bounds check of the program headers wraps: a file whose \<^verbatim>\<open>e_phoff\<close> is within one program header
  of \<open>2 ^ 64\<close> passes the check, and the loader reads its first program header outside the file.\<close>

theorem elf_phoff_wraps:
  assumes "ELF64_HDR_SIZE \<le> length bytes" "length bytes < 2 ^ 64" "check_hdr (elf_header bytes) = None"
    "e_phnum (elf_header bytes) \<noteq> 0" "2 ^ 64 \<le> unat (e_phoff (elf_header bytes)) + ELF64_PHDR_SIZE"
  shows "elf_load bytes root vm = None"
proof -
  let ?off = "e_phoff (elf_header bytes)"
  have "0 < unat (e_phnum (elf_header bytes))" using assms(4) by (simp add: word_unat_eq_iff)
  then obtain n where n: "unat (e_phnum (elf_header bytes)) = Suc n" by (cases "unat (e_phnum (elf_header bytes))") auto
  have "unat (?off + of_nat ELF64_PHDR_SIZE) = (unat ?off + ELF64_PHDR_SIZE) mod 2 ^ 64"
    by (simp add: unat_word_ariths unsigned_of_nat take_bit_nat_eq_self ELF64_PHDR_SIZE_def)
  also have "\<dots> \<le> unat ?off + ELF64_PHDR_SIZE - 2 ^ 64"
    using assms(5) by (metis le_mod_geq mod_less_eq_dividend)
  also have "\<dots> < ELF64_PHDR_SIZE" using unsigned_less [of ?off, where 'a = nat] by (simp add: ELF64_PHDR_SIZE_def)
  also have "\<dots> \<le> length bytes" using assms(1) by (simp add: ELF64_PHDR_SIZE_def ELF64_HDR_SIZE_def)
  finally have "read_struct ELF64_PHDR_SIZE bytes ?off = None"
    using assms(2,5) by (simp add: read_struct_def)
  then have "load_phdrs bytes ?off root [0..<unat (e_phnum (elf_header bytes))] Map.empty vm = None"
    unfolding n upt_conv_Cons [OF zero_less_Suc] by simp
  with assms(3) show ?thesis unfolding elf_load_def read_header [OF assms(1)] by (simp add: elf_header_def [symmetric] Let_def)
qed

section \<open>Witnesses\<close>

text \<open>A file of 122 bytes: the headers, one segment that loads the whole file at \<^verbatim>\<open>0x400000\<close>, and a jump to
  itself at the entry point.  The second file has its program headers just below \<open>2 ^ 64\<close>.\<close>

definition tiny_elf :: "bytes \<Rightarrow> bytes" where
  "tiny_elf phoff =
     [0x7F, 0x45, 0x4C, 0x46, 2, 1, 1, 0, 0, 0, 0, 0, 0, 0, 0, 0, 2, 0, 62, 0, 1, 0, 0, 0,
      0x78, 0, 0x40, 0, 0, 0, 0, 0] @ phoff @
     [0, 0, 0, 0, 0, 0, 0, 0, 0, 0, 0, 0, 64, 0, 56, 0, 1, 0, 0, 0, 0, 0, 0, 0,
      1, 0, 0, 0, 5, 0, 0, 0, 0, 0, 0, 0, 0, 0, 0, 0, 0, 0, 0x40, 0, 0, 0, 0, 0, 0, 0, 0x40, 0, 0, 0, 0, 0,
      122, 0, 0, 0, 0, 0, 0, 0, 122, 0, 0, 0, 0, 0, 0, 0, 0, 0x10, 0, 0, 0, 0, 0, 0, 0xEB, 0xFE]"

lemma tiny_elf_headers:
  "length (tiny_elf [64, 0, 0, 0, 0, 0, 0, 0]) = 122"
  "check_hdr (elf_header (tiny_elf [64, 0, 0, 0, 0, 0, 0, 0])) = None"
  "e_phoff (elf_header (tiny_elf [64, 0, 0, 0, 0, 0, 0, 0])) = 64"
  "e_phnum (elf_header (tiny_elf [64, 0, 0, 0, 0, 0, 0, 0])) = 1"
  by code_simp+

lemma tiny_elf_segment:
  "p_type (phdr_at (tiny_elf [64, 0, 0, 0, 0, 0, 0, 0]) 64 0) = PT_LOAD"
  "p_memsz (phdr_at (tiny_elf [64, 0, 0, 0, 0, 0, 0, 0]) 64 0) = 122"
  "p_vaddr (phdr_at (tiny_elf [64, 0, 0, 0, 0, 0, 0, 0]) 64 0) = 0x400000"
  by code_simp+


theorem elf_phoff_wraps_witness:
  "elf_load (tiny_elf [0xC8, 0xFF, 0xFF, 0xFF, 0xFF, 0xFF, 0xFF, 0xFF]) 0x100000 boot_vm = None"
proof -
  let ?f = "tiny_elf [0xC8, 0xFF, 0xFF, 0xFF, 0xFF, 0xFF, 0xFF, 0xFF]"
  have h: "length ?f = 122" "check_hdr (elf_header ?f) = None" "e_phnum (elf_header ?f) = 1"
    "e_phoff (elf_header ?f) = 0xFFFFFFFFFFFFFFC8"
    by code_simp+
  show ?thesis by (rule elf_phoff_wraps) (simp_all add: h ELF64_HDR_SIZE_def ELF64_PHDR_SIZE_def)
qed

end
