(* ===== verification/Spec2Isabelle.thy ===== *)
theory Spec2Isabelle
  imports Port_Names Frame_Alloc Ipc_Inbox Pty_Terminals Cortex_Mailbox Proc_Runs Wm_Delivery Proc_Sched
    Ptable_Lock Pkg_Resolver App_Recovery Page_Teardown Elf_Loader
begin

text \<open>
  A verification development for the OSCortex kernel (\<^verbatim>\<open>kernel/src\<close>), a Rust kernel that runs one Flutter
  shell and applications in host processes.  The theories follow the modules of the kernel; each opens with
  the files it models.

  \<^bold>\<open>The program.\<close>  The boot memory map initialises the frame allocator (\<^verbatim>\<open>mm/\<close>).  Page tables take their
  frames from it and give a process its address space; the ELF loader fills that space; the process table
  (\<^verbatim>\<open>process/mod.rs\<close>) spawns, forks, kills and reaps processes and threads, and chooses who runs next.
  The choice looks at the window manager (\<^verbatim>\<open>wm/\<close>), which queues input and frame events for the focused
  application and wakes the process that waits for them.  Applications come from bundles: the
  registry (\<^verbatim>\<open>app_registry/\<close>) installs and launches them and restarts them after a crash, the store
  (\<^verbatim>\<open>app_store/\<close>) keeps them on a block device, and the package system (\<^verbatim>\<open>pkg/\<close>) fetches, verifies and caches
  them.  Processes talk through inboxes (\<^verbatim>\<open>ipc/\<close>), named ports (\<^verbatim>\<open>port_ns/\<close>) and pseudo-terminals
  (\<^verbatim>\<open>drivers/pty.rs\<close>); CPUs send requests to the Cortex agent through a mailbox (\<^verbatim>\<open>cortex/ipc.rs\<close>).

  \<^bold>\<open>Conventions.\<close>  A static of the source is a field of a record or an argument that the operation returns
  updated; a critical section is one function.  Fixed-width integers are words and wrap, as in the
  release build the kernel is shipped as; a \<^verbatim>\<open>usize\<close> that only indexes a bounded buffer is a natural number.
  \<^verbatim>\<open>Option\<close> and \<^verbatim>\<open>Result\<close> are \<^typ>\<open>'a option\<close> and sums.  An outer \<^term>\<open>None\<close> is a run without a result: a panic,
  undefined behaviour, or a loop that does not end.  A theorem about such a function states that the
  value is \<^term>\<open>Some\<close> wherever it claims that the code returns.

  \<^bold>\<open>Theories.\<close>
  \<^item> \<open>Cortex_Prelude\<close>: machine types, slices, little-endian conversion, copying, saturating arithmetic, first
    matches in lists; the collection \<open>kernel_defs\<close> of the constants of the source.
  \<^item> \<open>Keyed_Tables\<close>: the interface of tables of records with a key, the locale \<open>keyed_table\<close>, and vectors
    of optional slots as its generic provider.  \<open>Ring_Queues\<close>: the locale \<open>bounded_fifo\<close> and the arithmetic of
    ring buffers.  Both are interpreted on the tables and rings of the components below.
  \<^item> \<open>Frame_Alloc\<close>: \<^verbatim>\<open>mm/frame_allocator.rs\<close> and the memory map of \<^verbatim>\<open>mm/mod.rs\<close>.  No frame is handed out
    twice; contiguous allocation finds the lowest run.
  \<^item> \<open>Page_Tables\<close>, \<open>Page_Teardown\<close>: the four-level tables of \<^verbatim>\<open>mm/paging.rs\<close> for x86-64 over a store of
    64-bit words.  They refine a map from pages to frames with rights, stay a tree of distinct frames, and
    release all their frames; and the mirrored window leaves a page that refers to a freed frame.
  \<^item> \<open>Elf_Loader\<close>: \<^verbatim>\<open>process/elf.rs\<close> on top of the page tables.  What a process reads is what the file says;
    and the wrapping bounds check.
  \<^item> \<open>Proc_Table\<close>, \<open>Proc_Life\<close>, \<open>Proc_Runs\<close>: descriptors and operations of \<^verbatim>\<open>process/mod.rs\<close>, their
    invariant, runs from boot, and what exit, kill, fork and a failed spawn do with the resources of a process.
    The calls into paging, loading and anonymous mapping are the record \<open>paging_ops\<close>, an argument.
  \<^item> \<open>Ptable_Lock\<close>: the recursive lock around the process table, as functions and as an interleaving of the
    single memory accesses of all CPUs.
  \<^item> \<open>Wm_Events\<close>, \<open>Wm_Delivery\<close>: the event ring of \<^verbatim>\<open>wm/mod.rs\<close>, its refinement to a list, delivery by
    priority and routing of input.
  \<^item> \<open>Proc_Sched\<close>: the choice of the next process and timer preemption, over the process table and the window
    manager together.
  \<^item> \<open>App_Registry\<close>, \<open>App_Store\<close>, \<open>App_Recovery\<close>: installed applications, their copy on disk across a
    restart, launching and crash recovery.  A sector transfer of the block device is an argument.
  \<^item> \<open>Rust_Str\<close>, \<open>Pkg_Hash\<close>, \<open>Pkg_Http\<close>, \<open>Pkg_Catalog\<close>, \<open>Pkg_Resolver\<close>: the string functions the
    parsers use, SHA-256 against its standard, the HTTP client over an arbitrary TCP peer, catalogs and cache,
    and the resolver.  The signature check of the crate \<^verbatim>\<open>ed25519_compact\<close> is an argument.
  \<^item> \<open>Ipc_Inbox\<close>, \<open>Port_Names\<close>, \<open>Pty_Terminals\<close>, \<open>Cortex_Mailbox\<close>: communication.

  \<^bold>\<open>Bounds.\<close>  Loops of the source with a fixed bound are folds or recursion over that bound.  The walk to
  a group leader, the search for an application id and the fetch loops have none in the source: they are
  partial functions or recursion whose end is proved.  Runs of the process subsystem are limited to
  \<open>2 ^ 23\<close> operations, because the pid counter of 32 bits must not wrap within a run; each operation
  advances it by at most 256.  The loader theorem assumes files shorter than \<open>2 ^ 64\<close> bytes, which holds for
  every slice, and segments in the user half, which the code does not check.

  \<^bold>\<open>Not modelled.\<close>  Code whose meaning is that of hardware or of assembly: interrupt entry, context switch
  instructions, the TLB, interrupt controllers, device drivers, processor start-up, and the aarch64 and riscv64
  ports.  The POSIX emulation, the dynamic loader, polling and the system call table, which work on raw user
  memory and block by switching processes.  The compositor, the TCP/IP stack, the file systems, isolates and
  platform channels, the Cortex heuristics and the WebAssembly sandbox.  The heap is a third-party crate.
  Programs beside the kernel: the embedder, init, the package server, build tools and the Dart packages.
  Atomicity: apart from the process table lock and the mailbox locks, a function that takes a lock is one step.
\<close>

end
